(* ===== verification/Prelude.thy ===== *)
theory Prelude
  imports Main "HOL-Library.Word"
begin

text \<open>
  Shared vocabulary of the development: the collections of simplification rules, the
  options and list ends the linked-list model needs, facts on lists, maps and sums that
  more than one component uses, and the machine types of the program
  (\<open>size_t\<close> is 64 bits, \<open>int\<close> is 32 bits on the supported platform).
\<close>

section \<open>Collections\<close>

named_theorems node_simps
  \<open>reading one pointer field of a heap of list nodes after a write\<close>

named_theorems queue_laws
  \<open>laws of the intrusive queue, stated over its list of elements\<close>

named_theorems effect_simps
  \<open>what one operation does to one field of the state\<close>

section \<open>Machine types\<close>

type_synonym size_t = "64 word"
type_synonym int32 = "32 word"

text \<open>\<open>INT_MIN\<close>, the value of \<open>Select::InvalidSelectKey\<close>.\<close>

abbreviation INT_MIN :: int where
  "INT_MIN \<equiv> - 2147483648"

section \<open>Ends of a list\<close>

text \<open>
  The pointer before or after a segment of a doubly linked list: the segment's own end
  when it has one, and the pointer it was entered with otherwise.
\<close>

definition first_or :: "'a list \<Rightarrow> 'a option \<Rightarrow> 'a option" where
  "first_or xs n = (case xs of [] \<Rightarrow> n | x # _ \<Rightarrow> Some x)"

definition last_or :: "'a option \<Rightarrow> 'a list \<Rightarrow> 'a option" where
  "last_or p xs = (if xs = [] then p else Some (last xs))"

lemma first_or_simps [simp]:
  "first_or [] n = n" "first_or (x # xs) n = Some x"
  by (simp_all add: first_or_def)

lemma last_or_simps [simp]:
  "last_or p [] = p" "last_or p (x # xs) = last_or (Some x) xs" "last_or p (xs @ [x]) = Some x"
  by (simp_all add: last_or_def)

lemma first_or_append [simp]: "first_or (xs @ ys) n = first_or xs (first_or ys n)"
  by (cases xs) simp_all

lemma last_or_append [simp]: "last_or p (xs @ ys) = last_or (last_or p xs) ys"
  by (induction xs arbitrary: p) simp_all

section \<open>Lists\<close>

lemma remove1_middle [simp]:
  "x \<notin> set ys \<Longrightarrow> remove1 x (ys @ x # zs) = ys @ zs"
  by (induction ys) simp_all

lemma distinct_remove1_notin: "distinct xs \<Longrightarrow> x \<notin> set (remove1 x xs)"
  by (simp add: set_remove1_eq)

lemma split_distinct:
  assumes "x \<in> set xs" "distinct xs"
  obtains ys zs where "xs = ys @ x # zs" "x \<notin> set ys" "x \<notin> set zs"
  using assms by (metis distinct.simps(2) distinct_append in_set_conv_decomp not_distinct_conv_prefix
      split_list_first split_list_last disjoint_iff list.set_intros(1))

lemma count_list_le_1: "distinct xs \<Longrightarrow> count_list xs x \<le> 1"
  by (induction xs) auto

section \<open>Partitions\<close>

text \<open>Every partition is met by a pass over all of them that starts at any one.\<close>

lemma rotate_index:
  assumes "(p :: nat) < n"
  shows "\<exists>i < n. (w + i) mod n = p"
proof (intro exI conjI)
  let ?i = "p + (n - w mod n)"
  have "w + ?i = p + n * (w div n) + n"
    using mult_div_mod_eq [of n w] mod_less_divisor [of n w] assms by linarith
  then have "(w + ?i) mod n = p" using assms by simp
  then show "(w + ?i mod n) mod n = p" by (simp add: mod_add_right_eq)
  show "?i mod n < n" using assms by simp
qed

section \<open>Draining a container\<close>

text \<open>Up to \<open>n\<close> calls of a \<open>pop\<close> that answers \<open>None\<close> when there is nothing left.\<close>

fun pops :: "nat \<Rightarrow> ('s \<Rightarrow> 'a option \<times> 's) \<Rightarrow> 's \<Rightarrow> 'a list \<times> 's" where
  "pops 0 f s = ([], s)"
| "pops (Suc n) f s =
     (case f s of
        (None, s') \<Rightarrow> ([], s')
      | (Some x, s') \<Rightarrow> let (xs, s'') = pops n f s' in (x # xs, s''))"

section \<open>Results that may fail\<close>

text \<open>Going on with the value of a step, or stopping with its error.\<close>

definition and_then :: "'x + 'a \<Rightarrow> ('a \<Rightarrow> 'x + 'b) \<Rightarrow> 'x + 'b" where
  "and_then r f = (case r of Inl e \<Rightarrow> Inl e | Inr a \<Rightarrow> f a)"

lemma and_then_simps [simp]: "and_then (Inl e) f = Inl e" "and_then (Inr a) f = f a"
  by (simp_all add: and_then_def)

lemma and_then_Inr: "and_then r f = Inr b \<longleftrightarrow> (\<exists>a. r = Inr a \<and> f a = Inr b)"
  by (cases r) simp_all

end
