(* ===== verification/Semaphores.thy ===== *)
theory Semaphores
  imports Prelude
begin

text \<open>
  \<open>Spinlock\<close>, \<open>SchedContext::Condition\<close>, \<open>Semaphore\<close> and \<open>Mutex\<close>
  (\<open>src/include/core/schedule.h\<close>, \<open>src/core/schedule.cpp\<close>) under every interleaving: any
  number of tasks call \<open>aquire\<close> and \<open>release\<close> on one semaphore, and each step below is
  one access to shared memory that the locks do not hide. The two spinlocks are the plain
  flags of the code, so that who holds them is a fact about the tasks' program points, not
  part of the state.
\<close>

section \<open>Spinlock\<close>

text \<open>
  \<open>compare_exchange_weak(expected, desired)\<close> on an atomic flag: it may fail although
  the flag has the expected value (\<open>spurious\<close>). The result, the flag and \<open>expected\<close>.
\<close>

definition cas_weak :: "bool \<Rightarrow> bool \<Rightarrow> bool \<Rightarrow> bool \<Rightarrow> bool \<times> bool \<times> bool" where
  "cas_weak spurious flag expected desired =
     (if flag = expected \<and> \<not> spurious then (True, desired, expected) else (False, flag, flag))"

text \<open>
  One pass of the loop of \<open>Spinlock::lock\<close>, which starts with \<open>expected = false\<close> every
  time: whether the loop is left, and the flag.
\<close>

definition spin_try :: "bool \<Rightarrow> bool \<Rightarrow> bool \<times> bool" where
  "spin_try spurious flag = (let (ok, flag', _) = cas_weak spurious flag False True in (ok, flag'))"

definition spin_unlock :: "bool \<Rightarrow> bool" where
  "spin_unlock flag = False"

lemma spin_try_iff: "spin_try sp flag = (\<not> flag \<and> \<not> sp, flag \<or> \<not> sp)"
  by (auto simp: spin_try_def cas_weak_def)

section \<open>Program points and state\<close>

text \<open>
  Where a task is: outside; in \<open>Semaphore::aquire\<close> before the lock, at the test of
  \<open>_vacant\<close>, in \<open>Condition::wait\<close> before \<open>_mtx.lock()\<close>, suspended with both locks still
  held (its executor is about to run \<open>_suspend_to_this\<close>), linked and before the two
  unlocks, blocked, made runnable, resumed and locking again, before
  \<open>_scheduled_ctx = nullptr\<close>, and before the final unlock; or in \<open>Semaphore::release\<close>.
\<close>

datatype pc =
    Outside
  | AcqLock | AcqTest | AcqCondLock | Suspending | SuspUnlockCond | SuspUnlockSem
  | Blocked | Runnable | Relock | Relocked | Retest | AcqUnlock
  | RelLock | RelInc | RelCondLock | RelNotify | RelUnlockCond | RelUnlockSem

record sem =
  sem_locked :: bool
  cond_locked :: bool
  vacant :: nat
  blocked :: "nat list"
  scheduled_ctx :: "nat option"
  pcs :: "nat \<Rightarrow> pc"
  taken :: nat
  given :: nat

text \<open>\<open>taken\<close> and \<open>given\<close> count the decrements and increments of \<open>_vacant\<close>.\<close>

definition new_sem :: "nat \<Rightarrow> sem" where
  "new_sem n = \<lparr>sem_locked = False, cond_locked = False, vacant = n, blocked = [],
     scheduled_ctx = None, pcs = (\<lambda>_. Outside), taken = 0, given = 0\<rparr>"

definition goto :: "nat \<Rightarrow> pc \<Rightarrow> sem \<Rightarrow> sem" where
  "goto i p s = s\<lparr>pcs := (pcs s)(i := p)\<rparr>"

section \<open>Steps\<close>

text \<open>
  What a task does: start one of the two operations, or go on with the one it is in.
  A spinning task whose pass fails stays where it is (\<open>None\<close>: no move).
\<close>

datatype action = Aquire | Release | Go

text \<open>
  \<open>_schedule_from_this\<close>: the first blocked task is unlinked, remembered by its context and
  pushed to its scheduler; \<open>ctx_of\<close> gives the context of a task.
\<close>

definition schedule_from_this :: "(nat \<Rightarrow> nat) \<Rightarrow> sem \<Rightarrow> sem" where
  "schedule_from_this ctx_of s =
     (case blocked s of
        [] \<Rightarrow> s
      | j # js \<Rightarrow> goto j Runnable (s\<lparr>blocked := js, scheduled_ctx := Some (ctx_of j)\<rparr>))"

definition lock_sem :: "nat \<Rightarrow> pc \<Rightarrow> sem \<Rightarrow> sem option" where
  "lock_sem i p s =
     (let (ok, flag) = spin_try False (sem_locked s)
      in if ok then Some (goto i p (s\<lparr>sem_locked := flag\<rparr>)) else None)"

definition lock_cond :: "nat \<Rightarrow> pc \<Rightarrow> sem \<Rightarrow> sem option" where
  "lock_cond i p s =
     (let (ok, flag) = spin_try False (cond_locked s)
      in if ok then Some (goto i p (s\<lparr>cond_locked := flag\<rparr>)) else None)"

definition unlock_sem :: "nat \<Rightarrow> pc \<Rightarrow> sem \<Rightarrow> sem" where
  "unlock_sem i p s = goto i p (s\<lparr>sem_locked := spin_unlock (sem_locked s)\<rparr>)"

definition unlock_cond :: "nat \<Rightarrow> pc \<Rightarrow> sem \<Rightarrow> sem" where
  "unlock_cond i p s = goto i p (s\<lparr>cond_locked := spin_unlock (cond_locked s)\<rparr>)"

text \<open>The loop of \<open>aquire\<close> at its test: take a permit, or wait on the condition.\<close>

definition test_vacant :: "nat \<Rightarrow> sem \<Rightarrow> sem" where
  "test_vacant i s =
     (if vacant s > 0 then goto i AcqUnlock (s\<lparr>vacant := vacant s - 1, taken := Suc (taken s)\<rparr>)
      else goto i AcqCondLock s)"

definition continue :: "(nat \<Rightarrow> nat) \<Rightarrow> nat \<Rightarrow> sem \<Rightarrow> sem option" where
  "continue ctx_of i s =
     (case pcs s i of
        Outside \<Rightarrow> None
      | AcqLock \<Rightarrow> lock_sem i AcqTest s
      | AcqTest \<Rightarrow> Some (test_vacant i s)
      | AcqCondLock \<Rightarrow> lock_cond i Suspending s
      | Suspending \<Rightarrow> Some (goto i SuspUnlockCond (s\<lparr>blocked := blocked s @ [i]\<rparr>))
      | SuspUnlockCond \<Rightarrow> Some (unlock_cond i SuspUnlockSem s)
      | SuspUnlockSem \<Rightarrow> Some (unlock_sem i Blocked s)
      | Blocked \<Rightarrow> None
      | Runnable \<Rightarrow> Some (goto i Relock s)
      | Relock \<Rightarrow> lock_sem i Relocked s
      | Relocked \<Rightarrow> Some (goto i Retest (s\<lparr>scheduled_ctx := None\<rparr>))
      | Retest \<Rightarrow> Some (test_vacant i s)
      | AcqUnlock \<Rightarrow> Some (unlock_sem i Outside s)
      | RelLock \<Rightarrow> lock_sem i RelInc s
      | RelInc \<Rightarrow> Some (goto i RelCondLock (s\<lparr>vacant := Suc (vacant s), given := Suc (given s)\<rparr>))
      | RelCondLock \<Rightarrow> lock_cond i RelNotify s
      | RelNotify \<Rightarrow> Some (goto i RelUnlockCond (schedule_from_this ctx_of s))
      | RelUnlockCond \<Rightarrow> Some (unlock_cond i RelUnlockSem s)
      | RelUnlockSem \<Rightarrow> Some (unlock_sem i Outside s))"

definition move :: "(nat \<Rightarrow> nat) \<Rightarrow> nat \<Rightarrow> action \<Rightarrow> sem \<Rightarrow> sem option" where
  "move ctx_of i a s =
     (case a of
        Aquire \<Rightarrow> if pcs s i = Outside then Some (goto i AcqLock s) else None
      | Release \<Rightarrow> if pcs s i = Outside then Some (goto i RelLock s) else None
      | Go \<Rightarrow> continue ctx_of i s)"

inductive sem_reach :: "(nat \<Rightarrow> nat) \<Rightarrow> nat \<Rightarrow> sem \<Rightarrow> bool" for ctx_of n where
  sem_start: "sem_reach ctx_of n (new_sem n)"
| sem_move: "sem_reach ctx_of n s \<Longrightarrow> move ctx_of i a s = Some t \<Longrightarrow> sem_reach ctx_of n t"

text \<open>A schedule: which task moves, and how; an impossible move is skipped.\<close>

fun moves :: "(nat \<Rightarrow> nat) \<Rightarrow> (nat \<times> action) list \<Rightarrow> sem \<Rightarrow> sem" where
  "moves ctx_of [] s = s"
| "moves ctx_of ((i, a) # xs) s =
     moves ctx_of xs (case move ctx_of i a s of None \<Rightarrow> s | Some t \<Rightarrow> t)"

lemma moves_reach: "sem_reach ctx_of n s \<Longrightarrow> sem_reach ctx_of n (moves ctx_of xs s)"
proof (induction xs arbitrary: s)
  case Nil
  then show ?case by simp
next
  case (Cons x xs)
  obtain i a where x: "x = (i, a)" by force
  show ?case
  proof (cases "move ctx_of i a s")
    case None
    with Cons x show ?thesis by simp
  next
    case (Some t)
    with Cons.prems have "sem_reach ctx_of n t" by (rule sem_move)
    with Cons.IH x Some show ?thesis by simp
  qed
qed

section \<open>Who holds the locks\<close>

definition holds_sem :: "pc \<Rightarrow> bool" where
  "holds_sem p \<longleftrightarrow> (p \<in> {AcqTest, AcqCondLock, Suspending, SuspUnlockCond, SuspUnlockSem, Relocked, Retest,
     AcqUnlock, RelInc, RelCondLock, RelNotify, RelUnlockCond, RelUnlockSem})"

definition holds_cond :: "pc \<Rightarrow> bool" where
  "holds_cond p \<longleftrightarrow> (p \<in> {Suspending, SuspUnlockCond, RelNotify, RelUnlockCond})"

definition in_queue :: "pc \<Rightarrow> bool" where
  "in_queue p \<longleftrightarrow> (p \<in> {SuspUnlockCond, SuspUnlockSem, Blocked})"

text \<open>A task that will look at \<open>_vacant\<close> again, or a release that has yet to notify.\<close>

definition will_retry :: "pc \<Rightarrow> bool" where
  "will_retry p \<longleftrightarrow> (p \<in> {Runnable, Relock, Relocked, Retest, RelCondLock, RelNotify})"

text \<open>
  A flag that is set exactly while one task is at a point of a set of program points, and
  how it evolves when a task moves inside the set, enters it or leaves it.
\<close>

definition excl :: "bool \<Rightarrow> (pc \<Rightarrow> bool) \<Rightarrow> (nat \<Rightarrow> pc) \<Rightarrow> bool" where
  "excl flag H f \<longleftrightarrow> flag = (\<exists>i. H (f i)) \<and> (\<forall>i j. H (f i) \<longrightarrow> H (f j) \<longrightarrow> i = j)"

lemma excl_stay: "H (f i) = H p \<Longrightarrow> excl flag H (f(i := p)) = excl flag H f"
  unfolding excl_def by (metis (full_types) fun_upd_apply)

lemma excl_enter: "excl flag H f \<Longrightarrow> \<not> flag \<Longrightarrow> H p \<Longrightarrow> excl True H (f(i := p))"
  unfolding excl_def by auto

lemma excl_leave: "excl flag H f \<Longrightarrow> H (f i) \<Longrightarrow> \<not> H p \<Longrightarrow> excl False H (f(i := p))"
  unfolding excl_def by auto

lemma excl_flag: "excl flag H f \<Longrightarrow> H (f i) \<Longrightarrow> flag"
  unfolding excl_def by auto

lemma excl_unique: "excl flag H f \<Longrightarrow> H (f i) \<Longrightarrow> H (f j) \<Longrightarrow> i = j"
  unfolding excl_def by auto

section \<open>Reading a move\<close>

lemma goto_fields [effect_simps]:
  "pcs (goto i p s) = (pcs s)(i := p)" "sem_locked (goto i p s) = sem_locked s"
  "cond_locked (goto i p s) = cond_locked s" "vacant (goto i p s) = vacant s"
  "blocked (goto i p s) = blocked s" "scheduled_ctx (goto i p s) = scheduled_ctx s"
  "taken (goto i p s) = taken s" "given (goto i p s) = given s"
  by (simp_all add: goto_def)

lemmas step_defs = move_def continue_def lock_sem_def lock_cond_def unlock_sem_def unlock_cond_def
  spin_try_iff spin_unlock_def test_vacant_def

lemmas point_defs = holds_sem_def holds_cond_def in_queue_def will_retry_def

definition locks_inv :: "sem \<Rightarrow> bool" where
  "locks_inv s \<longleftrightarrow> excl (sem_locked s) holds_sem (pcs s) \<and> excl (cond_locked s) holds_cond (pcs s)"

definition queue_inv :: "sem \<Rightarrow> bool" where
  "queue_inv s \<longleftrightarrow> distinct (blocked s) \<and> set (blocked s) = {i. in_queue (pcs s i)}"

text \<open>
  A notification finds only tasks whose executor has finished suspending them: it runs
  with the semaphore's lock, which the executor gives up last.
\<close>

lemma notify_blocked:
  assumes "locks_inv s" "queue_inv s" "pcs s i = RelNotify" "j \<in> set (blocked s)"
  shows "pcs s j = Blocked"
proof -
  have q: "in_queue (pcs s j)" using assms(2,4) by (simp add: queue_inv_def)
  moreover have "\<not> holds_sem (pcs s j)"
  proof
    assume "holds_sem (pcs s j)"
    then have "j = i"
      using assms(1,3) excl_unique [of "sem_locked s" holds_sem "pcs s" j i]
      by (simp add: locks_inv_def holds_sem_def)
    with q assms(3) show False by (simp add: in_queue_def)
  qed
  ultimately show ?thesis by (auto simp: point_defs)
qed

lemma locks_inv_move:
  assumes inv: "locks_inv s" "queue_inv s" and mv: "move ctx_of i a s = Some t"
  shows "locks_inv t"
proof -
  have nb: "pcs s i = RelNotify \<Longrightarrow> blocked s = j # js \<Longrightarrow> pcs s j = Blocked \<and> i \<noteq> j" for j js
    using notify_blocked [OF inv, of i j] by auto
  have ex: "excl (sem_locked s) holds_sem (pcs s)" "excl (cond_locked s) holds_cond (pcs s)"
    using inv(1) by (auto simp: locks_inv_def)
  show ?thesis
    using mv nb ex excl_enter [OF ex(1)] excl_enter [OF ex(2)] excl_leave [OF ex(1)] excl_leave [OF ex(2)]
    unfolding locks_inv_def
    by (cases a; cases "pcs s i")
      (auto simp: step_defs effect_simps schedule_from_this_def point_defs excl_stay
        split: if_splits list.splits)
qed

section \<open>The queue and the permits\<close>

lemma points_upd:
  "{k. P ((f(i := p)) k)} = (if P p then insert i {k. P (f k)} else {k. P (f k)} - {i})"
  by auto

lemma points_stay: "P (f i) = P p \<Longrightarrow> {k. P ((f(i := p)) k)} = {k. P (f k)}"
  by auto

lemma move_shape:
  assumes "move ctx_of i a s = Some t"
  shows "a = Go \<and> pcs s i = RelNotify \<or> a = Go \<and> pcs s i = Suspending \<or>
    blocked t = blocked s \<and> pcs t = (pcs s)(i := pcs t i) \<and> in_queue (pcs t i) = in_queue (pcs s i)"
  using assms by (cases a; cases "pcs s i")
    (auto simp: step_defs effect_simps in_queue_def split: if_splits)

lemma queue_inv_move:
  assumes inv: "locks_inv s" "queue_inv s" and mv: "move ctx_of i a s = Some t"
  shows "queue_inv t"
proof -
  have q: "distinct (blocked s)" "set (blocked s) = {k. in_queue (pcs s k)}"
    using inv(2) by (auto simp: queue_inv_def)
  consider (notify) "a = Go" "pcs s i = RelNotify" | (link) "a = Go" "pcs s i = Suspending"
    | (other) "blocked t = blocked s" "pcs t = (pcs s)(i := pcs t i)" "in_queue (pcs t i) = in_queue (pcs s i)"
    using move_shape [OF mv] by blast
  then show ?thesis
  proof cases
    case notify
    show ?thesis
    proof (cases "blocked s")
      case Nil
      with notify mv have "blocked t = []" "pcs t = (pcs s)(i := RelUnlockCond)"
        by (auto simp: step_defs effect_simps schedule_from_this_def)
      with q notify(2) Nil show ?thesis
        by (simp add: queue_inv_def points_stay in_queue_def)
    next
      case (Cons j js)
      with notify_blocked [OF inv notify(2)] have j: "pcs s j = Blocked" by simp
      from Cons notify mv have t: "blocked t = js" "pcs t = ((pcs s)(j := Runnable))(i := RelUnlockCond)"
        by (auto simp: step_defs effect_simps schedule_from_this_def)
      have "{k. in_queue (pcs t k)} = {k. in_queue (pcs s k)} - {j}"
        using notify(2) j by (auto simp: t in_queue_def)
      also have "\<dots> = set js" using q Cons by auto
      finally show ?thesis using q(1) Cons t(1) by (simp add: queue_inv_def)
    qed
  next
    case link
    with mv q show ?thesis
      by (auto simp: queue_inv_def step_defs effect_simps in_queue_def)
  next
    case other
    then have "{k. in_queue (pcs t k)} = {k. in_queue (pcs s k)}"
      by (metis points_stay)
    with q other(1) show ?thesis by (simp add: queue_inv_def)
  qed
qed

text \<open>How many tasks are at a point of a set.\<close>

definition number :: "(pc \<Rightarrow> bool) \<Rightarrow> (nat \<Rightarrow> pc) \<Rightarrow> nat" where
  "number P f = card {k. P (f k)}"

lemma number_upd:
  assumes "finite {k. f k \<noteq> Outside}" "\<not> P Outside"
  shows "number P (f(i := p)) + (if P (f i) then 1 else 0) = number P f + (if P p then 1 else 0)"
proof -
  have fin: "finite {k. P (f k)}"
    using assms by (auto intro: finite_subset [of _ "{k. f k \<noteq> Outside}"])
  moreover from this have "P (f i) \<Longrightarrow> card {k. P (f k)} > 0" by (auto simp: card_gt_0_iff)
  ultimately show ?thesis
    unfolding number_def points_upd by (auto simp: card_insert_if card_Diff_singleton_if)
qed

definition permits_inv :: "nat \<Rightarrow> sem \<Rightarrow> bool" where
  "permits_inv n s \<longleftrightarrow>
     finite {k. pcs s k \<noteq> Outside} \<and> vacant s + taken s = n + given s \<and>
     (\<forall>k. pcs s k = AcqCondLock \<or> pcs s k = Suspending \<longrightarrow> vacant s = 0) \<and>
     (blocked s \<noteq> [] \<longrightarrow> vacant s \<le> number will_retry (pcs s))"

lemma finite_upd: "finite {k. f k \<noteq> Outside} \<Longrightarrow> finite {k. (f(i := p)) k \<noteq> Outside}"
  by (rule finite_subset [of _ "insert i {k. f k \<noteq> Outside}"]) auto

abbreviation weight :: "pc \<Rightarrow> nat" where
  "weight p \<equiv> (if will_retry p then 1 else 0)"

lemma move_permits:
  assumes "move ctx_of i a s = Some t" "pcs s i = AcqCondLock \<or> pcs s i = Suspending \<longrightarrow> vacant s = 0"
  shows "vacant t + taken t + given s = vacant s + taken s + given t"
    and "pcs t i = AcqCondLock \<or> pcs t i = Suspending \<Longrightarrow> vacant t = 0"
    and "holds_sem (pcs s i) \<or> vacant t = vacant s"
    and "pcs s i \<noteq> RelNotify \<Longrightarrow> pcs t = (pcs s)(i := pcs t i)"
    and "pcs s i \<noteq> RelNotify \<Longrightarrow>
      vacant t = 0 \<or> vacant t + weight (pcs s i) \<le> vacant s + weight (pcs t i) \<and> blocked t = blocked s"
  using assms by (cases a; cases "pcs s i";
    auto simp: step_defs effect_simps point_defs schedule_from_this_def split: if_splits list.splits)+

lemma permits_inv_move:
  assumes inv: "locks_inv s" "queue_inv s" "permits_inv n s" and mv: "move ctx_of i a s = Some t"
  shows "permits_inv n t"
proof -
  have p: "finite {k. pcs s k \<noteq> Outside}" "vacant s + taken s = n + given s"
    "\<And>k. pcs s k = AcqCondLock \<or> pcs s k = Suspending \<Longrightarrow> vacant s = 0"
    "blocked s \<noteq> [] \<Longrightarrow> vacant s \<le> number will_retry (pcs s)"
    using inv(3) by (auto simp: permits_inv_def)
  have "pcs s i = AcqCondLock \<or> pcs s i = Suspending \<longrightarrow> vacant s = 0" using p(3) by blast
  note shape = move_permits [OF mv this]
  have sum: "vacant t + taken t = n + given t" using shape(1) p(2) by simp
  have alone: "holds_sem (pcs s i) \<Longrightarrow> k \<noteq> i \<Longrightarrow> \<not> holds_sem (pcs s k)" for k
    using inv(1) excl_unique [of "sem_locked s" holds_sem "pcs s" k i] by (auto simp: locks_inv_def)
  show ?thesis
  proof (cases "pcs s i = RelNotify")
    case True
    show ?thesis
    proof (cases "blocked s")
      case Nil
      with True mv have t: "pcs t = (pcs s)(i := RelUnlockCond)" "vacant t = vacant s" "blocked t = []"
        by (auto simp: step_defs effect_simps schedule_from_this_def split: action.splits if_splits)
      have "finite {k. pcs t k \<noteq> Outside}" unfolding t by (intro finite_upd p(1))
      moreover have "vacant t = 0" if "pcs t k = AcqCondLock \<or> pcs t k = Suspending" for k
        using that p(3) [of k] unfolding t by (cases "k = i") auto
      ultimately show ?thesis using sum t(3) by (auto simp: permits_inv_def)
    next
      case (Cons j js)
      define f where "f = (pcs s)(j := Runnable)"
      have j: "pcs s j = Blocked" "i \<noteq> j" using notify_blocked [OF inv(1,2) True] Cons True by auto
      have t: "pcs t = f(i := RelUnlockCond)" "vacant t = vacant s"
        using True mv Cons by (auto simp: f_def step_defs effect_simps schedule_from_this_def
            split: action.splits if_splits)
      have f: "finite {k. f k \<noteq> Outside}" "f i = RelNotify"
        using j True unfolding f_def by (intro finite_upd p(1), simp)
      have "number will_retry f = Suc (number will_retry (pcs s))"
        using number_upd [OF p(1), of will_retry j Runnable] j by (simp add: f_def will_retry_def)
      then have "number will_retry (pcs t) = number will_retry (pcs s)"
        using number_upd [OF f(1), of will_retry i RelUnlockCond] f(2) t(1) by (simp add: will_retry_def)
      moreover have "finite {k. pcs t k \<noteq> Outside}" unfolding t by (intro finite_upd f(1))
      moreover have "vacant t = 0" if "pcs t k = AcqCondLock \<or> pcs t k = Suspending" for k
        using that p(3) [of k] unfolding t f_def by (auto split: if_splits)
      ultimately show ?thesis
        using p(4) Cons sum t(2) by (auto simp: permits_inv_def)
    qed
  next
    case False
    define q where "q = pcs t i"
    have t: "pcs t = (pcs s)(i := q)" using shape(4) [OF False] by (simp add: q_def)
    have "finite {k. pcs t k \<noteq> Outside}" unfolding t by (intro finite_upd p(1))
    moreover have "vacant t = 0" if "pcs t k = AcqCondLock \<or> pcs t k = Suspending" for k
    proof (cases "k = i")
      case True
      with that shape(2) show ?thesis by simp
    next
      case neq: False
      then have "pcs t k = pcs s k" by (simp add: t)
      with that have "vacant s = 0" "holds_sem (pcs s k)" using p(3) by (auto simp: holds_sem_def)
      with shape(3) alone neq show ?thesis by auto
    qed
    moreover have "vacant t \<le> number will_retry (pcs t)" if "blocked t \<noteq> []"
      using shape(5) [OF False] p(4) that number_upd [OF p(1), of will_retry i q]
      by (auto simp: t will_retry_def split: if_splits)
    ultimately show ?thesis using sum by (auto simp: permits_inv_def)
  qed
qed

section \<open>Reachable states\<close>

lemma sem_reach_inv:
  "sem_reach ctx_of n s \<Longrightarrow> locks_inv s \<and> queue_inv s \<and> permits_inv n s"
proof (induction rule: sem_reach.induct)
  case sem_start
  show ?case
    by (simp add: new_sem_def locks_inv_def queue_inv_def permits_inv_def excl_def point_defs)
next
  case (sem_move s i a t)
  then show ?case by (blast intro: locks_inv_move queue_inv_move permits_inv_move)
qed

text \<open>Where a task can be stuck: outside, blocked, or spinning on a lock that is taken.\<close>

lemma stuck_points:
  assumes "move ctx_of i Go s = None"
  shows "pcs s i = Outside \<or> pcs s i = Blocked
    \<or> sem_locked s \<and> (pcs s i = AcqLock \<or> pcs s i = Relock \<or> pcs s i = RelLock)
    \<or> cond_locked s \<and> (pcs s i = AcqCondLock \<or> pcs s i = RelCondLock)"
  using assms by (cases "pcs s i") (auto simp: step_defs split: if_splits)

text \<open>The two locks are always taken in the same order, so a taken lock can be released.\<close>

lemma stuck_unlocked:
  assumes inv: "locks_inv s" and stuck: "\<And>i. move ctx_of i Go s = None"
  shows "\<not> sem_locked s \<and> \<not> cond_locked s"
proof -
  have c: "\<not> cond_locked s"
  proof
    assume "cond_locked s"
    then obtain k where k: "holds_cond (pcs s k)" using inv by (auto simp: locks_inv_def excl_def)
    with stuck_points [OF stuck [of k]] show False by (auto simp: holds_cond_def)
  qed
  moreover have "\<not> sem_locked s"
  proof
    assume "sem_locked s"
    then obtain k where k: "holds_sem (pcs s k)" using inv by (auto simp: locks_inv_def excl_def)
    with stuck_points [OF stuck [of k]] c show False by (auto simp: holds_sem_def)
  qed
  ultimately show ?thesis by simp
qed

section \<open>Holders of permits\<close>

text \<open>
  Clients that pair the operations: only a task that has returned from \<open>aquire\<close> and not
  released since calls \<open>release\<close> (\<open>Mutex::lock\<close> and \<open>Mutex::unlock\<close> with one permit). The
  set is that of the tasks between the two calls.
\<close>

inductive paired :: "(nat \<Rightarrow> nat) \<Rightarrow> nat \<Rightarrow> sem \<Rightarrow> nat set \<Rightarrow> bool" for ctx_of n where
  pair_start: "paired ctx_of n (new_sem n) {}"
| pair_aquire: "paired ctx_of n s A \<Longrightarrow> i \<notin> A \<Longrightarrow> move ctx_of i Aquire s = Some t \<Longrightarrow> paired ctx_of n t A"
| pair_release: "paired ctx_of n s A \<Longrightarrow> i \<in> A \<Longrightarrow> move ctx_of i Release s = Some t \<Longrightarrow> paired ctx_of n t (A - {i})"
| pair_go: "paired ctx_of n s A \<Longrightarrow> move ctx_of i Go s = Some t
    \<Longrightarrow> paired ctx_of n t (if pcs s i = AcqUnlock then insert i A else A)"

lemma paired_reach: "paired ctx_of n s A \<Longrightarrow> sem_reach ctx_of n s"
  by (induction rule: paired.induct) (auto intro: sem_reach.intros)

text \<open>A permit is in flight between the decrement and the return, and before the increment.\<close>

definition in_flight :: "pc \<Rightarrow> bool" where
  "in_flight p \<longleftrightarrow> p \<in> {AcqUnlock, RelLock, RelInc}"

lemma move_number:
  assumes inv: "locks_inv s" "queue_inv s" and fin: "finite {k. pcs s k \<noteq> Outside}"
    and P: "\<not> P Outside" "P Blocked = P Runnable" and mv: "move ctx_of i a s = Some t"
  shows "number P (pcs t) + (if P (pcs s i) then 1 else 0) = number P (pcs s) + (if P (pcs t i) then 1 else 0)"
proof (cases "pcs s i = RelNotify \<and> blocked s \<noteq> []")
  case True
  then obtain j js where b: "blocked s = j # js" by (cases "blocked s") auto
  have j: "pcs s j = Blocked" "i \<noteq> j" using notify_blocked [OF inv, of i j] True b by auto
  define f where "f = (pcs s)(j := Runnable)"
  have "pcs t = f(i := RelUnlockCond)"
    using True b mv by (auto simp: f_def step_defs effect_simps schedule_from_this_def
        split: action.splits if_splits)
  moreover have "finite {k. f k \<noteq> Outside}" "f i = pcs s i"
    using j unfolding f_def by (intro finite_upd fin, simp)
  moreover have "number P f = number P (pcs s)"
    using number_upd [of "pcs s" P j Runnable, OF fin P(1)] j P(2) by (simp add: f_def)
  ultimately show ?thesis using number_upd [of f P i RelUnlockCond] P(1) by simp
next
  case False
  then have "pcs t = (pcs s)(i := pcs t i)"
    using mv by (cases a; cases "pcs s i")
      (auto simp: step_defs effect_simps schedule_from_this_def split: if_splits list.splits)
  then show ?thesis using number_upd [of "pcs s" P i "pcs t i", OF fin P(1)] by metis
qed

lemma go_account:
  "move ctx_of i Go s = Some t \<Longrightarrow>
     taken t + given s + (if in_flight (pcs s i) then 1 else 0) =
     taken s + given t + (if in_flight (pcs t i) then 1 else 0) + (if pcs s i = AcqUnlock then 1 else 0)"
  "move ctx_of i Go s = Some t \<Longrightarrow> pcs s i \<noteq> Outside"
  "move ctx_of i Go s = Some t \<Longrightarrow> pcs s i = AcqUnlock \<Longrightarrow> pcs t i = Outside"
  "move ctx_of i Go s = Some t \<Longrightarrow> pcs s k = Outside \<Longrightarrow> k \<notin> set (blocked s) \<Longrightarrow> pcs t k = Outside"
  by (cases "pcs s i"; auto simp: step_defs effect_simps schedule_from_this_def in_flight_def
      split: if_splits list.splits)+

definition pair_inv :: "sem \<Rightarrow> nat set \<Rightarrow> bool" where
  "pair_inv s A \<longleftrightarrow> finite A \<and> (\<forall>i \<in> A. pcs s i = Outside) \<and>
     taken s = given s + card A + number in_flight (pcs s)"

lemma paired_inv: "paired ctx_of n s A \<Longrightarrow> pair_inv s A"
proof (induction rule: paired.induct)
  case pair_start
  show ?case by (simp add: pair_inv_def new_sem_def number_def in_flight_def)
next
  case (pair_aquire s A i t)
  have inv: "locks_inv s" "queue_inv s" "finite {k. pcs s k \<noteq> Outside}"
    using sem_reach_inv [OF paired_reach [OF pair_aquire.hyps(1)]] by (auto simp: permits_inv_def)
  have t: "t = goto i AcqLock s" "pcs s i = Outside"
    using pair_aquire.hyps(3) by (auto simp: move_def split: if_splits)
  have "number in_flight (pcs t) = number in_flight (pcs s)"
    using move_number [OF inv _ _ pair_aquire.hyps(3), of in_flight] t
    by (simp add: in_flight_def effect_simps)
  with pair_aquire t show ?case by (auto simp: pair_inv_def effect_simps)
next
  case (pair_release s A i t)
  have inv: "locks_inv s" "queue_inv s" "finite {k. pcs s k \<noteq> Outside}"
    using sem_reach_inv [OF paired_reach [OF pair_release.hyps(1)]] by (auto simp: permits_inv_def)
  have t: "t = goto i RelLock s" "pcs s i = Outside"
    using pair_release.hyps(3) by (auto simp: move_def split: if_splits)
  have "number in_flight (pcs t) = Suc (number in_flight (pcs s))"
    using move_number [OF inv _ _ pair_release.hyps(3), of in_flight] t
    by (simp add: in_flight_def effect_simps)
  moreover have "card A > 0" using pair_release by (auto simp: pair_inv_def card_gt_0_iff)
  ultimately show ?case using pair_release t by (auto simp: pair_inv_def effect_simps)
next
  case (pair_go s A i t)
  have inv: "locks_inv s" "queue_inv s" "finite {k. pcs s k \<noteq> Outside}"
    using sem_reach_inv [OF paired_reach [OF pair_go.hyps(1)]] by (auto simp: permits_inv_def)
  note acc = go_account [OF pair_go.hyps(2)]
  have num: "number in_flight (pcs t) + (if in_flight (pcs s i) then 1 else 0)
      = number in_flight (pcs s) + (if in_flight (pcs t i) then 1 else 0)"
    by (rule move_number [OF inv _ _ pair_go.hyps(2)]) (auto simp: in_flight_def)
  have out: "pcs t k = Outside" if "k \<in> A" for k
  proof -
    have "pcs s k = Outside" using that pair_go.IH by (simp add: pair_inv_def)
    moreover from this have "k \<notin> set (blocked s)" using inv(2) by (auto simp: queue_inv_def in_queue_def)
    ultimately show ?thesis by (rule acc(4))
  qed
  have "i \<notin> A" using pair_go.IH acc(2) by (auto simp: pair_inv_def)
  with pair_go.IH acc(1,3) num out show ?case by (auto simp: pair_inv_def)
qed

section \<open>Properties\<close>

lemmas run_defs = move_def continue_def lock_sem_def lock_cond_def unlock_sem_def unlock_cond_def
  spin_try_def cas_weak_def spin_unlock_def test_vacant_def schedule_from_this_def goto_def
  new_sem_def Let_def

text \<open>Task 0 takes the only permit of a mutex; task 1 then blocks.\<close>

abbreviation contended :: sem where
  "contended \<equiv> moves (\<lambda>_. 0) ((0, Aquire) # replicate 3 (0, Go) @ (1, Aquire) # replicate 6 (1, Go)) (new_sem 1)"

lemma contended_reach: "sem_reach (\<lambda>_. 0) 1 contended"
  by (intro moves_reach sem_start)

lemma contended_eval:
  "pcs contended 0 = Outside" "pcs contended 1 = Blocked" "blocked contended = [1]"
  "vacant contended = 0" "k \<noteq> 0 \<Longrightarrow> k \<noteq> 1 \<Longrightarrow> pcs contended k = Outside"
  by (simp_all add: run_defs numeral_eq_Suc)

text \<open>
  C2: No lost wake-up: in every reachable state of the semaphore, under every interleaving,
  if tasks wait and permits are available, then some task is on its way to test \<open>_vacant\<close>
  again, or a \<open>release\<close> has still to notify.
\<close>

theorem no_lost_wakeup:
  assumes "sem_reach ctx_of n s" "blocked s \<noteq> []" "vacant s > 0"
  shows "\<exists>k. will_retry (pcs s k)"
proof (rule ccontr)
  assume "\<not> ?thesis"
  then have "number will_retry (pcs s) = 0" by (simp add: number_def)
  with sem_reach_inv [OF assms(1)] assms(2,3) show False by (simp add: permits_inv_def)
qed

theorem no_lost_wakeup_witness:
  "\<exists>k. will_retry (pcs (moves (\<lambda>_. 0) [(0, Release), (0, Go), (0, Go)] contended) k)"
proof (rule no_lost_wakeup)
  show "sem_reach (\<lambda>_. 0) 1 (moves (\<lambda>_. 0) [(0, Release), (0, Go), (0, Go)] contended)"
    by (intro moves_reach contended_reach)
qed (simp_all add: run_defs numeral_eq_Suc)

text \<open>
  C22: The operations cannot deadlock each other, and waiting is never in vain: in a reachable
  state in which no task can go on by itself, both spinlocks are free, every task is outside
  the operations or blocked in \<open>aquire\<close>, and tasks are blocked only if no permit is left.
\<close>

theorem quiescent_states:
  assumes "sem_reach ctx_of n s" "\<And>i. move ctx_of i Go s = None"
  shows "\<not> sem_locked s \<and> \<not> cond_locked s \<and> (\<forall>i. pcs s i = Outside \<or> pcs s i = Blocked) \<and>
    (blocked s = [] \<or> vacant s = 0)"
proof -
  note inv = sem_reach_inv [OF assms(1)]
  have free: "\<not> sem_locked s \<and> \<not> cond_locked s" using inv assms(2) stuck_unlocked by blast
  have pts: "pcs s i = Outside \<or> pcs s i = Blocked" for i
    using stuck_points [OF assms(2), of i] free by blast
  then have "number will_retry (pcs s) = 0"
    by (auto simp: number_def will_retry_def card_eq_0_iff) (metis pc.distinct)+
  with inv free pts show ?thesis by (auto simp: permits_inv_def)
qed

theorem quiescent_states_witness:
  "\<not> sem_locked contended \<and> blocked contended = [1] \<and> vacant contended = 0"
proof -
  have "move (\<lambda>_. 0) i Go contended = None" for i
    using contended_eval(1,2) contended_eval(5) [of i]
    by (cases "i = 0"; cases "i = 1") (simp_all add: move_def continue_def)
  from quiescent_states [OF contended_reach this] contended_eval(3) show ?thesis by simp
qed

text \<open>
  Mutual exclusion of the critical sections: two tasks at points that hold the
  semaphore's spinlock, or the condition's, are the same task, and the flag is set.
\<close>

theorem lock_exclusion:
  assumes "sem_reach ctx_of n s"
  shows "(holds_sem (pcs s i) \<longrightarrow> sem_locked s \<and> (holds_sem (pcs s j) \<longrightarrow> i = j)) \<and>
    (holds_cond (pcs s i) \<longrightarrow> cond_locked s \<and> (holds_cond (pcs s j) \<longrightarrow> i = j))"
  using sem_reach_inv [OF assms] excl_flag excl_unique unfolding locks_inv_def by metis

theorem lock_exclusion_witness:
  "sem_locked (moves (\<lambda>_. 0) [(0, Release), (0, Go)] contended)"
proof -
  have "sem_reach (\<lambda>_. 0) 1 (moves (\<lambda>_. 0) [(0, Release), (0, Go)] contended)"
    by (intro moves_reach contended_reach)
  from lock_exclusion [OF this, of 0 0] show ?thesis
    by (simp add: run_defs numeral_eq_Suc holds_sem_def)
qed

text \<open>
  C26: At most as many tasks hold a permit as the semaphore was created with, when every
  \<open>release\<close> follows the task's own \<open>aquire\<close>; with one permit, \<open>Mutex::lock\<close> and
  \<open>Mutex::unlock\<close> exclude each other's holders.
\<close>

theorem permits_bound_holders:
  assumes "paired ctx_of n s A"
  shows "finite A \<and> card A \<le> n"
  using paired_inv [OF assms] sem_reach_inv [OF paired_reach [OF assms]]
  by (auto simp: pair_inv_def permits_inv_def)

theorem permits_bound_holders_witness:
  "\<exists>s. paired (\<lambda>_. 0) 1 s {0} \<and> card {0 :: nat} \<le> 1"
proof -
  let ?ctx = "\<lambda>_. 0 :: nat"
  let ?m = "\<lambda>k. moves ?ctx ((0, Aquire) # replicate k (0, Go)) (new_sem 1)"
  have "paired ?ctx 1 (?m 0) {}"
    by (rule pair_aquire [OF pair_start, of 0]) (simp_all add: run_defs)
  then have "paired ?ctx 1 (?m 1) (if pcs (?m 0) 0 = AcqUnlock then insert 0 {} else {})"
    by (rule pair_go) (simp add: run_defs numeral_eq_Suc)
  then have "paired ?ctx 1 (?m 1) {}" by (simp add: run_defs)
  then have "paired ?ctx 1 (?m 2) (if pcs (?m 1) 0 = AcqUnlock then insert 0 {} else {})"
    by (rule pair_go) (simp add: run_defs numeral_eq_Suc)
  then have "paired ?ctx 1 (?m 2) {}" by (simp add: run_defs)
  then have "paired ?ctx 1 (?m 3) (if pcs (?m 2) 0 = AcqUnlock then insert 0 {} else {})"
    by (rule pair_go) (simp add: run_defs numeral_eq_Suc)
  then have "paired ?ctx 1 (?m 3) {0}" by (simp add: run_defs numeral_eq_Suc)
  with permits_bound_holders [OF this] show ?thesis by blast
qed

end
