(* ===== verification/Mutexes.thy ===== *)
theory Mutexes
  imports Semaphores
begin

text \<open>
  \<open>Mutex\<close> (\<open>src/include/core/schedule.h\<close>), a semaphore of one permit, and what its users get: a
  section of several accesses to shared memory between \<open>lock\<close> and \<open>unlock\<close> is atomic. The
  interface is a locale over anything that has at most one holder at a time; it is
  interpreted on the interleaved semaphore, all steps of its two spinlocks included.
\<close>

section \<open>Mutex\<close>

definition new_mutex :: sem where
  "new_mutex = new_sem 1"

definition mutex_lock :: "(nat \<Rightarrow> nat) \<Rightarrow> nat \<Rightarrow> sem \<Rightarrow> sem option" where
  "mutex_lock ctx_of i s = move ctx_of i Aquire s"

definition mutex_unlock :: "(nat \<Rightarrow> nat) \<Rightarrow> nat \<Rightarrow> sem \<Rightarrow> sem option" where
  "mutex_unlock ctx_of i s = move ctx_of i Release s"

text \<open>
  One step of task \<open>i\<close> on the mutex, together with the set of tasks that hold it: those whose call
  of \<open>lock\<close> has returned and that have not called \<open>unlock\<close> since.
\<close>

inductive mutex_step :: "(nat \<Rightarrow> nat) \<Rightarrow> nat \<Rightarrow> sem \<times> nat set \<Rightarrow> sem \<times> nat set \<Rightarrow> bool" for ctx_of i where
  step_lock: "i \<notin> A \<Longrightarrow> mutex_lock ctx_of i s = Some t \<Longrightarrow> mutex_step ctx_of i (s, A) (t, A)"
| step_unlock: "i \<in> A \<Longrightarrow> mutex_unlock ctx_of i s = Some t \<Longrightarrow> mutex_step ctx_of i (s, A) (t, A - {i})"
| step_go: "move ctx_of i Go s = Some t \<Longrightarrow>
    mutex_step ctx_of i (s, A) (t, if pcs s i = AcqUnlock then insert i A else A)"

inductive_simps mutex_step_iff: "mutex_step ctx_of i (s, A) (t, B)"

section \<open>What exclusion gives\<close>

text \<open>
  \<open>step i\<close> is a step of task \<open>i\<close>; a task enters and leaves the holders only by its own steps, and no
  reachable state has two holders.
\<close>

locale exclusion =
  fixes start :: 's and step :: "nat \<Rightarrow> 's \<Rightarrow> 's \<Rightarrow> bool" and holders :: "'s \<Rightarrow> nat set" and reach :: "'s \<Rightarrow> bool"
  assumes reach_start: "reach start"
    and reach_step: "reach s \<Longrightarrow> step i s t \<Longrightarrow> reach t"
    and one_holder: "reach s \<Longrightarrow> i \<in> holders s \<Longrightarrow> j \<in> holders s \<Longrightarrow> i = j"
    and others_hold: "reach s \<Longrightarrow> step i s t \<Longrightarrow> j \<noteq> i \<Longrightarrow> j \<in> holders t \<longleftrightarrow> j \<in> holders s"
begin

text \<open>
  The users: a holder reads the shared variable into a local one, and later writes what it
  computed from it; it leaves only when it has written. \<open>log\<close> records the functions applied.
\<close>

inductive uses :: "'d \<Rightarrow> 's \<Rightarrow> (nat \<Rightarrow> 'd option) \<Rightarrow> 'd \<Rightarrow> ('d \<Rightarrow> 'd) list \<Rightarrow> bool" for d where
  use_start: "holders start = {} \<Longrightarrow> uses d start (\<lambda>_. None) d []"
| use_step: "uses d s l x fs \<Longrightarrow> step i s t \<Longrightarrow> (i \<in> holders s \<Longrightarrow> l i = None) \<Longrightarrow> uses d t l x fs"
| use_read: "uses d s l x fs \<Longrightarrow> i \<in> holders s \<Longrightarrow> l i = None \<Longrightarrow> uses d s (l(i := Some x)) x fs"
| use_write: "uses d s l x fs \<Longrightarrow> i \<in> holders s \<Longrightarrow> l i = Some v \<Longrightarrow> uses d s (l(i := None)) (f v) (f # fs)"

lemma uses_atomic:
  "uses d s l x fs \<Longrightarrow> reach s \<and> (\<forall>i v. l i = Some v \<longrightarrow> i \<in> holders s \<and> v = x) \<and> x = foldr id fs d"
proof (induction rule: uses.induct)
  case use_start
  then show ?case by (simp add: reach_start)
next
  case (use_step s l x fs i t)
  have "j \<in> holders t" if "l j = Some v" for j v
    using use_step others_hold [of s i t j] that by (cases "j = i") auto
  with use_step reach_step show ?case by blast
next
  case (use_read s l x fs i)
  then show ?case by (auto split: if_splits)
next
  case (use_write s l x fs i v f)
  then have "l j = None" if "j \<noteq> i" for j using one_holder that by (cases "l j") auto
  with use_write show ?case by auto
qed

end

section \<open>The mutex excludes\<close>

definition mutex_reach :: "(nat \<Rightarrow> nat) \<Rightarrow> sem \<times> nat set \<Rightarrow> bool" where
  "mutex_reach ctx_of p \<longleftrightarrow> paired ctx_of 1 (fst p) (snd p)"

interpretation mutex: exclusion "(new_mutex, {})" "mutex_step ctx_of" snd "mutex_reach ctx_of" for ctx_of
proof (unfold_locales, goal_cases)
  case 1
  show ?case using pair_start [of ctx_of 1] by (simp add: mutex_reach_def new_mutex_def)
next
  case (2 s i t)
  then show ?case
    by (cases s; cases t)
      (auto simp: mutex_reach_def mutex_step_iff mutex_lock_def mutex_unlock_def intro: pair_aquire pair_release dest: pair_go)
next
  case (3 s i j)
  from 3(1) have "pair_inv (fst s) (snd s)" "permits_inv 1 (fst s)"
    using paired_inv sem_reach_inv [OF paired_reach] by (auto simp: mutex_reach_def)
  then have "finite (snd s)" "card (snd s) \<le> 1" by (auto simp: pair_inv_def permits_inv_def)
  with 3(2,3) show ?case by (auto dest: card_le_Suc0_iff_eq [THEN iffD1])
next
  case (4 s i t j)
  then show ?case by (cases s; cases t) (auto simp: mutex_step_iff split: if_splits)
qed

text \<open>The users of the interface, on the mutex.\<close>

definition mutex_users ::
    "(nat \<Rightarrow> nat) \<Rightarrow> 'd \<Rightarrow> sem \<times> nat set \<Rightarrow> (nat \<Rightarrow> 'd option) \<Rightarrow> 'd \<Rightarrow> ('d \<Rightarrow> 'd) list \<Rightarrow> bool" where
  "mutex_users ctx_of d = mutex.uses ctx_of d"

text \<open>
  C27: A mutex makes what its users do atomic: any number of tasks lock, read a shared variable,
  write back a function of what they read, and unlock, with every access to the two spinlocks, the
  queue and the variable interleaved in any way; the variable always holds the result of applying
  those functions one after another, so no update is lost, and a value that a task has read is
  still the current one when it writes.
\<close>

theorem mutex_makes_updates_atomic:
  assumes "mutex_users ctx_of d (s, A) l x fs"
  shows "x = foldr id fs d \<and> (\<forall>i v. l i = Some v \<longrightarrow> v = x \<and> A = {i})"
  using mutex.uses_atomic [OF assms [unfolded mutex_users_def]] mutex.one_holder by fastforce

text \<open>One task locks, reads 5, writes 6 and unlocks.\<close>

theorem mutex_makes_updates_atomic_witness:
  "\<exists>s. mutex_users (\<lambda>_. 0) 5 (s, {0}) (\<lambda>_. None) 6 [Suc] \<and> 6 = foldr id [Suc] 5"
proof -
  let ?ctx = "\<lambda>_. 0 :: nat"
  let ?m = "\<lambda>k. moves ?ctx ((0, Aquire) # replicate k (0, Go)) (new_sem 1)"
  let ?u = "mutex.uses ?ctx (5 :: nat)"
  have u: "?u (?m 0, {}) (\<lambda>_. None) 5 []"
    by (rule mutex.use_step [OF mutex.use_start, of _ 0])
      (simp_all add: mutex_step_iff mutex_lock_def new_mutex_def run_defs)
  have "?u (?m 1, {}) (\<lambda>_. None) 5 []"
    by (rule mutex.use_step [OF u, of 0]) (simp_all add: mutex_step_iff run_defs numeral_eq_Suc)
  then have "?u (?m 2, {}) (\<lambda>_. None) 5 []"
    by (rule mutex.use_step [of _ _ _ _ _ _ 0]) (simp_all add: mutex_step_iff run_defs numeral_eq_Suc)
  then have h: "?u (?m 3, {0}) (\<lambda>_. None) 5 []"
    by (rule mutex.use_step [of _ _ _ _ _ _ 0]) (simp_all add: mutex_step_iff run_defs numeral_eq_Suc)
  have "?u (?m 3, {0}) ((\<lambda>_. None)(0 := Some 5)) 5 []" by (rule mutex.use_read [OF h]) simp_all
  from mutex.use_write [OF this, of 0 5 Suc] have "?u (?m 3, {0}) (\<lambda>_. None) 6 [Suc]" by simp
  with mutex_makes_updates_atomic [OF this [folded mutex_users_def]] show ?thesis unfolding mutex_users_def by blast
qed

end
