(* ===== verification/Linked.thy ===== *)
theory Linked
  imports Prelude
begin

text \<open>
  \<open>BaseLinked<T>\<close> of \<open>src/include/core/coroutine.h\<close>: the intrusive doubly linked list
  under every queue of the library (runnable tasks of a scheduler, blocked tasks of a
  condition, waiting messages of a channel) and under the call stack of a coroutine.
  The nodes' \<open>_prev\<close> and \<open>_next\<close> fields are two functions from node addresses to
  optional addresses; each operation is the code's sequence of reads and writes. The
  abstract view of a queue between two sentinels is the list of its elements.
\<close>

section \<open>The operations\<close>

record 'a links =
  prv :: "'a \<Rightarrow> 'a option"
  nxt :: "'a \<Rightarrow> 'a option"

definition no_links :: "'a links" where
  "no_links = \<lparr>prv = (\<lambda>_. None), nxt = (\<lambda>_. None)\<rparr>"

definition set_prv :: "'a \<Rightarrow> 'a option \<Rightarrow> 'a links \<Rightarrow> 'a links" where
  "set_prv a v h = h\<lparr>prv := (prv h)(a := v)\<rparr>"

definition set_nxt :: "'a \<Rightarrow> 'a option \<Rightarrow> 'a links \<Rightarrow> 'a links" where
  "set_nxt a v h = h\<lparr>nxt := (nxt h)(a := v)\<rparr>"

text \<open>\<open>front\<close> and \<open>back\<close>: the neighbour before and after.\<close>

definition front_of :: "'a \<Rightarrow> 'a links \<Rightarrow> 'a option" where
  "front_of a h = prv h a"

definition back_of :: "'a \<Rightarrow> 'a links \<Rightarrow> 'a option" where
  "back_of a h = nxt h a"

definition link_back :: "'a \<Rightarrow> 'a \<Rightarrow> 'a links \<Rightarrow> 'a links" where
  "link_back a bx h =
     (let old_next = nxt h a;
          h1 = set_nxt a (Some bx) h;
          h2 = set_nxt bx old_next h1;
          h3 = set_prv bx (Some a) h2
      in case old_next of None \<Rightarrow> h3 | Some n \<Rightarrow> set_prv n (Some bx) h3)"

definition link_front :: "'a \<Rightarrow> 'a \<Rightarrow> 'a links \<Rightarrow> 'a links" where
  "link_front a bx h =
     (let old_prev = prv h a;
          h1 = set_prv a (Some bx) h;
          h2 = set_prv bx old_prev h1;
          h3 = set_nxt bx (Some a) h2
      in case old_prev of None \<Rightarrow> h3 | Some p \<Rightarrow> set_nxt p (Some bx) h3)"

definition unlink_this :: "'a \<Rightarrow> 'a links \<Rightarrow> bool \<times> 'a links" where
  "unlink_this a h =
     (let old_prev = prv h a;
          old_next = nxt h a;
          h1 = (case old_prev of None \<Rightarrow> h | Some p \<Rightarrow> set_nxt p old_next h);
          h2 = (case old_next of None \<Rightarrow> h1 | Some n \<Rightarrow> set_prv n old_prev h1);
          ok = (prv h2 a \<noteq> None \<or> nxt h2 a \<noteq> None)
      in (ok, set_prv a None (set_nxt a None h2)))"

definition unlink_back :: "'a \<Rightarrow> 'a links \<Rightarrow> 'a option \<times> 'a links" where
  "unlink_back a h =
     (case nxt h a of
        None \<Rightarrow> (None, h)
      | Some x \<Rightarrow>
          let new_next = nxt h x;
              h1 = set_nxt a new_next h;
              h2 = (case new_next of None \<Rightarrow> h1 | Some n \<Rightarrow> set_prv n (Some a) h1)
          in (Some x, set_prv x None (set_nxt x None h2)))"

definition unlink_front :: "'a \<Rightarrow> 'a links \<Rightarrow> 'a option \<times> 'a links" where
  "unlink_front a h =
     (case prv h a of
        None \<Rightarrow> (None, h)
      | Some x \<Rightarrow>
          let new_prev = prv h x;
              h1 = set_prv a new_prev h;
              h2 = (case new_prev of None \<Rightarrow> h1 | Some p \<Rightarrow> set_nxt p (Some a) h1)
          in (Some x, set_prv x None (set_nxt x None h2)))"

lemma node_reads [node_simps, simp]:
  "prv (set_prv a v h) b = (if b = a then v else prv h b)"
  "nxt (set_prv a v h) b = nxt h b"
  "prv (set_nxt a v h) b = prv h b"
  "nxt (set_nxt a v h) b = (if b = a then v else nxt h b)"
  "prv no_links b = None"
  "nxt no_links b = None"
  by (simp_all add: set_prv_def set_nxt_def no_links_def)

lemma links_ext: "(\<And>a. prv h a = prv g a) \<Longrightarrow> (\<And>a. nxt h a = nxt g a) \<Longrightarrow> h = (g :: 'a links)"
  by (cases h, cases g) auto

section \<open>Segments and queues\<close>

text \<open>
  \<open>seg h p xs n\<close>: the nodes \<open>xs\<close> are linked to each other in this order, the first
  one's \<open>_prev\<close> is \<open>p\<close> and the last one's \<open>_next\<close> is \<open>n\<close>. A whole list has null
  pointers at both ends; a queue is a list between its two sentinels.
\<close>

fun seg :: "'a links \<Rightarrow> 'a option \<Rightarrow> 'a list \<Rightarrow> 'a option \<Rightarrow> bool" where
  "seg h p [] n = True"
| "seg h p (x # xs) n = (prv h x = p \<and> nxt h x = first_or xs n \<and> seg h (Some x) xs n)"

definition dll :: "'a links \<Rightarrow> 'a list \<Rightarrow> bool" where
  "dll h xs \<longleftrightarrow> distinct xs \<and> seg h None xs None"

definition is_queue :: "'a \<Rightarrow> 'a \<Rightarrow> 'a links \<Rightarrow> 'a list \<Rightarrow> bool" where
  "is_queue H T h q \<longleftrightarrow> dll h (H # q @ [T])"

definition unlinked :: "'a links \<Rightarrow> 'a \<Rightarrow> bool" where
  "unlinked h x \<longleftrightarrow> prv h x = None \<and> nxt h x = None"

lemma seg_append [simp]:
  "seg h p (xs @ ys) n \<longleftrightarrow> seg h p xs (first_or ys n) \<and> seg h (last_or p xs) ys n"
  by (induction xs arbitrary: p) auto

lemma seg_frame:
  "(\<And>x. x \<in> set xs \<Longrightarrow> prv g x = prv h x \<and> nxt g x = nxt h x) \<Longrightarrow> seg g p xs n = seg h p xs n"
  by (induction xs arbitrary: p) auto

lemma seg_set_prv [simp]: "x \<notin> set xs \<Longrightarrow> seg (set_prv x v h) p xs n = seg h p xs n"
  by (rule seg_frame) auto

lemma seg_set_nxt [simp]: "x \<notin> set xs \<Longrightarrow> seg (set_nxt x v h) p xs n = seg h p xs n"
  by (rule seg_frame) auto

lemma is_queueE:
  assumes "is_queue H T h q"
  obtains "H \<noteq> T" "H \<notin> set q" "T \<notin> set q" "distinct q"
    "seg h None (H # q) (Some T)" "prv h T = last_or (Some H) q" "nxt h T = None"
  using assms by (auto simp: is_queue_def dll_def)

text \<open>A queue with no element: the two sentinels point at each other.\<close>

lemma is_queue_init:
  "H \<noteq> T \<Longrightarrow> unlinked h H \<Longrightarrow> unlinked h T \<Longrightarrow> is_queue H T (link_back H T h) []"
  by (simp add: is_queue_def dll_def link_back_def unlinked_def)

lemma seg_ends:
  "seg h p (xs @ [x]) n \<Longrightarrow> nxt h x = n"
  by simp

text \<open>Appending: linking in front of the tail sentinel.\<close>

lemma is_queue_link_front:
  assumes q: "is_queue H T h q" and x: "x \<notin> set q" "x \<noteq> H" "x \<noteq> T"
  shows "is_queue H T (link_front T x h) (q @ [x])"
proof -
  obtain ys l where yl: "H # q = ys @ [l]" by (metis list.distinct(1) rev_exhaust)
  from q have d: "distinct (ys @ [l])" "T \<notin> set (ys @ [l])"
    using yl by (auto simp: is_queue_def dll_def simp flip: yl)
  from q have s: "seg h None (ys @ [l] @ [T]) None"
    by (simp only: is_queue_def dll_def append_assoc [symmetric] yl [symmetric]) simp
  have pT: "prv h T = Some l" using s by simp
  have xs: "x \<notin> set (ys @ [l])" using x yl by (metis set_ConsD)
  have "seg (link_front T x h) None (ys @ [l] @ [x] @ [T]) None"
    using s d xs x by (auto simp: link_front_def pT Let_def)
  moreover have whole: "H # (q @ [x]) @ [T] = ys @ [l] @ [x] @ [T]" using yl by simp
  moreover have "distinct (ys @ [l] @ [x] @ [T])" using d xs x by auto
  ultimately show ?thesis unfolding is_queue_def dll_def whole by blast
qed

text \<open>Removing a node from anywhere in the queue.\<close>

lemma is_queue_unlink_this:
  assumes q: "is_queue H T h q" and x: "x \<in> set q"
  shows "is_queue H T (snd (unlink_this x h)) (remove1 x q)" and "fst (unlink_this x h)"
    and "unlinked (snd (unlink_this x h)) x"
proof -
  from q have d: "distinct q" "H \<noteq> T" "H \<notin> set q" "T \<notin> set q"
    by (auto elim: is_queueE)
  from x d(1) obtain ys zs where q': "q = ys @ x # zs" "x \<notin> set ys" "x \<notin> set zs"
    by (rule split_distinct)
  obtain us p where up: "H # ys = us @ [p]" by (metis list.distinct(1) rev_exhaust)
  obtain n vs where nv: "zs @ [T] = n # vs" by (cases "zs @ [T]") auto
  have whole: "H # q @ [T] = us @ [p] @ [x] @ [n] @ vs" using q' up nv by simp
  have rest: "H # remove1 x q @ [T] = us @ [p] @ [n] @ vs" using q' up nv by simp
  have s: "seg h None (us @ [p] @ [x] @ [n] @ vs) None" and dd: "distinct (us @ [p] @ [x] @ [n] @ vs)"
    using q unfolding is_queue_def dll_def whole by auto
  have "seg (snd (unlink_this x h)) None (us @ [p] @ [n] @ vs) None"
    using s dd by (auto simp: unlink_this_def Let_def)
  then show "is_queue H T (snd (unlink_this x h)) (remove1 x q)"
    unfolding is_queue_def dll_def rest using dd by auto
  show "fst (unlink_this x h)" "unlinked (snd (unlink_this x h)) x"
    using s dd by (auto simp: unlink_this_def unlinked_def Let_def)
qed

text \<open>Taking the first element: \<open>unlink_back\<close> on the head sentinel.\<close>

lemma unlink_back_is_unlink_this:
  assumes "nxt h a = Some x" "prv h x = Some a" "a \<noteq> x" "nxt h x \<noteq> Some x" "nxt h x \<noteq> Some a"
  shows "unlink_back a h = (Some x, snd (unlink_this x h))"
  using assms by (auto simp: unlink_back_def unlink_this_def Let_def split: option.splits)

lemma is_queue_unlink_back:
  assumes q: "is_queue H T h (x # q)"
  shows "fst (unlink_back H h) = Some x" and "is_queue H T (snd (unlink_back H h)) q"
    and "unlinked (snd (unlink_back H h)) x"
proof -
  have "unlink_back H h = (Some x, snd (unlink_this x h))"
    using q by (cases q)
      (auto intro!: unlink_back_is_unlink_this simp: is_queue_def dll_def)
  then show "fst (unlink_back H h) = Some x" "is_queue H T (snd (unlink_back H h)) q"
    "unlinked (snd (unlink_back H h)) x"
    using is_queue_unlink_this [OF q, of x] by auto
qed

text \<open>The emptiness test of every loop: \<open>head.back() == &tail\<close>.\<close>

lemma is_queue_back_of:
  "is_queue H T h q \<Longrightarrow> back_of H h = Some (if q = [] then T else hd q)"
  by (cases q) (auto simp: is_queue_def dll_def back_of_def)

lemma is_queue_empty_iff:
  "is_queue H T h q \<Longrightarrow> back_of H h = Some T \<longleftrightarrow> q = []"
  by (cases q) (auto simp: is_queue_def dll_def back_of_def)

text \<open>A node in no list: unlinking it again changes nothing and reports so.\<close>

lemma unlink_this_unlinked:
  "unlinked h x \<Longrightarrow> unlink_this x h = (False, h)"
  by (auto simp: unlink_this_def unlinked_def intro: links_ext)

text \<open>Frames: an operation touches its own node and its neighbours only.\<close>

lemma is_queue_frame:
  assumes "is_queue H T h q"
    and "\<And>y. y \<in> {H, T} \<union> set q \<Longrightarrow> prv g y = prv h y \<and> nxt g y = nxt h y"
  shows "is_queue H T g q"
  using assms seg_frame [of "H # q @ [T]" g h None None]
  by (simp add: is_queue_def dll_def)

lemma is_queue_neighbours:
  assumes "is_queue H T h q" "x \<in> set q"
  shows "\<exists>p n. prv h x = Some p \<and> nxt h x = Some n \<and> p \<in> insert H (set q) \<and> n \<in> insert T (set q)"
proof -
  from assms have "distinct q" by (auto elim: is_queueE)
  with assms(2) obtain ys zs where q: "q = ys @ x # zs" by (meson split_list)
  from assms(1) have s: "seg h None (H # ys @ x # zs @ [T]) None"
    by (simp add: is_queue_def dll_def q)
  then have "prv h x = last_or (Some H) ys" "nxt h x = first_or zs (Some T)" by auto
  then show ?thesis unfolding q by (cases ys rule: rev_cases; cases zs) auto
qed

lemma link_front_other:
  assumes "is_queue H T h q" "y \<notin> set q" "y \<noteq> H" "y \<noteq> T" "y \<noteq> x"
  shows "prv (link_front T x h) y = prv h y" "nxt (link_front T x h) y = nxt h y"
proof -
  have "prv h T = Some (last (H # q))" using assms(1) by (auto elim!: is_queueE simp: last_or_def)
  moreover have "last (H # q) \<noteq> y" using assms(2,3) last_in_set [of "H # q"] by auto
  ultimately show "prv (link_front T x h) y = prv h y" "nxt (link_front T x h) y = nxt h y"
    using assms by (auto simp: link_front_def)
qed

lemma unlink_this_other:
  assumes "is_queue H T h q" "x \<in> set q" "y \<notin> set q" "y \<noteq> H" "y \<noteq> T"
  shows "prv (snd (unlink_this x h)) y = prv h y" "nxt (snd (unlink_this x h)) y = nxt h y"
  using is_queue_neighbours [OF assms(1,2)] assms by (auto simp: unlink_this_def Let_def)

text \<open>The same list used as a stack: its last node is the top.\<close>

lemma dll_link_back_last:
  "dll h (xs @ [a]) \<Longrightarrow> b \<notin> set xs \<Longrightarrow> b \<noteq> a \<Longrightarrow> dll (link_back a b h) (xs @ [a, b])"
  by (auto simp: dll_def link_back_def Let_def)

lemma dll_unlink_back_last:
  "dll h (xs @ [a, b]) \<Longrightarrow> unlink_back a h = (Some b, set_prv b None (set_nxt b None (set_nxt a None h)))"
  "dll h (xs @ [a, b]) \<Longrightarrow> dll (snd (unlink_back a h)) (xs @ [a])"
  by (auto simp: dll_def unlink_back_def Let_def)

lemma dll_last: "dll h (xs @ [b]) \<Longrightarrow> front_of b h = last_or None xs \<and> back_of b h = None"
  by (simp add: dll_def front_of_def back_of_def)

lemma dll_frame:
  "dll h xs \<Longrightarrow> (\<And>y. y \<in> set xs \<Longrightarrow> prv g y = prv h y \<and> nxt g y = nxt h y) \<Longrightarrow> dll g xs"
  using seg_frame [of xs g h None None] by (simp add: dll_def)

section \<open>The queue interface\<close>

text \<open>
  What the schedulers, conditions and channels rely on: a representation of the contents
  as a list, nodes that are in no list, and push at the back, pop at the front and removal
  from anywhere, with their effect on that list.
\<close>

locale intrusive_queue =
  fixes rep :: "'s \<Rightarrow> 'a list \<Rightarrow> bool"
    and loose :: "'s \<Rightarrow> 'a \<Rightarrow> bool"
    and push :: "'a \<Rightarrow> 's \<Rightarrow> 's"
    and pop :: "'s \<Rightarrow> 'a option \<times> 's"
    and drop_node :: "'a \<Rightarrow> 's \<Rightarrow> 's"
  assumes rep_push: "rep s q \<Longrightarrow> loose s x \<Longrightarrow> rep (push x s) (q @ [x])"
    and loose_push: "rep s q \<Longrightarrow> loose s x \<Longrightarrow> loose s y \<Longrightarrow> y \<noteq> x \<Longrightarrow> loose (push x s) y"
    and pop_Nil: "rep s [] \<Longrightarrow> pop s = (None, s)"
    and pop_Cons: "rep s (x # q) \<Longrightarrow> fst (pop s) = Some x \<and> rep (snd (pop s)) q \<and> loose (snd (pop s)) x"
    and rep_drop: "rep s q \<Longrightarrow> x \<in> set q \<Longrightarrow> rep (drop_node x s) (remove1 x q) \<and> loose (drop_node x s) x"
    and drop_loose: "loose s x \<Longrightarrow> drop_node x s = s"
begin

lemma rep_pushes:
  "rep s q \<Longrightarrow> distinct xs \<Longrightarrow> (\<And>x. x \<in> set xs \<Longrightarrow> loose s x) \<Longrightarrow> rep (fold push xs s) (q @ xs)"
proof (induction xs arbitrary: s q)
  case Nil
  then show ?case by simp
next
  case (Cons x xs)
  have "rep (fold push xs (push x s)) ((q @ [x]) @ xs)"
    using Cons.prems by (intro Cons.IH) (auto intro: rep_push loose_push)
  then show ?case by simp
qed

lemma pops_rep:
  "rep s q \<Longrightarrow> fst (pops n pop s) = take n q \<and> rep (snd (pops n pop s)) (drop n q)"
proof (induction n arbitrary: s q)
  case 0
  then show ?case by simp
next
  case (Suc n)
  show ?case
  proof (cases q)
    case Nil
    with Suc.prems show ?thesis by (simp add: pop_Nil)
  next
    case (Cons x q')
    with Suc.prems obtain s' where "pop s = (Some x, s')" "rep s' q'"
      using pop_Cons [of s x q'] by (metis prod.collapse)
    with Cons Suc.IH [of s' q'] show ?thesis by (auto split: prod.splits)
  qed
qed

text \<open>First in, first out: what is pushed is popped in the order of the pushes.\<close>

lemma fifo:
  assumes "rep s q" "distinct xs" "\<And>x. x \<in> set xs \<Longrightarrow> loose s x"
  shows "fst (pops n pop (fold push xs s)) = take n (q @ xs)"
  using pops_rep [OF rep_pushes [OF assms]] by simp

text \<open>A removed element can be dropped again and pushed again.\<close>

lemma drop_twice:
  "rep s q \<Longrightarrow> x \<in> set q \<Longrightarrow> drop_node x (drop_node x s) = drop_node x s"
  using rep_drop drop_loose by blast

lemma drop_push:
  "rep s q \<Longrightarrow> x \<in> set q \<Longrightarrow> rep (push x (drop_node x s)) (remove1 x q @ [x])"
  using rep_drop rep_push by blast

end

section \<open>The code's queues provide it\<close>

text \<open>
  The sequences the classes run on their sentinels: link in front of the tail
  (\<open>Scheduler::push\<close>, \<open>_suspend_to_this\<close>), test \<open>head.back() == &tail\<close> and unlink behind the
  head (\<open>Scheduler::pop\<close>, \<open>_schedule_from_this\<close>), unlink a given node (\<open>_remove\<close>, \<open>drop\<close>).
\<close>

definition enqueue :: "'a \<Rightarrow> 'a \<Rightarrow> 'a links \<Rightarrow> 'a links" where
  "enqueue T x h = link_front T x h"

definition dequeue :: "'a \<Rightarrow> 'a \<Rightarrow> 'a links \<Rightarrow> 'a option \<times> 'a links" where
  "dequeue H T h = (if back_of H h = Some T then (None, h) else unlink_back H h)"

definition loose_node :: "'a \<Rightarrow> 'a \<Rightarrow> 'a links \<Rightarrow> 'a \<Rightarrow> bool" where
  "loose_node H T h x \<longleftrightarrow> unlinked h x \<and> x \<noteq> H \<and> x \<noteq> T"

lemma loose_not_queued:
  "is_queue H T h q \<Longrightarrow> loose_node H T h x \<Longrightarrow> x \<notin> set q"
  using is_queue_neighbours [of H T h q x] by (auto simp: loose_node_def unlinked_def)

lemma is_queue_dequeue:
  assumes "is_queue H T h (x # q)"
  shows "fst (dequeue H T h) = Some x \<and> is_queue H T (snd (dequeue H T h)) q
    \<and> loose_node H T (snd (dequeue H T h)) x"
proof -
  have "back_of H h \<noteq> Some T" using is_queue_empty_iff [OF assms] by simp
  moreover have "x \<noteq> H" "x \<noteq> T" using assms by (auto elim: is_queueE)
  ultimately show ?thesis
    using is_queue_unlink_back [OF assms] by (simp add: dequeue_def loose_node_def)
qed

interpretation lq: intrusive_queue "is_queue H T" "loose_node H T" "enqueue T" "dequeue H T"
  "\<lambda>x h. snd (unlink_this x h)" for H T :: 'a
proof unfold_locales
  fix s q x assume rep: "is_queue H T s q" and loose: "loose_node H T s x"
  then have x: "x \<notin> set q" "x \<noteq> H" "x \<noteq> T"
    using loose_not_queued [OF rep loose] by (auto simp: loose_node_def)
  with rep show "is_queue H T (enqueue T x s) (q @ [x])"
    by (simp add: enqueue_def is_queue_link_front)
  fix y assume "loose_node H T s y" "y \<noteq> x"
  with rep show "loose_node H T (enqueue T x s) y"
    using link_front_other [of H T s q y x] loose_not_queued [OF rep, of y]
    by (simp add: enqueue_def loose_node_def unlinked_def)
next
  fix s assume "is_queue H T s []"
  then show "dequeue H T s = (None, s)" by (simp add: dequeue_def is_queue_empty_iff)
next
  fix s x q assume "is_queue H T s (x # q)"
  then show "fst (dequeue H T s) = Some x \<and> is_queue H T (snd (dequeue H T s)) q
    \<and> loose_node H T (snd (dequeue H T s)) x"
    by (rule is_queue_dequeue)
next
  fix s q x assume rep: "is_queue H T s q" "x \<in> set q"
  then show "is_queue H T (snd (unlink_this x s)) (remove1 x q)
    \<and> loose_node H T (snd (unlink_this x s)) x"
    by (auto simp: loose_node_def is_queue_unlink_this elim: is_queueE)
next
  fix s x assume "loose_node H T s x"
  then show "snd (unlink_this x s) = s"
    by (simp add: unlink_this_unlinked loose_node_def)
qed

section \<open>Properties\<close>

text \<open>
  Two linked sentinels are a first-in first-out queue: when distinct unlinked nodes are
  linked in front of the tail one after the other, the emptiness test and
  \<open>unlink_back\<close> on the head return exactly these nodes, in the same order, and then report
  an empty queue.
\<close>

theorem linked_queue_fifo:
  assumes "H \<noteq> T" "unlinked h H" "unlinked h T" "distinct xs"
    and "\<And>x. x \<in> set xs \<Longrightarrow> loose_node H T (link_back H T h) x"
  shows "fst (pops n (dequeue H T) (fold (enqueue T) xs (link_back H T h))) = take n xs"
  using lq.fifo [OF is_queue_init [OF assms(1-3)] assms(4), of n] assms(5) by simp

theorem linked_queue_fifo_witness:
  "fst (pops 5 (dequeue 20 30) (fold (enqueue (30::nat)) [7, 4, 9] (link_back 20 30 no_links))) = [7, 4, 9]"
proof -
  have "fst (pops 5 (dequeue 20 30) (fold (enqueue (30::nat)) [7, 4, 9] (link_back 20 30 no_links)))
    = take 5 [7, 4, 9]"
    by (rule linked_queue_fifo) (auto simp: unlinked_def loose_node_def link_back_def)
  then show ?thesis by simp
qed

text \<open>
  Removing a node from the middle of a queue keeps the order of the others and leaves the
  node unlinked, so that a second removal (\<open>BaseMsg::drop\<close> after delivery) changes nothing
  and reports that there was nothing to unlink.
\<close>

theorem unlink_keeps_order_and_is_idempotent:
  assumes "is_queue H T h q" "x \<in> set q"
  shows "is_queue H T (snd (unlink_this x h)) (remove1 x q) \<and> fst (unlink_this x h) \<and>
    unlink_this x (snd (unlink_this x h)) = (False, snd (unlink_this x h))"
  using is_queue_unlink_this [OF assms] by (auto simp: unlink_this_unlinked)

theorem unlink_keeps_order_and_is_idempotent_witness:
  "is_queue 20 30 (snd (unlink_this 4 (fold (enqueue (30::nat)) [7, 4, 9] (link_back 20 30 no_links)))) [7, 9]"
proof -
  have "is_queue 20 30 (link_back 20 30 no_links) ([] :: nat list)"
    by (rule is_queue_init) (auto simp: unlinked_def)
  then have "is_queue 20 30 (fold (enqueue (30::nat)) [7, 4, 9] (link_back 20 30 no_links)) ([] @ [7, 4, 9])"
    by (rule lq.rep_pushes) (auto simp: unlinked_def loose_node_def link_back_def)
  then show ?thesis
    using unlink_keeps_order_and_is_idempotent [of 20 30 _ "[7, 4, 9]" "4::nat"] by simp
qed

end
