(* ===== verification/CallStack.thy ===== *)
theory CallStack
  imports Linked "HOL-Library.Monad_Syntax"
begin

text \<open>
  Coroutine frames and their call stack: \<open>BaseFrame\<close>, \<open>BasePromise\<close>, \<open>Coroutine<T>\<close> and
  \<open>FrameOperator\<close> (\<open>src/include/core/coroutine.h\<close>, \<open>src/core/coroutine.cpp\<close>). A coroutine
  body, which is the user's code, is a tree of what it does between two suspensions.
  The promises of a chain of nested \<open>co_await\<close>s are linked by their \<open>BaseLinked\<close> fields
  into a stack; \<open>FrameOperator::resume\<close> drives it from the innermost frame. The theory ends
  with the equivalence of that machine with direct evaluation of the nested bodies, and with
  what happens to a body that catches an exception.
\<close>

section \<open>Coroutine bodies\<close>

text \<open>
  What a body does next: finish with a value (\<open>co_return\<close>), let an exception escape, suspend
  at a leaf (\<open>co_await std::suspend_always\<close>) after some action (the label: what it told the
  scheduler before suspending), or await another coroutine and go on with what
  \<open>await_resume\<close> hands it, an exception (\<open>Inl\<close>) or a value (\<open>Inr\<close>).
\<close>

datatype ('a, 'e, 'v) body =
    Return 'v
  | Throw 'e
  | Leaf 'a "('a, 'e, 'v) body"
  | Await "('a, 'e, 'v) body" "'e + 'v \<Rightarrow> ('a, 'e, 'v) body"

text \<open>
  The state behind a coroutine handle: suspended before running \<open>b\<close>, initially or after an
  action, suspended in a
  \<open>co_await\<close> of the callee with a given promise, at its final suspend point, or destroyed.
\<close>

datatype ('a, 'e, 'v) frame =
    Ready "'a option" "('a, 'e, 'v) body"
  | Waiting nat "'e + 'v \<Rightarrow> ('a, 'e, 'v) body"
  | Finished
  | Destroyed

text \<open>
  The heap of promises. A promise and the frame it lives in have one address;
  \<open>cs_entry\<close>, \<open>cs_current\<close>, \<open>cs_error\<close> and \<open>cs_value\<close> are the fields \<open>_entry\<close>,
  \<open>_current\<close>, \<open>_error\<close> and \<open>_value\<close>; \<open>cs_next\<close> is the next free address.
\<close>

record ('a, 'e, 'v) store =
  cs_links :: "nat links"
  cs_frame :: "nat \<Rightarrow> ('a, 'e, 'v) frame"
  cs_value :: "nat \<Rightarrow> 'v"
  cs_error :: "nat \<Rightarrow> 'e option"
  cs_entry :: "nat \<Rightarrow> nat option"
  cs_current :: "nat \<Rightarrow> nat option"
  cs_next :: nat

text \<open>An empty heap; \<open>_value\<close> is value-initialised (\<open>T _value = {}\<close>), here zero.\<close>

definition empty_store :: "('a, 'e, 'v::zero) store" where
  "empty_store = \<lparr>cs_links = no_links, cs_frame = (\<lambda>_. Destroyed), cs_value = (\<lambda>_. 0),
     cs_error = (\<lambda>_. None), cs_entry = (\<lambda>_. None), cs_current = (\<lambda>_. None), cs_next = 0\<rparr>"

text \<open>
  Calling a coroutine function: \<open>promise_type\<close> is default-initialised, \<open>initial_suspend\<close>
  suspends before the first statement, \<open>get_return_object\<close> wraps the handle.
\<close>

definition new_coroutine :: "('a, 'e, 'v::zero) body \<Rightarrow> ('a, 'e, 'v) store \<Rightarrow> nat \<times> ('a, 'e, 'v) store" where
  "new_coroutine b s =
     (let p = cs_next s
      in (p, s\<lparr>cs_links := set_prv p None (set_nxt p None (cs_links s)),
               cs_frame := (cs_frame s)(p := Ready None b), cs_value := (cs_value s)(p := 0),
               cs_error := (cs_error s)(p := None), cs_entry := (cs_entry s)(p := None),
               cs_current := (cs_current s)(p := None), cs_next := Suc p\<rparr>))"

section \<open>The call stack\<close>

text \<open>Reading through a null pointer has no defined result: the operation is \<open>None\<close>.\<close>

definition call_stack_create :: "nat \<Rightarrow> ('a, 'e, 'v) store \<Rightarrow> ('a, 'e, 'v) store" where
  "call_stack_create p s =
     s\<lparr>cs_entry := (cs_entry s)(p := Some p), cs_current := (cs_current s)(p := Some p)\<rparr>"

definition call_stack_push :: "nat \<Rightarrow> nat \<Rightarrow> ('a, 'e, 'v) store \<Rightarrow> ('a, 'e, 'v) store option" where
  "call_stack_push self callee s = do {
     e \<leftarrow> cs_entry s self;
     caller \<leftarrow> cs_current s e;
     let s1 = s\<lparr>cs_links := link_back caller callee (cs_links s)\<rparr>;
     let s2 = s1\<lparr>cs_entry := (cs_entry s1)(callee := Some e)\<rparr>;
     Some (s2\<lparr>cs_current := (cs_current s2)(e := Some callee)\<rparr>)
   }"

definition call_stack_pop :: "nat \<Rightarrow> ('a, 'e, 'v) store \<Rightarrow> (nat option \<times> ('a, 'e, 'v) store) option" where
  "call_stack_pop self s = do {
     e \<leftarrow> cs_entry s self;
     current \<leftarrow> cs_current s e;
     let nx = front_of current (cs_links s);
     let s1 = (case nx of None \<Rightarrow> s
               | Some n \<Rightarrow> s\<lparr>cs_links := snd (unlink_back n (cs_links s))\<rparr>);
     Some (nx, s1\<lparr>cs_current := (cs_current s1)(e := nx)\<rparr>)
   }"

section \<open>Running a frame\<close>

text \<open>\<open>await_resume\<close>: rethrow the callee's error, or move its value out.\<close>

definition await_resume :: "nat \<Rightarrow> ('a, 'e, 'v) store \<Rightarrow> 'e + 'v" where
  "await_resume q s = (case cs_error s q of Some ex \<Rightarrow> Inl ex | None \<Rightarrow> Inr (cs_value s q))"

text \<open>
  The body of \<open>p\<close> runs to its next suspension: \<open>return_value\<close> and \<open>unhandled_exception\<close>
  write the promise and reach the final suspend point; awaiting a coroutine creates it,
  finds it not done (\<open>await_ready\<close>) and pushes it (\<open>await_suspend\<close>).
\<close>

definition run_body :: "nat \<Rightarrow> ('a, 'e, 'v::zero) body \<Rightarrow> ('a, 'e, 'v) store \<Rightarrow> ('a, 'e, 'v) store option" where
  "run_body p b s =
     (case b of
        Return v \<Rightarrow> Some (s\<lparr>cs_value := (cs_value s)(p := v), cs_frame := (cs_frame s)(p := Finished)\<rparr>)
      | Throw ex \<Rightarrow> Some (s\<lparr>cs_error := (cs_error s)(p := Some ex), cs_frame := (cs_frame s)(p := Finished)\<rparr>)
      | Leaf a k \<Rightarrow> Some (s\<lparr>cs_frame := (cs_frame s)(p := Ready (Some a) k)\<rparr>)
      | Await c k \<Rightarrow>
          (let (q, s1) = new_coroutine c s;
               s2 = s1\<lparr>cs_frame := (cs_frame s1)(p := Waiting q k)\<rparr>
           in call_stack_push p q s2))"

text \<open>
  \<open>handler.resume()\<close>: a frame suspended in \<open>co_await\<close> first evaluates \<open>await_resume\<close>,
  after which the awaited coroutine, a temporary of that expression, is destroyed.
  Resuming a finished or destroyed frame has no defined result.
\<close>

definition resume_frame :: "nat \<Rightarrow> ('a, 'e, 'v::zero) store \<Rightarrow> ('a, 'e, 'v) store option" where
  "resume_frame p s =
     (case cs_frame s p of
        Ready l b \<Rightarrow> run_body p b s
      | Waiting q k \<Rightarrow>
          run_body p (k (await_resume q s)) (s\<lparr>cs_frame := (cs_frame s)(q := Destroyed)\<rparr>)
      | Finished \<Rightarrow> None
      | Destroyed \<Rightarrow> None)"

definition frame_done :: "nat \<Rightarrow> ('a, 'e, 'v) store \<Rightarrow> bool" where
  "frame_done p s = (case cs_frame s p of Finished \<Rightarrow> True | _ \<Rightarrow> False)"

section \<open>FrameOperator::resume\<close>

text \<open>One pass of the \<open>do\<close> loop: rethrow out of the loop, or the new value of \<open>next\<close>.\<close>

datatype 'e pass = Rethrow 'e | Next "nat option"

definition execute_pass ::
    "nat \<Rightarrow> nat \<Rightarrow> ('a, 'e, 'v::zero) store \<Rightarrow> ('e pass \<times> ('a, 'e, 'v) store) option" where
  "execute_pass e current s = do {
     s1 \<leftarrow> resume_frame current s;
     (case cs_error s1 current of
        Some ex \<Rightarrow> do {
          (nx, s2) \<leftarrow> call_stack_pop e s1;
          (case nx of
             None \<Rightarrow> Some (Rethrow ex, s2)
           | Some n \<Rightarrow> Some (Next (Some n),
               s2\<lparr>cs_error := (cs_error s2)(n := Some ex), cs_current := (cs_current s2)(e := Some n)\<rparr>))
        }
      | None \<Rightarrow>
          if frame_done current s1 then do {
            (nx, s2) \<leftarrow> call_stack_pop e s1;
            Some (Next nx, s2)
          } else Some (Next (cs_current s1 e), s1))
   }"

text \<open>The loop runs while there is a next frame and it is not the one just resumed.\<close>

partial_function (option) execute_loop ::
    "nat \<Rightarrow> nat \<Rightarrow> ('a, 'e, 'v::zero) store \<Rightarrow> ('e option \<times> ('a, 'e, 'v) store) option" where
  "execute_loop e current s =
     (case execute_pass e current s of
        None \<Rightarrow> None
      | Some (Rethrow ex, s') \<Rightarrow> Some (Some ex, s')
      | Some (Next None, s') \<Rightarrow> Some (None, s')
      | Some (Next (Some n), s') \<Rightarrow>
          (if current \<noteq> n then execute_loop e n s' else Some (None, s')))"

text \<open>The result: the exception that leaves \<open>resume\<close>, if any, and the heap.\<close>

definition call_stack_execute ::
    "nat \<Rightarrow> ('a, 'e, 'v::zero) store \<Rightarrow> ('e option \<times> ('a, 'e, 'v) store) option" where
  "call_stack_execute f s = do {
     e \<leftarrow> cs_entry s f;
     nx \<leftarrow> cs_current s e;
     execute_loop e nx s
   }"

text \<open>
  \<open>FrameOperator::destroy\<close>: every frame from the innermost to the entry is destroyed; the
  \<open>_prev\<close> field of a promise is read before its frame goes away.
\<close>

partial_function (option) destroy_loop ::
    "nat option \<Rightarrow> ('a, 'e, 'v) store \<Rightarrow> nat list \<Rightarrow> (nat list \<times> ('a, 'e, 'v) store) option" where
  "destroy_loop current s log =
     (case current of
        None \<Rightarrow> Some (log, s)
      | Some p \<Rightarrow>
          destroy_loop (front_of p (cs_links s))
            (s\<lparr>cs_frame := (cs_frame s)(p := Destroyed)\<rparr>) (log @ [p]))"

definition call_stack_destroy :: "nat \<Rightarrow> ('a, 'e, 'v) store \<Rightarrow> (nat list \<times> ('a, 'e, 'v) store) option" where
  "call_stack_destroy p s = do {
     e \<leftarrow> cs_entry s p;
     destroy_loop (cs_current s e) s []
   }"

section \<open>Direct evaluation\<close>

text \<open>
  What the nested bodies mean without a machine: run to the first leaf suspension, the
  value or the exception; a suspension inside a callee leaves the caller awaiting the rest
  of the callee.
\<close>

datatype ('a, 'e, 'v) outcome = Done 'v | Failed 'e | Suspended 'a "('a, 'e, 'v) body"

primrec run :: "('a, 'e, 'v) body \<Rightarrow> ('a, 'e, 'v) outcome" where
  "run (Return v) = Done v"
| "run (Throw ex) = Failed ex"
| "run (Leaf a k) = Suspended a k"
| "run (Await c k) =
     (case run c of
        Done v \<Rightarrow> run (k (Inr v))
      | Failed ex \<Rightarrow> run (k (Inl ex))
      | Suspended a c' \<Rightarrow> Suspended a (Await c' k))"

text \<open>Bodies that let every exception of an awaited coroutine escape, as it is or replaced.\<close>

primrec propagates :: "('a, 'e, 'v) body \<Rightarrow> bool" where
  "propagates (Return v) = True"
| "propagates (Throw ex) = True"
| "propagates (Leaf a k) = propagates k"
| "propagates (Await c k) =
     (propagates c \<and> (\<forall>ex. \<exists>ex'. k (Inl ex) = Throw ex') \<and> (\<forall>v. propagates (k (Inr v))))"

section \<open>Stacks of suspended callers\<close>

text \<open>
  \<open>st\<close> lists the callers above the current frame, innermost first, each with what it does
  after its \<open>co_await\<close>. \<open>plug\<close> is the body the whole stack amounts to.
\<close>

type_synonym ('a, 'e, 'v) konts = "(nat \<times> ('e + 'v \<Rightarrow> ('a, 'e, 'v) body)) list"

fun plug :: "('a, 'e, 'v) body \<Rightarrow> ('a, 'e, 'v) konts \<Rightarrow> ('a, 'e, 'v) body" where
  "plug b [] = b"
| "plug b ((p, k) # st) = plug (Await b k) st"

fun waiting_on :: "('a, 'e, 'v) store \<Rightarrow> nat \<Rightarrow> ('a, 'e, 'v) konts \<Rightarrow> bool" where
  "waiting_on s q [] = True"
| "waiting_on s q ((p, k) # st) = (cs_frame s p = Waiting q k \<and> waiting_on s p st)"

definition on_stack :: "('a, 'e, 'v) store \<Rightarrow> nat \<Rightarrow> nat \<Rightarrow> ('a, 'e, 'v) konts \<Rightarrow> bool" where
  "on_stack s e cur st \<longleftrightarrow>
     dll (cs_links s) (rev (map fst st) @ [cur]) \<and> e = last (cur # map fst st) \<and>
     cs_current s e = Some cur \<and>
     (\<forall>p \<in> set (cur # map fst st). cs_entry s p = Some e \<and> p < cs_next s) \<and>
     (\<forall>p \<in> set (map fst st). cs_error s p = None) \<and> waiting_on s cur st"

text \<open>What the frame \<open>p\<close> runs when it is resumed, with \<open>A\<close> the promises of the stack.\<close>

definition pending :: "('a, 'e, 'v) store \<Rightarrow> nat set \<Rightarrow> nat \<Rightarrow> ('a, 'e, 'v) body \<Rightarrow> bool" where
  "pending s A p b =
     (case cs_frame s p of
        Ready l b' \<Rightarrow> b = b'
      | Waiting q k \<Rightarrow> q \<notin> A \<and> b = k (await_resume q s)
      | _ \<Rightarrow> False)"

abbreviation members :: "nat \<Rightarrow> ('a, 'e, 'v) konts \<Rightarrow> nat set" where
  "members cur st \<equiv> insert cur (fst ` set st)"

lemma waiting_on_frame:
  "waiting_on s q st \<Longrightarrow> (\<And>p. p \<in> fst ` set st \<Longrightarrow> cs_frame t p = cs_frame s p) \<Longrightarrow> waiting_on t q st"
  by (induction st arbitrary: q) auto

lemma on_stack_frame:
  assumes "on_stack s e cur st" "cs_links t = cs_links s" "cs_current t e = cs_current s e"
    "cs_entry t = cs_entry s" "cs_next t = cs_next s"
    "\<And>p. p \<in> fst ` set st \<Longrightarrow> cs_frame t p = cs_frame s p \<and> cs_error t p = cs_error s p"
  shows "on_stack t e cur st"
  using assms waiting_on_frame [of s cur st t] unfolding on_stack_def by auto

lemma on_stack_distinct: "on_stack s e cur st \<Longrightarrow> cur \<notin> fst ` set st \<and> distinct (map fst st)"
  by (auto simp: on_stack_def dll_def)

lemma on_stack_entry:
  "on_stack s e cur st \<Longrightarrow> cs_entry s e = Some e \<and> cs_entry s cur = Some e \<and> cs_current s e = Some cur"
  using last_in_set [of "cur # map fst st"] by (auto simp: on_stack_def simp del: last.simps)

text \<open>Resuming: the callee of a finished \<open>co_await\<close> is destroyed, the stack is untouched.\<close>

lemma resume_pending:
  assumes "on_stack s e cur st" "pending s (members cur st) cur b"
  obtains s1 where "resume_frame cur s = run_body cur b s1" "on_stack s1 e cur st"
    "cs_error s1 = cs_error s" "cs_value s1 = cs_value s"
proof (cases "cs_frame s cur")
  case (Ready l b')
  with assms that [of s] show ?thesis by (simp add: resume_frame_def pending_def)
next
  case (Waiting q k)
  let ?s = "s\<lparr>cs_frame := (cs_frame s)(q := Destroyed)\<rparr>"
  from Waiting assms(2) have "q \<notin> members cur st" "b = k (await_resume q s)"
    by (auto simp: pending_def)
  moreover from this have "on_stack ?s e cur st"
    by (intro on_stack_frame [OF assms(1)]) auto
  ultimately show ?thesis using Waiting that [of ?s] by (simp add: resume_frame_def)
qed (use assms in \<open>auto simp: pending_def\<close>)

text \<open>Awaiting pushes the callee.\<close>

lemma run_body_Await:
  assumes "on_stack s e cur st" "cs_error s cur = None"
  obtains s' where "run_body cur (Await c k) s = Some s'" "on_stack s' e (cs_next s) ((cur, k) # st)"
    "cs_frame s' (cs_next s) = Ready None c" "cs_error s' (cs_next s) = None" "cs_error s' cur = None"
    "\<not> frame_done cur s'" "cs_current s' e = Some (cs_next s)" "cur \<noteq> cs_next s"
proof -
  let ?q = "cs_next s"
  let ?h = "set_prv ?q None (set_nxt ?q None (cs_links s))"
  have q: "?q \<notin> members cur st" using assms(1) by (auto simp: on_stack_def)
  have ent: "cs_entry s e = Some e" "cs_entry s cur = Some e" "cs_current s e = Some cur"
    using on_stack_entry [OF assms(1)] by auto
  have e: "e \<noteq> ?q" using q assms(1) last_in_set [of "cur # map fst st"]
    by (auto simp: on_stack_def simp del: last.simps)
  have d: "dll (cs_links s) (rev (map fst st) @ [cur])" using assms(1) by (simp add: on_stack_def)
  have "dll ?h (rev (map fst st) @ [cur])" using q by (intro dll_frame [OF d]) auto
  then have "dll (link_back cur ?q ?h) (rev (map fst st) @ [cur, ?q])"
    using q by (intro dll_link_back_last) auto
  moreover have "waiting_on s cur st" using assms(1) by (simp add: on_stack_def)
  moreover define s' where "s' = s\<lparr>cs_links := link_back cur ?q ?h,
      cs_frame := (cs_frame s)(?q := Ready None c, cur := Waiting ?q k), cs_value := (cs_value s)(?q := 0),
      cs_error := (cs_error s)(?q := None), cs_entry := (cs_entry s)(?q := Some e),
      cs_current := (cs_current s)(?q := None, e := Some ?q), cs_next := Suc ?q\<rparr>"
  moreover have "run_body cur (Await c k) s = Some s'"
    using ent e q by (simp add: s'_def run_body_def new_coroutine_def call_stack_push_def Let_def)
  moreover have "(?q, b) \<notin> set st" "(cur, b) \<notin> set st" for b
    using q on_stack_distinct [OF assms(1)] by force+
  ultimately show ?thesis
    using assms q ent e on_stack_distinct [OF assms(1)]
    by (intro that [of s'])
      (auto simp: frame_done_def on_stack_def less_Suc_eq intro!: waiting_on_frame [of s cur st])
qed

text \<open>Popping returns to the innermost caller, or empties the stack.\<close>

lemma call_stack_pop_caller:
  assumes "on_stack s e cur ((p, k) # st)"
  obtains s' where "call_stack_pop e s = Some (Some p, s')" "on_stack s' e p st"
    "cs_frame s' = cs_frame s" "cs_error s' = cs_error s" "cs_value s' = cs_value s"
proof -
  have d: "dll (cs_links s) (rev (map fst st) @ [p, cur])" using assms by (simp add: on_stack_def)
  let ?s = "s\<lparr>cs_links := snd (unlink_back p (cs_links s)), cs_current := (cs_current s)(e := Some p)\<rparr>"
  have "front_of cur (cs_links s) = Some p"
    using dll_last [of _ "rev (map fst st) @ [p]"] d by simp
  then have "call_stack_pop e s = Some (Some p, ?s)"
    using on_stack_entry [OF assms] by (simp add: call_stack_pop_def Let_def)
  moreover have "on_stack ?s e p st"
    using assms dll_unlink_back_last(2) [OF d]
    by (auto simp: on_stack_def intro!: waiting_on_frame [of s p st])
  ultimately show ?thesis by (intro that [of ?s]) auto
qed

lemma call_stack_pop_entry:
  assumes "on_stack s e cur []"
  shows "e = cur" "call_stack_pop e s = Some (None, s\<lparr>cs_current := (cs_current s)(e := None)\<rparr>)"
  using assms dll_last [of "cs_links s" "[]" cur]
  by (auto simp: on_stack_def call_stack_pop_def Let_def)

section \<open>The machine evaluates the bodies\<close>

text \<open>Passes of the loop that hand over to another frame.\<close>

lemma loop_next:
  "execute_pass e cur s = Some (Next (Some n), s') \<Longrightarrow> cur \<noteq> n
    \<Longrightarrow> execute_loop e cur s = execute_loop e n s'"
  by (simp add: execute_loop.simps [of e cur s])

lemma pass_Await:
  assumes "on_stack s e cur st" "cs_error s cur = None" "pending s (members cur st) cur (Await c k)"
  obtains q s' where "execute_loop e cur s = execute_loop e q s'" "on_stack s' e q ((cur, k) # st)"
    "cs_frame s' q = Ready None c" "cs_error s' q = None"
proof -
  obtain s1 where s1: "resume_frame cur s = run_body cur (Await c k) s1" "on_stack s1 e cur st"
    "cs_error s1 = cs_error s"
    using resume_pending [OF assms(1,3)] by metis
  obtain s' where s': "run_body cur (Await c k) s1 = Some s'" "on_stack s' e (cs_next s1) ((cur, k) # st)"
    "cs_frame s' (cs_next s1) = Ready None c" "cs_error s' (cs_next s1) = None" "cs_error s' cur = None"
    "\<not> frame_done cur s'" "cs_current s' e = Some (cs_next s1)" "cur \<noteq> cs_next s1"
    using run_body_Await [OF s1(2), of c k] assms(2) s1(3) by auto
  have "execute_pass e cur s = Some (Next (Some (cs_next s1)), s')"
    using s1(1) s' by (simp add: execute_pass_def)
  then show ?thesis using that s' loop_next by metis
qed

text \<open>A finished frame gives its value to its caller.\<close>

lemma pass_Return:
  assumes "on_stack s e cur ((p, k) # st)" "cs_error s cur = None"
    "pending s (members cur ((p, k) # st)) cur (Return v)"
  obtains s' where "execute_loop e cur s = execute_loop e p s'" "on_stack s' e p st"
    "cs_error s' p = None" "pending s' (members p st) p (k (Inr v))"
proof -
  obtain s1 where s1: "resume_frame cur s = run_body cur (Return v) s1" "on_stack s1 e cur ((p, k) # st)"
    "cs_error s1 = cs_error s"
    using resume_pending [OF assms(1,3)] by metis
  let ?s = "s1\<lparr>cs_value := (cs_value s1)(cur := v), cs_frame := (cs_frame s1)(cur := Finished)\<rparr>"
  have cur: "cur \<notin> members p st" using on_stack_distinct [OF assms(1)] by auto
  have "on_stack ?s e cur ((p, k) # st)" using cur by (intro on_stack_frame [OF s1(2)]) auto
  then obtain s' where s': "call_stack_pop e ?s = Some (Some p, s')" "on_stack s' e p st"
    "cs_frame s' = cs_frame ?s" "cs_error s' = cs_error ?s" "cs_value s' = cs_value ?s"
    by (rule call_stack_pop_caller)
  have fp: "cs_frame s1 p = Waiting cur k" "cs_error s1 p = None" "cs_error s1 cur = None"
    using s1 assms(2) by (auto simp: on_stack_def)
  have "execute_pass e cur s = Some (Next (Some p), s')"
    using s1(1) s'(1) fp by (simp add: execute_pass_def run_body_def frame_done_def)
  moreover have "pending s' (members p st) p (k (Inr v))"
    using s' fp cur by (simp add: pending_def await_resume_def)
  moreover have "cs_error s' p = None" "cur \<noteq> p" using s' fp cur by auto
  ultimately show ?thesis using that [of s'] s'(2) loop_next by blast
qed

text \<open>A failed frame marks its caller with the exception and resumes it with it.\<close>

lemma pass_Throw:
  assumes "on_stack s e cur ((p, k) # st)" "pending s (members cur ((p, k) # st)) cur (Throw ex)"
  obtains s' where "execute_loop e cur s = execute_loop e p s'" "on_stack s' e p st"
    "cs_error s' p = Some ex" "pending s' (members p st) p (k (Inl ex))"
proof -
  obtain s1 where s1: "resume_frame cur s = run_body cur (Throw ex) s1" "on_stack s1 e cur ((p, k) # st)"
    using resume_pending [OF assms] by metis
  let ?s = "s1\<lparr>cs_error := (cs_error s1)(cur := Some ex), cs_frame := (cs_frame s1)(cur := Finished)\<rparr>"
  have cur: "cur \<notin> members p st" using on_stack_distinct [OF assms(1)] by auto
  have "on_stack ?s e cur ((p, k) # st)" using cur by (intro on_stack_frame [OF s1(2)]) auto
  then obtain s2 where s2: "call_stack_pop e ?s = Some (Some p, s2)" "on_stack s2 e p st"
    "cs_frame s2 = cs_frame ?s" "cs_error s2 = cs_error ?s"
    by (rule call_stack_pop_caller)
  have fp: "cs_frame s1 p = Waiting cur k" using s1 by (auto simp: on_stack_def)
  let ?t = "s2\<lparr>cs_error := (cs_error s2)(p := Some ex), cs_current := (cs_current s2)(e := Some p)\<rparr>"
  have "execute_pass e cur s = Some (Next (Some p), ?t)"
    using s1(1) s2(1) by (simp add: execute_pass_def run_body_def)
  moreover have "on_stack ?t e p st"
    using s2(2) on_stack_distinct [OF s2(2)] on_stack_entry [OF s2(2)]
    by (intro on_stack_frame [OF s2(2)]) auto
  moreover have "pending ?t (members p st) p (k (Inl ex))"
    using s2 fp cur by (simp add: pending_def await_resume_def)
  moreover have "cs_error ?t p = Some ex" "cur \<noteq> p" using cur by auto
  ultimately show ?thesis using that [of ?t] loop_next by blast
qed

text \<open>Passes that end the call to \<open>resume\<close>.\<close>

lemma pass_Leaf:
  assumes "on_stack s e cur st" "cs_error s cur = None" "pending s (members cur st) cur (Leaf a b)"
  obtains s' where "execute_loop e cur s = Some (None, s')" "on_stack s' e cur st"
    "cs_error s' cur = None" "cs_frame s' cur = Ready (Some a) b"
proof -
  obtain s1 where s1: "resume_frame cur s = run_body cur (Leaf a b) s1" "on_stack s1 e cur st"
    "cs_error s1 = cs_error s"
    using resume_pending [OF assms(1,3)] by metis
  let ?s = "s1\<lparr>cs_frame := (cs_frame s1)(cur := Ready (Some a) b)\<rparr>"
  have "on_stack ?s e cur st"
    using on_stack_distinct [OF s1(2)] by (intro on_stack_frame [OF s1(2)]) auto
  moreover have "execute_loop e cur s = Some (None, ?s)"
    using s1(1,3) assms(2) on_stack_entry [OF s1(2)]
    by (simp add: execute_loop.simps [of e cur s] execute_pass_def run_body_def frame_done_def)
  ultimately show ?thesis using that [of ?s] s1(3) assms(2) by simp
qed

lemma pass_Return_entry:
  assumes "on_stack s e cur []" "cs_error s cur = None" "pending s {cur} cur (Return v)"
  shows "\<exists>s'. execute_loop e cur s = Some (None, s') \<and> frame_done e s' \<and> cs_value s' e = v"
proof -
  obtain s1 where s1: "resume_frame cur s = run_body cur (Return v) s1" "on_stack s1 e cur []"
    "cs_error s1 = cs_error s"
    using resume_pending [OF assms(1)] assms(3) by (metis image_empty list.set(1))
  let ?s = "s1\<lparr>cs_value := (cs_value s1)(cur := v), cs_frame := (cs_frame s1)(cur := Finished)\<rparr>"
  have "on_stack ?s e cur []" by (intro on_stack_frame [OF s1(2)]) auto
  from call_stack_pop_entry [OF this] show ?thesis
    using s1 assms(2)
    by (simp add: execute_loop.simps [of cur cur s] execute_pass_def run_body_def frame_done_def)
qed

lemma pass_Throw_entry:
  assumes "on_stack s e cur []" "pending s {cur} cur (Throw ex)"
  shows "\<exists>s'. execute_loop e cur s = Some (Some ex, s')"
proof -
  obtain s1 where s1: "resume_frame cur s = run_body cur (Throw ex) s1" "on_stack s1 e cur []"
    using resume_pending [OF assms(1)] assms(2) by (metis image_empty list.set(1))
  let ?s = "s1\<lparr>cs_error := (cs_error s1)(cur := Some ex), cs_frame := (cs_frame s1)(cur := Finished)\<rparr>"
  have "on_stack ?s e cur []" by (intro on_stack_frame [OF s1(2)]) auto
  from call_stack_pop_entry [OF this] show ?thesis
    using s1 by (simp add: execute_loop.simps [of cur cur s] execute_pass_def run_body_def)
qed

text \<open>
  The loop from the frame that runs \<open>b\<close>, by the outcome of \<open>b\<close>: either it reaches the next
  caller, or the call to \<open>resume\<close> ends.
\<close>

definition suspends_as :: "('a, 'e, 'v::zero) store \<Rightarrow> nat \<Rightarrow> nat \<Rightarrow> ('a, 'e, 'v) konts \<Rightarrow> 'a \<Rightarrow> ('a, 'e, 'v) body \<Rightarrow> bool" where
  "suspends_as s e cur st a b' \<longleftrightarrow>
     (\<exists>cur' st' s' b0. execute_loop e cur s = Some (None, s') \<and> on_stack s' e cur' (st' @ st) \<and>
        cs_error s' cur' = None \<and> cs_frame s' cur' = Ready (Some a) b0 \<and> plug b0 st' = b')"

definition hands_over :: "('a, 'e, 'v::zero) store \<Rightarrow> nat \<Rightarrow> nat \<Rightarrow> ('a, 'e, 'v) konts \<Rightarrow> 'e option \<Rightarrow> 'e + 'v \<Rightarrow> bool" where
  "hands_over s e cur st err r \<longleftrightarrow>
     (case st of
        [] \<Rightarrow> (case r of
                 Inl ex \<Rightarrow> \<exists>s'. execute_loop e cur s = Some (Some ex, s')
               | Inr v \<Rightarrow> \<exists>s'. execute_loop e cur s = Some (None, s') \<and> frame_done e s' \<and> cs_value s' e = v)
      | (p, k) # st' \<Rightarrow>
          \<exists>s'. execute_loop e cur s = execute_loop e p s' \<and> on_stack s' e p st' \<and>
            cs_error s' p = err \<and> pending s' (members p st') p (k r))"

lemma hands_over_Throw:
  assumes "on_stack s e cur st" "pending s (members cur st) cur (Throw ex)"
  shows "hands_over s e cur st (Some ex) (Inl ex)"
proof (cases st)
  case Nil
  with assms show ?thesis using pass_Throw_entry [of s e cur ex] by (simp add: hands_over_def)
next
  case (Cons pk st')
  obtain p k where pk: "pk = (p, k)" by force
  from assms Cons pk show ?thesis
    using pass_Throw [of s e cur p k st' ex] by (simp add: hands_over_def) metis
qed

lemma hands_over_Return:
  assumes "on_stack s e cur st" "cs_error s cur = None" "pending s (members cur st) cur (Return v)"
  shows "hands_over s e cur st None (Inr v)"
proof (cases st)
  case Nil
  with assms show ?thesis using pass_Return_entry [of s e cur v] by (simp add: hands_over_def)
next
  case (Cons pk st')
  obtain p k where pk: "pk = (p, k)" by force
  from assms Cons pk show ?thesis
    using pass_Return [of s e cur p k st' v] by (simp add: hands_over_def) metis
qed

lemma same_loop:
  assumes "execute_loop e cur s = execute_loop e cur' t"
  shows "hands_over s e cur st err r = hands_over t e cur' st err r"
    and "suspends_as s e cur st a b = suspends_as t e cur' st a b"
  unfolding hands_over_def suspends_as_def assms by (rule refl)+

lemma pending_Ready: "cs_frame s p = Ready l b \<Longrightarrow> pending s A p b"
  by (simp add: pending_def)

lemma execute_run:
  assumes "on_stack s e cur st" "cs_error s cur = None" "pending s (members cur st) cur b" "propagates b"
  shows "case run b of
      Done v \<Rightarrow> hands_over s e cur st None (Inr v)
    | Failed ex \<Rightarrow> hands_over s e cur st (Some ex) (Inl ex)
    | Suspended a b' \<Rightarrow> suspends_as s e cur st a b'"
  using assms
proof (induction b arbitrary: s cur st)
  case (Return v)
  then show ?case using hands_over_Return by simp
next
  case (Throw ex)
  then show ?case using hands_over_Throw by simp
next
  case (Leaf a b)
  from pass_Leaf [OF Leaf.prems(1-3)] show ?case
    by (simp add: suspends_as_def) (metis append_Nil plug.simps(1))
next
  case (Await c k)
  obtain q s1 where s1: "execute_loop e cur s = execute_loop e q s1" "on_stack s1 e q ((cur, k) # st)"
    "cs_frame s1 q = Ready None c" "cs_error s1 q = None"
    by (rule pass_Await [OF Await.prems(1-3)])
  have IHc: "case run c of
      Done v \<Rightarrow> hands_over s1 e q ((cur, k) # st) None (Inr v)
    | Failed ex \<Rightarrow> hands_over s1 e q ((cur, k) # st) (Some ex) (Inl ex)
    | Suspended a b' \<Rightarrow> suspends_as s1 e q ((cur, k) # st) a b'"
    using Await.prems(4) by (intro Await.IH(1) s1 pending_Ready [OF s1(3)]) simp
  show ?case
  proof (cases "run c")
    case (Done v)
    with IHc obtain s2 where s2: "execute_loop e q s1 = execute_loop e cur s2" "on_stack s2 e cur st"
      "cs_error s2 cur = None" "pending s2 (members cur st) cur (k (Inr v))"
      by (auto simp: hands_over_def)
    have "propagates (k (Inr v))" using Await.prems(4) by simp
    from Await.IH(2) [OF rangeI s2(2-4) this] show ?thesis
      using Done same_loop [of e cur s cur s2] s1(1) s2(1)
      by (cases "run (k (Inr v))") simp_all
  next
    case (Failed ex)
    with IHc obtain s2 where s2: "execute_loop e q s1 = execute_loop e cur s2" "on_stack s2 e cur st"
      "pending s2 (members cur st) cur (k (Inl ex))"
      by (auto simp: hands_over_def)
    from Await.prems(4) obtain ex' where "k (Inl ex) = Throw ex'" by fastforce
    with hands_over_Throw [of s2 e cur st ex'] s2 show ?thesis
      using Failed s1(1) same_loop(1) [of e cur s cur s2] by simp
  next
    case (Suspended a c')
    with IHc obtain cur' st' s' b0 where "execute_loop e q s1 = Some (None, s')"
      "on_stack s' e cur' (st' @ (cur, k) # st)" "cs_error s' cur' = None"
      "cs_frame s' cur' = Ready (Some a) b0" "plug b0 st' = c'"
      by (auto simp: suspends_as_def)
    moreover have "plug b0 (st' @ [(cur, k)]) = Await (plug b0 st') k" for b0
      by (induction st' arbitrary: b0) auto
    ultimately show ?thesis using Suspended s1(1)
      by (simp add: suspends_as_def) (metis append.assoc append_Cons append_Nil)
  qed
qed

section \<open>Whole stacks\<close>

text \<open>
  The coroutine with entry frame \<open>e\<close> is suspended, initially or after an action, and what is
  left of it is \<open>b\<close>.
\<close>

definition suspended_as :: "('a, 'e, 'v) store \<Rightarrow> nat \<Rightarrow> 'a option \<Rightarrow> ('a, 'e, 'v) body \<Rightarrow> bool" where
  "suspended_as s e l b \<longleftrightarrow>
     (\<exists>cur st b0. on_stack s e cur st \<and> cs_error s cur = None \<and> cs_frame s cur = Ready l b0 \<and> plug b0 st = b)"

definition finishes :: "('a, 'e, 'v) store \<Rightarrow> nat \<Rightarrow> ('e option \<times> ('a, 'e, 'v) store) option \<Rightarrow> ('a, 'e, 'v) outcome \<Rightarrow> bool" where
  "finishes s e r out \<longleftrightarrow>
     (case out of
        Done v \<Rightarrow> \<exists>s'. r = Some (None, s') \<and> frame_done e s' \<and> cs_value s' e = v
      | Failed ex \<Rightarrow> \<exists>s'. r = Some (Some ex, s')
      | Suspended a b' \<Rightarrow> \<exists>s'. r = Some (None, s') \<and> \<not> frame_done e s' \<and> suspended_as s' e (Some a) b')"

definition konts_propagate :: "('a, 'e, 'v) konts \<Rightarrow> bool" where
  "konts_propagate st \<longleftrightarrow>
     (\<forall>(p, k) \<in> set st. (\<forall>ex. \<exists>ex'. k (Inl ex) = Throw ex') \<and> (\<forall>v. propagates (k (Inr v))))"

lemma propagates_plug: "propagates (plug b st) \<longleftrightarrow> propagates b \<and> konts_propagate st"
  by (induction b st rule: plug.induct) (auto simp: konts_propagate_def)

lemma run_plug_cong: "run b1 = run b2 \<Longrightarrow> run (plug b1 st) = run (plug b2 st)"
proof (induction st arbitrary: b1 b2)
  case Nil
  then show ?case by simp
next
  case (Cons pk st)
  obtain p k where "pk = (p, k)" by force
  moreover have "run (Await b1 k) = run (Await b2 k)" for k using Cons.prems by simp
  ultimately show ?case using Cons.IH by simp
qed

lemma run_plug_suspended: "run b = Suspended a b' \<Longrightarrow> run (plug b st) = Suspended a (plug b' st)"
  by (induction b st arbitrary: b' rule: plug.induct) auto

lemma waiting_not_done: "waiting_on s q st \<Longrightarrow> p \<in> fst ` set st \<Longrightarrow> \<not> frame_done p s"
proof (induction st arbitrary: q)
  case (Cons x st)
  obtain p' k where "x = (p', k)" by force
  with Cons.prems Cons.IH [of p'] show ?case by (cases "p = p'") (auto simp: frame_done_def)
qed simp

lemma suspended_not_done:
  assumes "on_stack s e cur st" "cs_frame s cur = Ready l b"
  shows "\<not> frame_done e s"
proof (cases st)
  case Nil
  with assms show ?thesis by (simp add: on_stack_def frame_done_def)
next
  case Cons
  then have "last (cur # map fst st) \<in> set (map fst st)"
    by (metis last_ConsR last_in_set list.discI list.simps(9))
  with assms(1) have "e \<in> fst ` set st" "waiting_on s cur st" by (auto simp: on_stack_def)
  then show ?thesis by (intro waiting_not_done)
qed

lemma plug_append: "plug b (st @ st') = plug (plug b st) st'"
  by (induction b st rule: plug.induct) auto

lemma suspends_as_finishes:
  assumes "suspends_as s e cur st a b'"
  shows "finishes s e (execute_loop e cur s) (Suspended a (plug b' st))"
proof -
  from assms obtain cur' st' s' b0 where s': "execute_loop e cur s = Some (None, s')"
    "on_stack s' e cur' (st' @ st)" "cs_error s' cur' = None" "cs_frame s' cur' = Ready (Some a) b0" "plug b0 st' = b'"
    by (auto simp: suspends_as_def)
  then have "suspended_as s' e (Some a) (plug b' st)"
    unfolding suspended_as_def by (intro exI [of _ cur'] exI [of _ "st' @ st"]) (auto simp: plug_append)
  with s' suspended_not_done [OF s'(2,4)] show ?thesis by (simp add: finishes_def)
qed

lemma finishes_Throw:
  assumes "on_stack s e cur st" "pending s (members cur st) cur (Throw ex)" "konts_propagate st"
  shows "finishes s e (execute_loop e cur s) (run (plug (Throw ex) st))"
  using assms
proof (induction st arbitrary: s cur ex)
  case Nil
  then show ?case using hands_over_Throw [OF Nil.prems(1,2)] by (simp add: hands_over_def finishes_def)
next
  case (Cons pk st)
  obtain p k where pk: "pk = (p, k)" by force
  with hands_over_Throw [OF Cons.prems(1,2)] obtain s1 where
    s1: "execute_loop e cur s = execute_loop e p s1" "on_stack s1 e p st" "pending s1 (members p st) p (k (Inl ex))"
    by (auto simp: hands_over_def)
  from Cons.prems(3) pk obtain ex' where ex': "k (Inl ex) = Throw ex'"
    by (auto simp: konts_propagate_def) metis
  have "finishes s1 e (execute_loop e p s1) (run (plug (Throw ex') st))"
    using s1 ex' Cons.prems(3) by (intro Cons.IH) (auto simp: konts_propagate_def)
  moreover have "run (plug (Await (Throw ex) k) st) = run (plug (Throw ex') st)"
    using ex' by (intro run_plug_cong) simp
  ultimately show ?case using s1(1) pk by (simp add: finishes_def)
qed

lemma finishes_plug:
  assumes "on_stack s e cur st" "cs_error s cur = None" "pending s (members cur st) cur b"
    "propagates b" "konts_propagate st"
  shows "finishes s e (execute_loop e cur s) (run (plug b st))"
  using assms
proof (induction st arbitrary: s cur b)
  case Nil
  then show ?case using execute_run [OF Nil.prems(1-4)] suspends_as_finishes [of s e cur "[]"]
    by (cases "run b") (auto simp: hands_over_def finishes_def)
next
  case (Cons pk st)
  obtain p k where pk: "pk = (p, k)" by force
  note er = execute_run [OF Cons.prems(1-4)]
  show ?case
  proof (cases "run b")
    case (Done v)
    with er pk obtain s1 where
      s1: "execute_loop e cur s = execute_loop e p s1" "on_stack s1 e p st" "cs_error s1 p = None"
        "pending s1 (members p st) p (k (Inr v))"
      by (auto simp: hands_over_def)
    have "finishes s1 e (execute_loop e p s1) (run (plug (k (Inr v)) st))"
      using s1 Cons.prems(5) pk by (intro Cons.IH) (auto simp: konts_propagate_def)
    moreover have "run (plug (Await b k) st) = run (plug (k (Inr v)) st)"
      using Done by (intro run_plug_cong) simp
    ultimately show ?thesis using s1(1) pk by (simp add: finishes_def)
  next
    case (Failed ex)
    with er pk obtain s1 where
      s1: "execute_loop e cur s = execute_loop e p s1" "on_stack s1 e p st"
        "pending s1 (members p st) p (k (Inl ex))"
      by (auto simp: hands_over_def)
    from Cons.prems(5) pk obtain ex' where ex': "k (Inl ex) = Throw ex'"
      by (auto simp: konts_propagate_def) metis
    have "finishes s1 e (execute_loop e p s1) (run (plug (Throw ex') st))"
      using s1 Cons.prems(5) ex' by (intro finishes_Throw) (auto simp: konts_propagate_def)
    moreover have "run (plug (Await b k) st) = run (plug (Throw ex') st)"
      using Failed ex' by (intro run_plug_cong) simp
    ultimately show ?thesis using s1(1) pk by (simp add: finishes_def)
  next
    case (Suspended a b')
    then show ?thesis
      using er suspends_as_finishes run_plug_suspended [OF Suspended, of "pk # st"] by auto
  qed
qed

text \<open>A new coroutine, initialised as an entry, is suspended before its whole body.\<close>

lemma suspended_new:
  "new_coroutine b s = (p, s1) \<Longrightarrow> suspended_as (call_stack_create p s1) p None b"
  by (auto simp: new_coroutine_def call_stack_create_def suspended_as_def on_stack_def dll_def Let_def
      intro!: exI [of _ p] exI [of _ "[]"])

lemma run_propagates: "propagates b \<Longrightarrow> run b = Suspended a b' \<Longrightarrow> propagates b'"
proof (induction b arbitrary: b')
  case (Await c k)
  then show ?case
    by (auto split: outcome.splits) (metis outcome.distinct(5) propagates.simps(2) rangeI run.simps(2))
qed auto

section \<open>Properties\<close>

lemma resume_runs_body:
  assumes "suspended_as s e l b" "propagates b"
  shows "finishes s e (call_stack_execute e s) (run b)"
proof -
  from assms(1) obtain cur st b0 where
    st: "on_stack s e cur st" "cs_error s cur = None" "cs_frame s cur = Ready l b0" "plug b0 st = b"
    by (auto simp: suspended_as_def)
  have "finishes s e (execute_loop e cur s) (run (plug b0 st))"
    using assms(2) st by (intro finishes_plug pending_Ready) (auto simp: propagates_plug)
  with st on_stack_entry [OF st(1)] show ?thesis by (simp add: call_stack_execute_def)
qed

text \<open>
  C1: Resuming an entry coroutine evaluates the nested bodies directly: for any stack of
  suspended callers, as long as no body catches an exception of a coroutine it awaits, one
  call of \<open>FrameOperator::resume\<close> returns, and it either finishes the entry frame with the
  value of the composed program, throws the exception it ends with, or stops at its next leaf
  suspension with exactly the rest of it on the stack.
\<close>

theorem resume_evaluates:
  assumes "suspended_as s e l b" "propagates b"
  shows "finishes s e (call_stack_execute e s) (run b)"
  by (rule resume_runs_body [OF assms])

text \<open>The store in which the coroutine with body \<open>b\<close> is the entry, at address 0.\<close>

definition spawned :: "('a, 'e, 'v::zero) body \<Rightarrow> ('a, 'e, 'v) store" where
  "spawned b = call_stack_create 0 (snd (new_coroutine b empty_store))"

lemma spawned_fields: "cs_error (spawned b) 0 = None" "cs_frame (spawned b) 0 = Ready None b"
  by (simp_all add: spawned_def new_coroutine_def call_stack_create_def empty_store_def)

lemma suspended_spawned: "suspended_as (spawned b) 0 None b"
  unfolding spawned_def
  by (rule suspended_new [of _ empty_store]) (simp add: new_coroutine_def empty_store_def)

abbreviation add_one :: "'e + int \<Rightarrow> ('a, 'e, int) body" where
  "add_one r \<equiv> (case r of Inl ex \<Rightarrow> Throw ex | Inr v \<Rightarrow> Return (v + 1))"

theorem resume_evaluates_witness:
  "\<exists>s'. call_stack_execute 0 (spawned (Await (Await (Return 5) add_one) (add_one :: nat + int \<Rightarrow> (unit, nat, int) body))) = Some (None, s')
     \<and> frame_done 0 s' \<and> cs_value s' 0 = 7"
  using resume_evaluates [OF suspended_spawned [of "Await (Await (Return 5) add_one) (add_one :: nat + int \<Rightarrow> (unit, nat, int) body)"]]
  by (simp add: finishes_def)

lemma destroy_loop_stack:
  "dll (cs_links s) (rev (c # ps) @ rest) \<Longrightarrow>
   \<exists>s'. destroy_loop (Some c) s log = Some (log @ c # ps, s') \<and>
     (\<forall>p. cs_frame s' p = (if p \<in> set (c # ps) then Destroyed else cs_frame s p))"
proof (induction ps arbitrary: c s log rest)
  case Nil
  then have "front_of c (cs_links s) = None" by (simp add: dll_def front_of_def)
  then show ?case by (simp add: destroy_loop.simps)
next
  case (Cons p ps)
  let ?s = "s\<lparr>cs_frame := (cs_frame s)(c := Destroyed)\<rparr>"
  have "front_of c (cs_links s) = Some p" using Cons.prems by (simp add: dll_def front_of_def)
  moreover have "\<exists>s'. destroy_loop (Some p) ?s (log @ [c]) = Some ((log @ [c]) @ p # ps, s') \<and>
     (\<forall>x. cs_frame s' x = (if x \<in> set (p # ps) then Destroyed else cs_frame ?s x))"
    using Cons.prems by (intro Cons.IH [of _ p "[c] @ rest"]) simp
  ultimately show ?case by (auto simp: destroy_loop.simps [of "Some c" s log])
qed

text \<open>
  \<open>FrameOperator::destroy\<close> on a suspended coroutine destroys the frames of the whole
  stack, each exactly once, from the innermost callee to the entry.
\<close>

theorem destroy_frees_stack:
  assumes "on_stack s e cur st"
  shows "\<exists>s'. call_stack_destroy e s = Some (cur # map fst st, s') \<and> distinct (cur # map fst st) \<and>
    (\<forall>p. cs_frame s' p = (if p \<in> set (cur # map fst st) then Destroyed else cs_frame s p))"
proof -
  have "dll (cs_links s) (rev (cur # map fst st) @ [])"
    using assms by (simp add: on_stack_def)
  from destroy_loop_stack [OF this, of "[]"] show ?thesis
    using on_stack_entry [OF assms] on_stack_distinct [OF assms]
    by (simp add: call_stack_destroy_def image_iff)
qed

lemma on_stack_spawned: "on_stack (spawned b) 0 0 []"
  by (auto simp: spawned_def new_coroutine_def call_stack_create_def on_stack_def dll_def
      empty_store_def Let_def)

theorem destroy_frees_stack_witness:
  "\<exists>s'. call_stack_destroy 0 (spawned (Leaf () (Return (1::int)) :: (unit, nat, int) body)) = Some ([0], s')"
  using destroy_frees_stack [OF on_stack_spawned [of "Leaf () (Return (1::int)) :: (unit, nat, int) body"]] by auto

text \<open>
  A body that catches the exception of a coroutine it awaits and returns a value: direct
  evaluation gives that value, but \<open>resume\<close> throws the exception all the same, because
  \<open>_call_stack_execute\<close> has stored it in the caller's promise and reads it there again.
\<close>

theorem caught_exception_escapes:
  assumes "k (Inl ex) = Return v"
  shows "run (Await (Throw ex) k) = Done v \<and>
    (\<exists>s'. call_stack_execute 0 (spawned (Await (Throw ex) k)) = Some (Some ex, s') \<and> cs_value s' 0 = v)"
proof -
  let ?s = "spawned (Await (Throw ex) k)"
  obtain q s1 where s1: "execute_loop 0 0 ?s = execute_loop 0 q s1" "on_stack s1 0 q [(0, k)]"
    "cs_frame s1 q = Ready None (Throw ex)"
    by (rule pass_Await [OF on_stack_spawned, of "Await (Throw ex) k" "Throw ex" k])
      (auto simp: pending_def spawned_fields)
  obtain s2 where s2: "execute_loop 0 q s1 = execute_loop 0 0 s2" "on_stack s2 0 0 []"
    "cs_error s2 0 = Some ex" "pending s2 {0} 0 (Return v)"
    using pass_Throw [OF s1(2) pending_Ready [OF s1(3)]] assms by (metis image_empty list.set(1))
  obtain s3 where s3: "resume_frame 0 s2 = run_body 0 (Return v) s3" "on_stack s3 0 0 []"
    "cs_error s3 = cs_error s2"
    using resume_pending [OF s2(2)] s2(4) by (metis image_empty list.set(1))
  let ?t = "s3\<lparr>cs_value := (cs_value s3)(0 := v), cs_frame := (cs_frame s3)(0 := Finished)\<rparr>"
  have t: "on_stack ?t 0 0 []" by (intro on_stack_frame [OF s3(2)]) auto
  have "execute_loop 0 0 s2 = Some (Some ex, ?t\<lparr>cs_current := (cs_current ?t)(0 := None)\<rparr>)"
    using s3 s2(3) call_stack_pop_entry(2) [OF t]
    by (simp add: execute_loop.simps [of 0 0 s2] execute_pass_def run_body_def)
  then have "call_stack_execute 0 ?s = Some (Some ex, ?t\<lparr>cs_current := (cs_current ?t)(0 := None)\<rparr>)"
    using s1(1) s2(1) on_stack_entry [OF on_stack_spawned [of "Await (Throw ex) k"]]
    by (simp add: call_stack_execute_def)
  then show ?thesis using assms by simp
qed

theorem caught_exception_escapes_witness:
  "\<exists>s'. call_stack_execute 0 (spawned (Await (Throw (7::nat)) (\<lambda>r. Return (case r of Inl _ \<Rightarrow> 1 | Inr v \<Rightarrow> (v::int)))))
     = Some (Some 7, s')"
  using caught_exception_escapes [of "\<lambda>r. Return (case r of Inl _ \<Rightarrow> 1 | Inr v \<Rightarrow> (v::int))" "7::nat" 1] by auto

end
