(* ===== verification/Batch.thy ===== *)
theory Batch
  imports Prelude
begin

text \<open>
  The loop shared by \<open>SchedContext::run_scheduled\<close> and \<open>TimedContext::run_timeout\<close>: a worker
  takes up to a batch of items from its own partition, and if that runs dry before the batch
  is full it makes one pass over all partitions, starting with its own, taking one item from
  each. Taking an item and running it is a parameter: it may fail, and it reports whether
  there was an item.
\<close>

section \<open>The loops\<close>

text \<open>The first \<open>for\<close>: at most \<open>n\<close> items, stopping at the first miss.\<close>

fun own_loop :: "nat \<Rightarrow> ('s \<Rightarrow> 'x + (bool \<times> 's)) \<Rightarrow> 's \<Rightarrow> 'x + (nat \<times> 's)" where
  "own_loop 0 f s = Inr (0, s)"
| "own_loop (Suc n) f s =
     and_then (f s) (\<lambda>(ok, s').
       if ok then and_then (own_loop n f s') (\<lambda>(k, s''). Inr (Suc k, s'')) else Inr (0, s'))"

text \<open>The second \<open>for\<close>: one item from each partition of the list, until the batch is full.\<close>

fun steal_loop ::
    "nat list \<Rightarrow> nat \<Rightarrow> nat \<Rightarrow> (nat \<Rightarrow> 's \<Rightarrow> 'x + (bool \<times> 's)) \<Rightarrow> 's \<Rightarrow> 'x + (nat \<times> 's)" where
  "steal_loop [] batch cnt f s = Inr (cnt, s)"
| "steal_loop (i # is) batch cnt f s =
     and_then (f i s) (\<lambda>(ok, s').
       if ok then (if Suc cnt = batch then Inr (Suc cnt, s') else steal_loop is batch (Suc cnt) f s')
       else steal_loop is batch cnt f s')"

definition batch_loop ::
    "nat \<Rightarrow> nat \<Rightarrow> nat \<Rightarrow> (nat \<Rightarrow> 's \<Rightarrow> 'x + (bool \<times> 's)) \<Rightarrow> 's \<Rightarrow> 'x + (nat \<times> 's)" where
  "batch_loop n batch pindex f s =
     and_then (own_loop batch (f pindex) s) (\<lambda>(cnt, s').
       if cnt = batch then Inr (cnt, s')
       else steal_loop (map (\<lambda>i. pindex + i) [0..<n]) batch cnt f s')"

text \<open>A batch that misses at once.\<close>

lemma own_loop_empty: "0 < n \<Longrightarrow> f s = Inr (False, s') \<Longrightarrow> own_loop n f s = Inr (0, s')"
  by (cases n) simp_all

lemma steal_loop_empty: "(\<And>i. f i s = Inr (False, s)) \<Longrightarrow> steal_loop is batch cnt f s = Inr (cnt, s)"
  by (induction "is") simp_all

section \<open>What every instance has\<close>

text \<open>
  A source of items. A miss takes nothing: it changes the state only in ways that do not
  count, such as having read the clock (\<open>quiet\<close>, equality where a miss changes nothing).
\<close>

locale batch_source =
  fixes take_item :: "nat \<Rightarrow> 's \<Rightarrow> 'x + (bool \<times> 's)" and quiet :: "'s \<Rightarrow> 's \<Rightarrow> bool"
  assumes miss: "take_item i s = Inr (False, s') \<Longrightarrow> quiet s s'"
    and quiet_refl: "quiet s s"
    and quiet_trans: "quiet s t \<Longrightarrow> quiet t u \<Longrightarrow> quiet s u"
begin

lemma own_loop_le: "own_loop n (take_item p) s = Inr (k, s') \<Longrightarrow> k \<le> n"
  by (induction n arbitrary: s k s') (auto simp: and_then_Inr split: if_splits)

lemma steal_loop_le:
  "steal_loop is batch cnt take_item s = Inr (k, s') \<Longrightarrow> cnt < batch \<Longrightarrow> cnt \<le> k \<and> k \<le> batch"
proof (induction "is" arbitrary: cnt s)
  case Nil
  then show ?case by simp
next
  case (Cons i "is")
  then obtain ok s1 where
    "(if ok then (if Suc cnt = batch then Inr (Suc cnt, s1) else steal_loop is batch (Suc cnt) take_item s1)
      else steal_loop is batch cnt take_item s1) = Inr (k, s')"
    by (auto simp: and_then_Inr)
  with Cons.IH [of "Suc cnt" s1] Cons.IH [of cnt s1] Cons.prems(2) show ?case
    by (auto split: if_splits)
qed

text \<open>The number of items taken is within the batch.\<close>

lemma batch_le: "batch_loop n batch p take_item s = Inr (k, s') \<Longrightarrow> k \<le> batch"
  using own_loop_le steal_loop_le
  by (fastforce simp: batch_loop_def and_then_Inr split: if_splits dest: le_neq_implies_less)

text \<open>The first loop stops short of the batch only at a miss in the own partition.\<close>

lemma own_loop_miss:
  "own_loop n (take_item p) s = Inr (k, s') \<Longrightarrow> k < n \<Longrightarrow> \<exists>s1. take_item p s1 = Inr (False, s')"
proof (induction n arbitrary: s k s')
  case 0
  then show ?case by simp
next
  case (Suc n)
  then obtain ok s1 where s1: "take_item p s = Inr (ok, s1)"
    "(if ok then and_then (own_loop n (take_item p) s1) (\<lambda>(k, s''). Inr (Suc k, s'')) else Inr (0, s1)) = Inr (k, s')"
    by (auto simp: and_then_Inr)
  show ?case
  proof (cases ok)
    case True
    with s1(2) Suc.IH Suc.prems(2) show ?thesis by (auto simp: and_then_Inr)
  next
    case False
    with s1 show ?thesis by auto
  qed
qed

text \<open>A miss between quiet changes.\<close>

definition missed :: "nat \<Rightarrow> 's \<Rightarrow> 's \<Rightarrow> bool" where
  "missed i s s' \<longleftrightarrow> (\<exists>s1 s2. quiet s s1 \<and> take_item i s1 = Inr (False, s2) \<and> quiet s2 s')"

lemma missed_quiet: "missed i s s' \<Longrightarrow> quiet s s'"
  unfolding missed_def by (meson miss quiet_trans)

lemma missed_later: "quiet s t \<Longrightarrow> missed i t u \<Longrightarrow> missed i s u"
  unfolding missed_def by (meson quiet_trans)

lemma missed_earlier: "missed i s t \<Longrightarrow> quiet t u \<Longrightarrow> missed i s u"
  unfolding missed_def by (meson quiet_trans)

lemma missedI: "take_item i s = Inr (False, s') \<Longrightarrow> missed i s s'"
  unfolding missed_def using quiet_refl by blast

lemma steal_loop_same:
  "steal_loop is batch cnt take_item s = Inr (cnt, s') \<Longrightarrow> cnt < batch \<Longrightarrow>
     quiet s s' \<and> (\<forall>i \<in> set is. missed i s s')"
proof (induction "is" arbitrary: s)
  case Nil
  then show ?case by (simp add: quiet_refl)
next
  case (Cons i "is")
  then obtain ok s1 where s1: "take_item i s = Inr (ok, s1)"
    "(if ok then (if Suc cnt = batch then Inr (Suc cnt, s1) else steal_loop is batch (Suc cnt) take_item s1)
      else steal_loop is batch cnt take_item s1) = Inr (cnt, s')"
    by (auto simp: and_then_Inr)
  have "\<not> ok"
    using s1(2) steal_loop_le [of "is" batch "Suc cnt" s1 cnt s'] Cons.prems(2) by (auto split: if_splits)
  with s1 have q: "missed i s s1" "steal_loop is batch cnt take_item s1 = Inr (cnt, s')"
    by (auto intro: missedI)
  with Cons.IH [of s1] Cons.prems(2) have "quiet s1 s'" "\<forall>i \<in> set is. missed i s1 s'" by auto
  with q(1) missed_quiet [OF q(1)] show ?case
    by (auto intro: missed_earlier missed_later quiet_trans)
qed

text \<open>Nothing was taken only if there was nothing to take, in any partition.\<close>

lemma batch_none:
  assumes "batch_loop n batch p take_item s = Inr (0, s')" "batch > 0" "i < n"
  shows "quiet s s' \<and> missed (p + i) s s'"
proof -
  from assms obtain k s1 where s1: "own_loop batch (take_item p) s = Inr (k, s1)"
    "(if k = batch then Inr (k, s1) else steal_loop (map (\<lambda>i. p + i) [0..<n]) batch k take_item s1) = Inr (0, s')"
    by (auto simp: batch_loop_def and_then_Inr)
  with own_loop_le [OF s1(1)] steal_loop_le [of _ batch k s1 0 s'] assms(2)
  have k: "k = 0" "steal_loop (map (\<lambda>i. p + i) [0..<n]) batch 0 take_item s1 = Inr (0, s')"
    by (auto split: if_splits)
  with s1(1) assms(2) have "take_item p s = Inr (False, s1)"
    by (cases batch) (auto simp: and_then_Inr split: if_splits)
  then have "quiet s s1" by (rule miss)
  with steal_loop_same [OF k(2) assms(2)] assms(3) show ?thesis
    by (auto intro: missed_later quiet_trans)
qed

text \<open>A batch that is not full has missed in its own partition at the end of its first loop.\<close>

lemma batch_short:
  assumes "batch_loop n batch p take_item s = Inr (k, s')" "k < batch"
  shows "\<exists>j s0 s1. own_loop batch (take_item p) s = Inr (j, s1) \<and> j < batch \<and> take_item p s0 = Inr (False, s1) \<and>
    steal_loop (map (\<lambda>i. p + i) [0..<n]) batch j take_item s1 = Inr (k, s')"
proof -
  from assms obtain j s1 where s1: "own_loop batch (take_item p) s = Inr (j, s1)"
    "(if j = batch then Inr (j, s1) else steal_loop (map (\<lambda>i. p + i) [0..<n]) batch j take_item s1) = Inr (k, s')"
    by (auto simp: batch_loop_def and_then_Inr)
  with assms(2) have "j \<noteq> batch" by (auto split: if_splits)
  with own_loop_le [OF s1(1)] own_loop_miss [OF s1(1)] s1 show ?thesis by auto
qed

end

text \<open>A property that every taken item keeps is kept by the whole batch.\<close>

locale batch_invariant = batch_source take_item quiet
  for take_item :: "nat \<Rightarrow> 's \<Rightarrow> 'x + (bool \<times> 's)" and quiet +
  fixes good :: "'s \<Rightarrow> bool"
  assumes keeps: "good s \<Longrightarrow> take_item i s = Inr (ok, s') \<Longrightarrow> good s'"
begin

lemma own_loop_good: "good s \<Longrightarrow> own_loop n (take_item p) s = Inr (k, s') \<Longrightarrow> good s'"
  by (induction n arbitrary: s k s') (auto simp: and_then_Inr dest: keeps split: if_splits)

lemma steal_loop_good: "good s \<Longrightarrow> steal_loop is batch cnt take_item s = Inr (k, s') \<Longrightarrow> good s'"
  by (induction "is" arbitrary: cnt s) (auto simp: and_then_Inr dest: keeps split: if_splits)

lemma batch_good: "good s \<Longrightarrow> batch_loop n batch p take_item s = Inr (k, s') \<Longrightarrow> good s'"
  by (auto simp: batch_loop_def and_then_Inr dest: own_loop_good steal_loop_good split: if_splits)

text \<open>A failing batch stopped at an item it could reach.\<close>

lemma own_loop_fails:
  "good s \<Longrightarrow> own_loop n (take_item p) s = Inl e \<Longrightarrow> \<exists>s'. good s' \<and> take_item p s' = Inl e"
proof (induction n arbitrary: s)
  case 0
  then show ?case by simp
next
  case (Suc n)
  show ?case
  proof (cases "take_item p s")
    case (Inl x)
    with Suc.prems show ?thesis by auto
  next
    case (Inr r)
    with Suc.prems have "own_loop n (take_item p) (snd r) = Inl e"
      by (cases r) (auto simp: and_then_def split: if_splits sum.splits)
    with Suc.IH keeps [OF Suc.prems(1)] Inr show ?thesis by (metis prod.collapse)
  qed
qed

lemma steal_loop_fails:
  "good s \<Longrightarrow> steal_loop is batch cnt take_item s = Inl e \<Longrightarrow> \<exists>s' i. good s' \<and> take_item i s' = Inl e"
proof (induction "is" arbitrary: cnt s)
  case Nil
  then show ?case by simp
next
  case (Cons i "is")
  show ?case
  proof (cases "take_item i s")
    case (Inl x)
    with Cons.prems show ?thesis by auto
  next
    case (Inr r)
    with Cons.prems have "\<exists>c. steal_loop is batch c take_item (snd r) = Inl e"
      by (cases r) (auto split: if_splits)
    with Cons.IH keeps [OF Cons.prems(1)] Inr show ?thesis by (metis prod.collapse)
  qed
qed

lemma batch_fails:
  assumes "good s" "batch_loop n batch p take_item s = Inl e"
  shows "\<exists>s' i. good s' \<and> take_item i s' = Inl e"
proof (cases "own_loop batch (take_item p) s")
  case (Inl x)
  with assms show ?thesis using own_loop_fails [OF assms(1)] by (fastforce simp: batch_loop_def)
next
  case (Inr r)
  then have "good (snd r)" using own_loop_good [OF assms(1)] by (metis prod.collapse)
  moreover have "steal_loop (map (\<lambda>i. p + i) [0..<n]) batch (fst r) take_item (snd r) = Inl e"
    using assms(2) Inr by (cases r) (auto simp: batch_loop_def split: if_splits)
  ultimately show ?thesis by (rule steal_loop_fails)
qed

end

text \<open>A preorder that every taken item follows relates the state before and after a batch.\<close>

locale batch_order = batch_source take_item quiet
  for take_item :: "nat \<Rightarrow> 's \<Rightarrow> 'x + (bool \<times> 's)" and quiet +
  fixes leq :: "'s \<Rightarrow> 's \<Rightarrow> bool"
  assumes leq_refl: "leq s s"
    and leq_trans: "leq s t \<Longrightarrow> leq t u \<Longrightarrow> leq s u"
    and step_leq: "take_item i s = Inr (ok, s') \<Longrightarrow> leq s s'"
begin

lemma own_loop_leq: "own_loop n (take_item p) s = Inr (k, s') \<Longrightarrow> leq s s'"
proof (induction n arbitrary: s k s')
  case 0
  then show ?case by (simp add: leq_refl)
next
  case (Suc n)
  then obtain ok s1 where s1: "take_item p s = Inr (ok, s1)"
    "(if ok then and_then (own_loop n (take_item p) s1) (\<lambda>(k, s''). Inr (Suc k, s'')) else Inr (0, s1)) = Inr (k, s')"
    by (auto simp: and_then_Inr)
  have "leq s1 s'" using s1(2) Suc.IH leq_refl by (auto simp: and_then_Inr split: if_splits)
  with step_leq [OF s1(1)] show ?case by (rule leq_trans)
qed

lemma steal_loop_leq: "steal_loop is batch cnt take_item s = Inr (k, s') \<Longrightarrow> leq s s'"
proof (induction "is" arbitrary: cnt s)
  case Nil
  then show ?case by (simp add: leq_refl)
next
  case (Cons i "is")
  then obtain ok s1 where s1: "take_item i s = Inr (ok, s1)"
    "(if ok then (if Suc cnt = batch then Inr (Suc cnt, s1) else steal_loop is batch (Suc cnt) take_item s1)
      else steal_loop is batch cnt take_item s1) = Inr (k, s')"
    by (auto simp: and_then_Inr)
  have "leq s1 s'" using s1(2) Cons.IH leq_refl by (auto split: if_splits)
  with step_leq [OF s1(1)] show ?case by (rule leq_trans)
qed

lemma batch_leq: "batch_loop n batch p take_item s = Inr (k, s') \<Longrightarrow> leq s s'"
proof -
  assume "batch_loop n batch p take_item s = Inr (k, s')"
  then obtain j s1 where j: "own_loop batch (take_item p) s = Inr (j, s1)"
    "(if j = batch then Inr (j, s1) else steal_loop (map (\<lambda>i. p + i) [0..<n]) batch j take_item s1) = Inr (k, s')"
    by (auto simp: batch_loop_def and_then_Inr)
  have "leq s1 s'" using j(2) steal_loop_leq leq_refl by (auto split: if_splits)
  with own_loop_leq [OF j(1)] show ?thesis by (rule leq_trans)
qed

end

end
