(* ===== verification/LinkedFamilies.thy ===== *)
theory LinkedFamilies
  imports Linked
begin

text \<open>
  Many queues between sentinels in one heap of \<open>BaseLinked\<close> nodes, as the partitions of a context or the two
  sides of every channel have them: an element is in at most one of them, and linking or
  unlinking in one leaves the others as they are.
\<close>

definition family_rep ::
    "('q \<Rightarrow> 'n) \<Rightarrow> ('q \<Rightarrow> 'n) \<Rightarrow> ('e \<Rightarrow> 'n) \<Rightarrow> 'q set \<Rightarrow> 'n links \<Rightarrow> ('q \<Rightarrow> 'e list) \<Rightarrow> bool" where
  "family_rep hd_of tl_of node I h Q \<longleftrightarrow>
     (\<forall>p \<in> I. is_queue (hd_of p) (tl_of p) h (map node (Q p))) \<and>
     (\<forall>p \<in> I. \<forall>r \<in> I. p \<noteq> r \<longrightarrow> set (Q p) \<inter> set (Q r) = {})"

text \<open>The elements that are in no queue of the family are in no list at all.\<close>

definition family_closed :: "('e \<Rightarrow> 'n) \<Rightarrow> 'q set \<Rightarrow> 'n links \<Rightarrow> ('q \<Rightarrow> 'e list) \<Rightarrow> bool" where
  "family_closed node I h Q \<longleftrightarrow> (\<forall>x. (\<forall>p \<in> I. x \<notin> set (Q p)) \<longrightarrow> unlinked h (node x))"

locale queue_family =
  fixes hd_of tl_of :: "'q \<Rightarrow> 'n" and node :: "'e \<Rightarrow> 'n"
  assumes hd_inj: "hd_of p = hd_of r \<longleftrightarrow> p = r"
    and tl_inj: "tl_of p = tl_of r \<longleftrightarrow> p = r"
    and node_inj: "node x = node y \<longleftrightarrow> x = y"
    and hd_tl: "hd_of p \<noteq> tl_of r"
    and hd_node: "hd_of p \<noteq> node x"
    and tl_node: "tl_of p \<noteq> node x"
begin

lemmas apart = hd_inj tl_inj node_inj hd_tl hd_node tl_node
  hd_tl [symmetric] hd_node [symmetric] tl_node [symmetric]

lemma node_in_map: "node x \<in> set (map node xs) \<longleftrightarrow> x \<in> set xs"
  by (auto simp: apart)

lemma remove1_map_node: "remove1 (node x) (map node xs) = map node (remove1 x xs)"
  by (induction xs) (simp_all add: apart)

text \<open>An operation on one queue touches that queue and one more element only.\<close>

lemma family_frame:
  assumes rep: "family_rep hd_of tl_of node I h Q" and p: "p \<in> I" "r \<in> I" "r \<noteq> p"
    and g: "\<And>y. y \<notin> set (map node (Q p)) \<Longrightarrow> y \<noteq> hd_of p \<Longrightarrow> y \<noteq> tl_of p \<Longrightarrow> y \<noteq> node x \<Longrightarrow>
      prv g y = prv h y \<and> nxt g y = nxt h y"
    and x: "x \<notin> set (Q r)"
  shows "is_queue (hd_of r) (tl_of r) g (map node (Q r))"
proof (rule is_queue_frame)
  show "is_queue (hd_of r) (tl_of r) h (map node (Q r))" using rep p(2) by (simp add: family_rep_def)
  fix y assume y: "y \<in> {hd_of r, tl_of r} \<union> set (map node (Q r))"
  have "set (Q p) \<inter> set (Q r) = {}" using rep p unfolding family_rep_def by blast
  with y x p(3) show "prv g y = prv h y \<and> nxt g y = nxt h y" by (intro g) (auto simp: apart)
qed

lemma family_push:
  assumes rep: "family_rep hd_of tl_of node I h Q" and p: "p \<in> I" and x: "\<And>r. r \<in> I \<Longrightarrow> x \<notin> set (Q r)"
  shows "family_rep hd_of tl_of node I (enqueue (tl_of p) (node x) h) (Q(p := Q p @ [x]))"
    and "family_closed node I h Q \<Longrightarrow> family_closed node I (enqueue (tl_of p) (node x) h) (Q(p := Q p @ [x]))"
proof -
  have q: "is_queue (hd_of p) (tl_of p) h (map node (Q p))" using rep p by (simp add: family_rep_def)
  note other = link_front_other [OF q, of _ "node x"]
  have "is_queue (hd_of p) (tl_of p) (enqueue (tl_of p) (node x) h) (map node (Q p @ [x]))"
    using is_queue_link_front [OF q, of "node x"] x [OF p] node_in_map [of x "Q p"] by (simp add: enqueue_def apart)
  moreover have "is_queue (hd_of r) (tl_of r) (enqueue (tl_of p) (node x) h) (map node (Q r))" if "r \<in> I" "r \<noteq> p" for r
    by (rule family_frame [OF rep p that, of x]) (use other x that in \<open>auto simp: enqueue_def\<close>)
  ultimately show "family_rep hd_of tl_of node I (enqueue (tl_of p) (node x) h) (Q(p := Q p @ [x]))"
    using rep x by (auto simp: family_rep_def)
  show "family_closed node I (enqueue (tl_of p) (node x) h) (Q(p := Q p @ [x]))" if c: "family_closed node I h Q"
    unfolding family_closed_def
  proof (intro allI impI)
    fix y assume y: "\<forall>r \<in> I. y \<notin> set ((Q(p := Q p @ [x])) r)"
    have "y \<notin> set (Q r)" if "r \<in> I" for r using y [THEN bspec, OF that] by (auto split: if_splits)
    then have "unlinked h (node y)" "node y \<notin> set (map node (Q p))" using c p node_in_map [of y] by (auto simp: family_closed_def)
    moreover have "node y \<noteq> node x" using y p by (auto simp: apart)
    ultimately show "unlinked (enqueue (tl_of p) (node x) h) (node y)"
      using other [of "node y"] by (simp add: unlinked_def enqueue_def apart)
  qed
qed

lemma family_drop:
  assumes rep: "family_rep hd_of tl_of node I h Q" and p: "p \<in> I" and x: "x \<in> set (Q p)"
  shows "family_rep hd_of tl_of node I (snd (unlink_this (node x) h)) (Q(p := remove1 x (Q p)))"
    and "family_closed node I h Q \<Longrightarrow> family_closed node I (snd (unlink_this (node x) h)) (Q(p := remove1 x (Q p)))"
proof -
  have q: "is_queue (hd_of p) (tl_of p) h (map node (Q p))" using rep p by (simp add: family_rep_def)
  have m: "node x \<in> set (map node (Q p))" using x by simp
  note this_q = is_queue_unlink_this [OF q m] and other = unlink_this_other [OF q m]
  have "is_queue (hd_of p) (tl_of p) (snd (unlink_this (node x) h)) (map node (remove1 x (Q p)))"
    using this_q(1) by (simp only: remove1_map_node)
  moreover have "is_queue (hd_of r) (tl_of r) (snd (unlink_this (node x) h)) (map node (Q r))" if "r \<in> I" "r \<noteq> p" for r
  proof (rule family_frame [OF rep p that, of x])
    have "set (Q p) \<inter> set (Q r) = {}" using rep p that unfolding family_rep_def by blast
    then show "x \<notin> set (Q r)" using x by blast
  qed (use other in blast)
  ultimately show "family_rep hd_of tl_of node I (snd (unlink_this (node x) h)) (Q(p := remove1 x (Q p)))"
    using rep notin_set_remove1 by (fastforce simp: family_rep_def)
  show "family_closed node I (snd (unlink_this (node x) h)) (Q(p := remove1 x (Q p)))" if c: "family_closed node I h Q"
    unfolding family_closed_def
  proof (intro allI impI)
    fix y assume y: "\<forall>r \<in> I. y \<notin> set ((Q(p := remove1 x (Q p))) r)"
    show "unlinked (snd (unlink_this (node x) h)) (node y)"
    proof (cases "y = x")
      case True
      then show ?thesis using this_q(3) by simp
    next
      case False
      then have "y \<notin> set (Q r)" if "r \<in> I" for r using y [THEN bspec, OF that] by (auto split: if_splits)
      then have "unlinked h (node y)" "node y \<notin> set (map node (Q p))" using c p node_in_map [of y] by (auto simp: family_closed_def)
      then show ?thesis using other [of "node y"] by (simp add: unlinked_def apart)
    qed
  qed
qed

text \<open>Taking the first element is unlinking it.\<close>

lemma family_first:
  assumes "family_rep hd_of tl_of node I h Q" "p \<in> I"
  shows "back_of (hd_of p) h = Some (case Q p of [] \<Rightarrow> tl_of p | x # _ \<Rightarrow> node x)"
    and "Q p = x # q \<Longrightarrow> unlink_back (hd_of p) h = (Some (node x), snd (unlink_this (node x) h))"
proof -
  have q: "is_queue (hd_of p) (tl_of p) h (map node (Q p))" using assms by (simp add: family_rep_def)
  show "back_of (hd_of p) h = Some (case Q p of [] \<Rightarrow> tl_of p | x # _ \<Rightarrow> node x)"
    using is_queue_back_of [OF q] by (simp split: list.split)
  show "unlink_back (hd_of p) h = (Some (node x), snd (unlink_this (node x) h))" if "Q p = x # q"
    using q that by (cases q) (auto intro!: unlink_back_is_unlink_this simp: is_queue_def dll_def)
qed

lemma family_pop:
  assumes rep: "family_rep hd_of tl_of node I h Q" and p: "p \<in> I"
  shows "Q p = [] \<Longrightarrow> dequeue (hd_of p) (tl_of p) h = (None, h)"
    and "Q p = x # q \<Longrightarrow> fst (dequeue (hd_of p) (tl_of p) h) = Some (node x) \<and>
      family_rep hd_of tl_of node I (snd (dequeue (hd_of p) (tl_of p) h)) (Q(p := q))"
  using family_first [OF rep p] family_drop(1) [OF rep p, of x]
  by (auto simp: dequeue_def apart)

text \<open>New sentinels: linking the tail behind the head.\<close>

lemma family_new:
  assumes rep: "family_rep hd_of tl_of node I h Q" and p: "p \<notin> I" "unlinked h (hd_of p)" "unlinked h (tl_of p)"
  shows "family_rep hd_of tl_of node (insert p I) (link_back (hd_of p) (tl_of p) h) (Q(p := []))"
    and "family_closed node I h Q \<Longrightarrow> family_closed node (insert p I) (link_back (hd_of p) (tl_of p) h) (Q(p := []))"
proof -
  have other: "prv (link_back (hd_of p) (tl_of p) h) y = prv h y \<and> nxt (link_back (hd_of p) (tl_of p) h) y = nxt h y"
    if "y \<noteq> hd_of p" "y \<noteq> tl_of p" for y
    using that p(2) by (simp add: link_back_def unlinked_def)
  have "is_queue (hd_of p) (tl_of p) (link_back (hd_of p) (tl_of p) h) []"
    by (rule is_queue_init) (use p in \<open>simp_all add: apart\<close>)
  moreover have "is_queue (hd_of r) (tl_of r) (link_back (hd_of p) (tl_of p) h) (map node (Q r))" if "r \<in> I" for r
  proof (rule is_queue_frame)
    show "is_queue (hd_of r) (tl_of r) h (map node (Q r))" using rep that by (simp add: family_rep_def)
    fix y assume "y \<in> {hd_of r, tl_of r} \<union> set (map node (Q r))"
    moreover have "r \<noteq> p" using that p(1) by auto
    ultimately show "prv (link_back (hd_of p) (tl_of p) h) y = prv h y \<and> nxt (link_back (hd_of p) (tl_of p) h) y = nxt h y"
      by (intro other) (auto simp: apart)
  qed
  moreover have "r \<noteq> p" if "r \<in> I" for r using that p(1) by auto
  ultimately show "family_rep hd_of tl_of node (insert p I) (link_back (hd_of p) (tl_of p) h) (Q(p := []))"
    using rep by (auto simp: family_rep_def)
  show "family_closed node (insert p I) (link_back (hd_of p) (tl_of p) h) (Q(p := []))" if "family_closed node I h Q"
    using that other p(1) by (auto simp: family_closed_def unlinked_def apart split: if_splits)
qed

end

end
