(* ===== verification/Scheduling.thy ===== *)
theory Scheduling
  imports CallStack Batch LinkedFamilies
begin

text \<open>
  \<open>SchedContext\<close> (\<open>src/include/core/schedule.h\<close>, \<open>src/core/schedule.cpp\<close>): tasks and their
  allocator, the per-worker schedulers, running a task to its next scheduling point, and the
  batch loop of a worker with its stealing pass. The run queues are shown to be what the
  pointer operations of \<open>BaseLinked\<close> maintain; the steps of any number of workers, of
  \<open>spawn\<close>, which has three, and of notifications then act on them as lists.
\<close>

section \<open>Run queues\<close>

text \<open>
  The nodes of all queues of one context: the two sentinels of each scheduler and the tasks,
  which are \<open>BaseLinked\<close> themselves and carry one pair of pointers each.
\<close>

datatype node = RHead nat | RTail nat | TaskNode nat

definition scheduler_init :: "nat \<Rightarrow> node links \<Rightarrow> node links" where
  "scheduler_init p h = link_back (RHead p) (RTail p) h"

definition scheduler_push :: "nat \<Rightarrow> nat \<Rightarrow> node links \<Rightarrow> node links" where
  "scheduler_push p i h = enqueue (RTail p) (TaskNode i) h"

definition scheduler_pop :: "nat \<Rightarrow> node links \<Rightarrow> node option \<times> node links" where
  "scheduler_pop p h = dequeue (RHead p) (RTail p) h"

text \<open>All queues at once: each one is represented, and no task is in two of them.\<close>

definition queues_rep :: "nat \<Rightarrow> node links \<Rightarrow> (nat \<Rightarrow> nat list) \<Rightarrow> bool" where
  "queues_rep n h Q \<longleftrightarrow>
     (\<forall>p < n. is_queue (RHead p) (RTail p) h (map TaskNode (Q p))) \<and>
     (\<forall>p < n. \<forall>r < n. p \<noteq> r \<longrightarrow> set (Q p) \<inter> set (Q r) = {})"

text \<open>The run queues are a family of linked queues: each pointer operation edits its own list.\<close>

interpretation run_queues: queue_family RHead RTail TaskNode
  by unfold_locales auto

lemma queues_rep_family: "queues_rep n h Q \<longleftrightarrow> family_rep RHead RTail TaskNode {..<n} h Q"
  by (auto simp: queues_rep_def family_rep_def)

lemma queues_rep_push:
  "queues_rep n h Q \<Longrightarrow> p < n \<Longrightarrow> (\<And>r. r < n \<Longrightarrow> i \<notin> set (Q r)) \<Longrightarrow> queues_rep n (scheduler_push p i h) (Q(p := Q p @ [i]))"
  unfolding queues_rep_family scheduler_push_def by (rule run_queues.family_push) auto

lemma queues_rep_pop:
  "queues_rep n h Q \<Longrightarrow> p < n \<Longrightarrow> Q p = i # q \<Longrightarrow>
     fst (scheduler_pop p h) = Some (TaskNode i) \<and> queues_rep n (snd (scheduler_pop p h)) (Q(p := q))"
  unfolding queues_rep_family scheduler_pop_def by (rule run_queues.family_pop) auto

lemma queues_rep_pop_empty: "queues_rep n h Q \<Longrightarrow> p < n \<Longrightarrow> Q p = [] \<Longrightarrow> scheduler_pop p h = (None, h)"
  unfolding queues_rep_family scheduler_pop_def by (rule run_queues.family_pop(1) [where I = "{..<n}" and Q = Q]) auto

section \<open>Tasks and steps\<close>

text \<open>
  What a coroutine asks of its worker before it suspends: \<open>Yielder\<close>, \<open>Condition::wait\<close>, or
  nothing (a plain \<open>co_await std::suspend_always\<close>).
\<close>

datatype request = Yield | Wait nat | Plain

text \<open>\<open>SchedContext::Task\<close>: what is left of its coroutine, and its counters.\<close>

record ('e, 'v) task =
  fn :: "(request, 'e, 'v) body"
  execute_cnt :: nat
  suspend_cnt :: nat
  yield_cnt :: nat

text \<open>
  One context: the id counter, the number of partitions, the pool (which the allocators'
  \<open>_index\<close> maps key by task id), the run queue of each partition, the blocked queue of each
  condition, the task each worker runs, which schedulers have a \<open>_signal\<close>, the partitions whose
  signal has been emitted, in order, and the calls of \<open>create_scheduled\<close> in progress: by the id
  each one has fetched, the coroutine that still has to be allocated, or that it has been.
\<close>

datatype ('e, 'v) creating = Fetched "(request, 'e, 'v) body" | Allocated

record ('e, 'v) sched =
  tid :: nat
  n_partition :: nat
  pool :: "nat \<rightharpoonup> ('e, 'v) task"
  runq :: "nat \<Rightarrow> nat list"
  waitq :: "nat \<Rightarrow> nat list"
  running :: "nat \<Rightarrow> nat option"
  signalled :: "nat \<Rightarrow> bool"
  emitted :: "nat list"
  spawns :: "nat \<rightharpoonup> ('e, 'v) creating"

definition sched_init :: "nat \<Rightarrow> ('e, 'v) sched" where
  "sched_init n = \<lparr>tid = 0, n_partition = n, pool = (\<lambda>_. None), runq = (\<lambda>_. []),
     waitq = (\<lambda>_. []), running = (\<lambda>_. None), signalled = (\<lambda>_. False), emitted = [],
     spawns = (\<lambda>_. None)\<rparr>"

text \<open>
  What can go wrong in a step: \<open>id % 0\<close> in a context without partitions, no current task or
  no pool entry for it (\<open>_index.at(id)\<close> throws), and an exception that leaves a task, which
  ends the worker thread.
\<close>

datatype 'e fault = DivByZero | NoTask | Uncaught 'e

definition slot :: "nat \<Rightarrow> ('e, 'v) sched \<Rightarrow> 'e fault + nat" where
  "slot i s = (if n_partition s = 0 then Inl DivByZero else Inr (i mod n_partition s))"

text \<open>\<open>_signal->emit()\<close>, if the scheduler has a signal.\<close>

definition emit_signal :: "nat \<Rightarrow> ('e, 'v) sched \<Rightarrow> nat list" where
  "emit_signal p s = emitted s @ (if signalled s p then [p] else [])"

definition on_scheduled :: "nat \<Rightarrow> ('e, 'v) sched \<Rightarrow> 'e fault + ('e, 'v) sched" where
  "on_scheduled i s = and_then (slot i s) (\<lambda>p. Inr (s\<lparr>signalled := (signalled s)(p := True)\<rparr>))"

text \<open>The start of \<open>final_schedule\<close>, after which the signal is not used any more.\<close>

definition drop_signal :: "nat \<Rightarrow> ('e, 'v) sched \<Rightarrow> 'e fault + ('e, 'v) sched" where
  "drop_signal i s = and_then (slot i s) (\<lambda>p. Inr (s\<lparr>signalled := (signalled s)(p := False)\<rparr>))"

definition push_task :: "nat \<Rightarrow> ('e, 'v) sched \<Rightarrow> 'e fault + ('e, 'v) sched" where
  "push_task i s = and_then (slot i s) (\<lambda>p.
     Inr (s\<lparr>runq := (runq s)(p := runq s p @ [i]), emitted := emit_signal p s\<rparr>))"

definition pop_task :: "nat \<Rightarrow> ('e, 'v) sched \<Rightarrow> 'e fault + (nat option \<times> ('e, 'v) sched)" where
  "pop_task i s = and_then (slot i s) (\<lambda>p.
     case runq s p of
       [] \<Rightarrow> Inr (None, s)
     | j # q \<Rightarrow> Inr (Some j, s\<lparr>runq := (runq s)(p := q)\<rparr>))"

text \<open>
  \<open>create_scheduled\<close>: a fresh id from the atomic counter, \<open>Allocator::create\<close> under the lock of the
  allocator, \<open>Scheduler::push\<close> under that of the run queue of its partition. Other threads may take
  any step between these three.
\<close>

definition allocator_create :: "nat \<Rightarrow> (request, 'e, 'v) body \<Rightarrow> ('e, 'v) sched \<Rightarrow> ('e, 'v) sched" where
  "allocator_create i b s =
     s\<lparr>pool := (pool s)(i := Some \<lparr>fn = b, execute_cnt = 0, suspend_cnt = 0, yield_cnt = 0\<rparr>)\<rparr>"

definition allocator_destroy :: "nat \<Rightarrow> ('e, 'v) sched \<Rightarrow> 'e fault + ('e, 'v) sched" where
  "allocator_destroy i s =
     (case pool s i of None \<Rightarrow> Inl NoTask | Some _ \<Rightarrow> Inr (s\<lparr>pool := (pool s)(i := None)\<rparr>))"

definition fetch_id :: "(request, 'e, 'v) body \<Rightarrow> ('e, 'v) sched \<Rightarrow> ('e, 'v) sched" where
  "fetch_id b s = s\<lparr>tid := Suc (tid s), spawns := (spawns s)(tid s \<mapsto> Fetched b)\<rparr>"

definition allocate :: "nat \<Rightarrow> (request, 'e, 'v) body \<Rightarrow> ('e, 'v) sched \<Rightarrow> 'e fault + ('e, 'v) sched" where
  "allocate i b s = and_then (slot i s) (\<lambda>_. Inr (allocator_create i b (s\<lparr>spawns := (spawns s)(i \<mapsto> Allocated)\<rparr>)))"

definition push_new :: "nat \<Rightarrow> ('e, 'v) sched \<Rightarrow> 'e fault + ('e, 'v) sched" where
  "push_new i s = push_task i (s\<lparr>spawns := (spawns s)(i := None)\<rparr>)"

definition create_scheduled :: "(request, 'e, 'v) body \<Rightarrow> ('e, 'v) sched \<Rightarrow> 'e fault + ('e, 'v) sched" where
  "create_scheduled b s = and_then (allocate (tid s) b (fetch_id b s)) (push_new (tid s))"

text \<open>Without interruption, it is one step that puts a new task into its run queue.\<close>

lemma create_scheduled_unfold:
  "create_scheduled b s = and_then (slot (tid s) s) (\<lambda>_.
     push_task (tid s) ((allocator_create (tid s) b (s\<lparr>tid := Suc (tid s)\<rparr>))\<lparr>spawns := (spawns s)(tid s := None)\<rparr>))"
  by (simp add: create_scheduled_def allocate_def push_new_def fetch_id_def allocator_create_def slot_def)

section \<open>Running a task\<close>

text \<open>What the innermost frame asked for when it suspended.\<close>

definition last_request :: "nat \<Rightarrow> ('a, 'e, 'v) store \<Rightarrow> 'a option" where
  "last_request e s =
     (case cs_current s e of
        None \<Rightarrow> None
      | Some cur \<Rightarrow> (case cs_frame s cur of Ready l _ \<Rightarrow> l | _ \<Rightarrow> None))"

text \<open>
  The loop of \<open>_execute\<close>: resume while the task has not yielded, waits on no condition and
  is not done. The flags are those the body sets while it runs. The result is the exception
  that left \<open>resume\<close>, or the final flags.
\<close>

partial_function (option) resume_loop ::
    "nat \<Rightarrow> bool \<Rightarrow> nat option \<Rightarrow> (request, 'e, 'v::zero) store
      \<Rightarrow> (('e + bool \<times> nat option) \<times> (request, 'e, 'v) store) option" where
  "resume_loop e yielded waiting_cond s =
     (if \<not> yielded \<and> waiting_cond = None \<and> \<not> frame_done e s then
        (case call_stack_execute e s of
           None \<Rightarrow> None
         | Some (Some ex, s') \<Rightarrow> Some (Inl ex, s')
         | Some (None, s') \<Rightarrow>
             (let r = (if frame_done e s' then None else last_request e s')
              in resume_loop e (r = Some Yield)
                   (case r of Some (Wait c) \<Rightarrow> Some c | _ \<Rightarrow> None) s'))
      else Some (Inr (yielded, waiting_cond), s))"

text \<open>The same on bodies: what a task does until its next scheduling point.\<close>

datatype ('e, 'v) slice_end =
    Completed 'v
  | Escaped 'e
  | Yielded "(request, 'e, 'v) body"
  | Waits nat "(request, 'e, 'v) body"

text \<open>
  A plain suspension leaves a smaller body: bodies may branch without bound, so the
  argument is well-founded induction over the rest after each suspension.
\<close>

definition rest_of :: "((request, 'e, 'v) body \<times> (request, 'e, 'v) body) set" where
  "rest_of = {(b', b). \<exists>a. run b = Suspended a b'}"

lemma acc_Await:
  assumes "b \<in> Wellfounded.acc rest_of" "\<And>r. k r \<in> Wellfounded.acc rest_of"
  shows "Await b k \<in> Wellfounded.acc rest_of"
  using assms(1)
proof (induction b rule: acc.induct)
  case (accI b)
  show ?case
  proof (rule acc.accI)
    fix b' assume "(b', Await b k) \<in> rest_of"
    then obtain a where a: "run (Await b k) = Suspended a b'" by (auto simp: rest_of_def)
    show "b' \<in> Wellfounded.acc rest_of"
    proof (cases "run b")
      case (Suspended a' c)
      then have "(c, b) \<in> rest_of" by (auto simp: rest_of_def)
      with accI.IH Suspended a show ?thesis by auto
    next
      case (Done v)
      with a have "(b', k (Inr v)) \<in> rest_of" by (auto simp: rest_of_def)
      with assms(2) show ?thesis by (blast intro: acc_downward)
    next
      case (Failed ex)
      with a have "(b', k (Inl ex)) \<in> rest_of" by (auto simp: rest_of_def)
      with assms(2) show ?thesis by (blast intro: acc_downward)
    qed
  qed
qed

lemma acc_rest_of: "b \<in> Wellfounded.acc rest_of"
proof (induction b)
  case (Return v)
  show ?case by (rule acc.accI) (simp add: rest_of_def)
next
  case (Throw ex)
  show ?case by (rule acc.accI) (simp add: rest_of_def)
next
  case (Leaf a b)
  show ?case
  proof (rule acc.accI)
    fix b' assume "(b', Leaf a b) \<in> rest_of"
    then have "b' = b" by (simp add: rest_of_def)
    with Leaf show "b' \<in> Wellfounded.acc rest_of" by simp
  qed
next
  case (Await c k)
  then show ?case by (intro acc_Await) auto
qed

lemma wf_rest_of: "wf rest_of"
  by (rule acc_wfI) (simp add: acc_rest_of)

function slice :: "(request, 'e, 'v) body \<Rightarrow> ('e, 'v) slice_end" where
  "slice b =
     (case run b of
        Done v \<Rightarrow> Completed v
      | Failed ex \<Rightarrow> Escaped ex
      | Suspended a b' \<Rightarrow>
          (case a of Plain \<Rightarrow> slice b' | Yield \<Rightarrow> Yielded b' | Wait c \<Rightarrow> Waits c b'))"
  by pat_completeness auto
termination
proof (relation rest_of)
  show "wf rest_of" by (rule wf_rest_of)
next
  fix b b' :: "(request, 'e, 'v) body" and a
  assume "run b = Suspended a b'"
  then show "(b', b) \<in> rest_of" unfolding rest_of_def by blast
qed

declare slice.simps [simp del]

text \<open>How the outcome of the loop shows in the flags.\<close>

definition executes_as ::
    "nat \<Rightarrow> (('e + bool \<times> nat option) \<times> (request, 'e, 'v) store) option \<Rightarrow> ('e, 'v) slice_end \<Rightarrow> bool" where
  "executes_as e r sl \<longleftrightarrow>
     (case sl of
        Completed v \<Rightarrow> \<exists>s'. r = Some (Inr (False, None), s') \<and> frame_done e s' \<and> cs_value s' e = v
      | Escaped ex \<Rightarrow> \<exists>s'. r = Some (Inl ex, s')
      | Yielded b' \<Rightarrow> \<exists>s'. r = Some (Inr (True, None), s') \<and> \<not> frame_done e s' \<and> suspended_as s' e (Some Yield) b'
      | Waits c b' \<Rightarrow> \<exists>s'. r = Some (Inr (False, Some c), s') \<and> \<not> frame_done e s' \<and> suspended_as s' e (Some (Wait c)) b')"

lemma suspended_last_request: "suspended_as s e l b \<Longrightarrow> last_request e s = l"
  by (auto simp: suspended_as_def on_stack_def last_request_def)

lemma suspended_as_not_done: "suspended_as s e l b \<Longrightarrow> \<not> frame_done e s"
  by (auto simp: suspended_as_def dest: suspended_not_done)

text \<open>
  C25: Running a task to its next scheduling point: for a suspended coroutine whose bodies
  catch no exception, the loop of \<open>_execute\<close> terminates, skips plain suspensions, and ends with
  the task done and its value stored, yielded, or waiting on exactly the condition that the
  direct evaluation of its body asks for next, with the rest of the body suspended.
\<close>

theorem execute_runs_slice:
  assumes "suspended_as s e l b" "propagates b"
  shows "executes_as e (resume_loop e False None s) (slice b)"
  using assms
proof (induction b arbitrary: s l rule: slice.induct)
  case (1 b)
  note res = resume_runs_body [OF "1.prems"]
  have start: "resume_loop e False None s = (case call_stack_execute e s of
      None \<Rightarrow> None
    | Some (Some ex, s') \<Rightarrow> Some (Inl ex, s')
    | Some (None, s') \<Rightarrow> (let r = (if frame_done e s' then None else last_request e s')
        in resume_loop e (r = Some Yield) (case r of Some (Wait c) \<Rightarrow> Some c | _ \<Rightarrow> None) s'))"
    using suspended_as_not_done [OF "1.prems"(1)] by (subst resume_loop.simps) simp
  show ?case
  proof (cases "run b")
    case (Done v)
    with res obtain s' where "call_stack_execute e s = Some (None, s')" "frame_done e s'" "cs_value s' e = v"
      by (auto simp: finishes_def)
    then show ?thesis using Done start
      by (simp add: slice.simps [of b] executes_as_def resume_loop.simps [of e False None s'])
  next
    case (Failed ex)
    with res obtain s' where "call_stack_execute e s = Some (Some ex, s')"
      by (auto simp: finishes_def)
    then show ?thesis using Failed start by (simp add: slice.simps [of b] executes_as_def)
  next
    case (Suspended a b')
    with res obtain s' where s': "call_stack_execute e s = Some (None, s')" "suspended_as s' e (Some a) b'"
      by (auto simp: finishes_def)
    note nd = suspended_as_not_done [OF s'(2)] and lr = suspended_last_request [OF s'(2)]
    show ?thesis
    proof (cases a)
      case Plain
      have "propagates b'" using "1.prems"(2) Suspended by (rule run_propagates)
      from "1.IH" [OF Suspended Plain s'(2) this]
      show ?thesis using Suspended Plain start s'(1) nd lr by (simp add: slice.simps [of b])
    next
      case Yield
      then show ?thesis using Suspended start s' nd lr
        by (simp add: slice.simps [of b] executes_as_def resume_loop.simps [of e True None s'])
    next
      case (Wait c)
      then show ?thesis using Suspended start s' nd lr
        by (simp add: slice.simps [of b] executes_as_def resume_loop.simps [of e False "Some c" s'])
    qed
  qed
qed

theorem execute_runs_slice_witness:
  "\<exists>s'. resume_loop 0 False None (spawned (Leaf Plain (Leaf Yield (Return 3))) :: (request, nat, int) store)
     = Some (Inr (True, None), s') \<and> suspended_as s' 0 (Some Yield) (Return 3)"
  using execute_runs_slice [OF suspended_spawned [of "Leaf Plain (Leaf Yield (Return 3)) :: (request, nat, int) body"]]
  by (auto simp: executes_as_def slice.simps)

section \<open>Workers\<close>

text \<open>
  Worker \<open>w\<close> takes a task from the partition of index \<open>i\<close> and makes it its current one:
  \<open>pop\<close>, then the first lines of \<open>_execute\<close>.
\<close>

definition take_task :: "nat \<Rightarrow> nat \<Rightarrow> ('e, 'v) sched \<Rightarrow> 'e fault + (bool \<times> ('e, 'v) sched)" where
  "take_task w i s = and_then (pop_task i s) (\<lambda>(r, s').
     case r of
       None \<Rightarrow> Inr (False, s')
     | Some j \<Rightarrow> Inr (True, s'\<lparr>running := (running s')(w := Some j),
         pool := (pool s')(j := map_option (\<lambda>t. t\<lparr>execute_cnt := Suc (execute_cnt t)\<rparr>) (pool s' j))\<rparr>))"

text \<open>
  The rest of \<open>_execute\<close>: run the current task's coroutine to its next scheduling point, then
  destroy it, put it back into its own run queue, or link it into the queue of the condition.
\<close>

definition end_task :: "nat \<Rightarrow> ('e, 'v) sched \<Rightarrow> 'e fault + ('e, 'v) sched" where
  "end_task w s =
     (case running s w of
        None \<Rightarrow> Inl NoTask
      | Some i \<Rightarrow>
          (case pool s i of
             None \<Rightarrow> Inl NoTask
           | Some t \<Rightarrow>
               let s' = s\<lparr>running := (running s)(w := None)\<rparr>
               in case slice (fn t) of
                    Escaped ex \<Rightarrow> Inl (Uncaught ex)
                  | Completed v \<Rightarrow> allocator_destroy i s'
                  | Yielded b \<Rightarrow> push_task i
                      (s'\<lparr>pool := (pool s')(i := Some (t\<lparr>fn := b, yield_cnt := Suc (yield_cnt t)\<rparr>))\<rparr>)
                  | Waits c b \<Rightarrow> Inr
                      (s'\<lparr>pool := (pool s')(i := Some (t\<lparr>fn := b, suspend_cnt := Suc (suspend_cnt t)\<rparr>)),
                         waitq := (waitq s')(c := waitq s' c @ [i])\<rparr>)))"

text \<open>\<open>Condition::notify\<close>: the first blocked task goes to the run queue of its partition.\<close>

definition notify :: "nat \<Rightarrow> ('e, 'v) sched \<Rightarrow> 'e fault + ('e, 'v) sched" where
  "notify c s =
     (case waitq s c of
        [] \<Rightarrow> Inr s
      | i # q \<Rightarrow> push_task i (s\<lparr>waitq := (waitq s)(c := q)\<rparr>))"

definition try_task :: "nat \<Rightarrow> nat \<Rightarrow> ('e, 'v) sched \<Rightarrow> 'e fault + (bool \<times> ('e, 'v) sched)" where
  "try_task w i s = and_then (take_task w i s) (\<lambda>(ok, s').
     if ok then and_then (end_task w s') (\<lambda>s''. Inr (True, s'')) else Inr (False, s'))"

definition run_scheduled :: "nat \<Rightarrow> nat \<Rightarrow> ('e, 'v) sched \<Rightarrow> 'e fault + (nat \<times> ('e, 'v) sched)" where
  "run_scheduled pindex batch_size s = batch_loop (n_partition s) batch_size pindex (try_task pindex) s"

text \<open>
  Everything that happens to a context while it runs, in any order: a thread that spawns a
  coroutine fetches an id, allocates the task or pushes it, an idle worker takes a task, a
  worker's task reaches its scheduling point, a condition is notified.
\<close>

inductive sched_reach :: "nat \<Rightarrow> ('e, 'v) sched \<Rightarrow> bool" for n where
  reach_init: "sched_reach n (sched_init n)"
| reach_fetch: "sched_reach n s \<Longrightarrow> sched_reach n (fetch_id b s)"
| reach_allocate: "sched_reach n s \<Longrightarrow> spawns s i = Some (Fetched b) \<Longrightarrow> allocate i b s = Inr t \<Longrightarrow> sched_reach n t"
| reach_push: "sched_reach n s \<Longrightarrow> spawns s i = Some Allocated \<Longrightarrow> push_new i s = Inr t \<Longrightarrow> sched_reach n t"
| reach_take: "sched_reach n s \<Longrightarrow> running s w = None \<Longrightarrow> take_task w i s = Inr (ok, t) \<Longrightarrow> sched_reach n t"
| reach_end: "sched_reach n s \<Longrightarrow> end_task w s = Inr t \<Longrightarrow> sched_reach n t"
| reach_notify: "sched_reach n s \<Longrightarrow> notify c s = Inr t \<Longrightarrow> sched_reach n t"

lemma reach_spawn:
  assumes "sched_reach n s" "create_scheduled b s = Inr t"
  shows "sched_reach n t"
proof -
  obtain u where u: "allocate (tid s) b (fetch_id b s) = Inr u" "push_new (tid s) u = Inr t"
    using assms(2) by (auto simp: create_scheduled_def and_then_Inr)
  have "sched_reach n u"
    by (rule reach_allocate [OF reach_fetch [OF assms(1)] _ u(1)]) (simp add: fetch_id_def)
  moreover have "spawns u (tid s) = Some Allocated"
    using u(1) by (auto simp: allocate_def and_then_Inr allocator_create_def)
  ultimately show ?thesis using u(2) by (rule reach_push)
qed

section \<open>Where a task is\<close>

datatype place = InRunq nat | InWaitq nat | OnWorker nat | WithCreator

fun at_place :: "('e, 'v) sched \<Rightarrow> place \<Rightarrow> nat \<Rightarrow> bool" where
  "at_place s (InRunq p) i = (i \<in> set (runq s p))"
| "at_place s (InWaitq c) i = (i \<in> set (waitq s c))"
| "at_place s (OnWorker w) i = (running s w = Some i)"
| "at_place s WithCreator i = (spawns s i = Some Allocated)"

text \<open>
  Every task of the pool is in exactly one place, once, nothing else is anywhere, run queues
  hold tasks of their own partition, ids are below the counter, and a fetched id is not in use.
\<close>

definition placed :: "('e, 'v) sched \<Rightarrow> bool" where
  "placed s \<longleftrightarrow>
     (\<forall>p. distinct (runq s p)) \<and> (\<forall>c. distinct (waitq s c)) \<and>
     (\<forall>i pl. at_place s pl i \<longrightarrow> pool s i \<noteq> None) \<and>
     (\<forall>i. pool s i \<noteq> None \<longrightarrow> (\<exists>pl. at_place s pl i) \<and> i < tid s) \<and>
     (\<forall>i pl pl'. at_place s pl i \<longrightarrow> at_place s pl' i \<longrightarrow> pl = pl') \<and>
     (\<forall>p i. i \<in> set (runq s p) \<longrightarrow> p = i mod n_partition s) \<and>
     (\<forall>i b. spawns s i = Some (Fetched b) \<longrightarrow> pool s i = None \<and> i < tid s)"

text \<open>The general step: one task goes from where it was to a new place.\<close>

lemma placed_move:
  assumes "placed s" "\<And>pl j. at_place t pl j = (if j = i then pl = b else at_place s pl j)"
    "dom (pool t) = insert i (dom (pool s))" "tid s \<le> tid t" "i < tid t" "n_partition t = n_partition s"
    "\<And>p. distinct (runq t p)" "\<And>c. distinct (waitq t c)" "\<And>p. b = InRunq p \<Longrightarrow> p = i mod n_partition s"
    "\<And>j c. spawns t j = Some (Fetched c) \<Longrightarrow> spawns s j = Some (Fetched c) \<and> j \<noteq> i"
  shows "placed t"
proof -
  have r: "j \<in> set (runq t p) = (if j = i then InRunq p = b else j \<in> set (runq s p))" for p j
    using assms(2) [of "InRunq p" j] by simp
  have d: "pool t j \<noteq> None \<longleftrightarrow> j = i \<or> pool s j \<noteq> None" for j using assms(3) by (auto simp: dom_def)
  have live: "at_place s pl j \<Longrightarrow> pool s j \<noteq> None" for pl j using assms(1) by (auto simp: placed_def)
  have "\<forall>i pl. at_place t pl i \<longrightarrow> pool t i \<noteq> None" using d live assms(2) by metis
  moreover have "\<forall>j. pool t j \<noteq> None \<longrightarrow> (\<exists>pl. at_place t pl j) \<and> j < tid t"
    using d assms(1,2,4,5) unfolding placed_def by (metis order_less_le_trans)
  moreover have "\<forall>i pl pl'. at_place t pl i \<longrightarrow> at_place t pl' i \<longrightarrow> pl = pl'"
    using assms(1,2) unfolding placed_def by metis
  moreover have "\<forall>p j. j \<in> set (runq t p) \<longrightarrow> p = j mod n_partition t"
    using r assms(1,6,9) unfolding placed_def by metis
  moreover have "\<forall>j c. spawns t j = Some (Fetched c) \<longrightarrow> pool t j = None \<and> j < tid t"
    using d assms(1,4,10) unfolding placed_def by (metis order_less_le_trans)
  moreover have "\<forall>p. distinct (runq t p)" "\<forall>c. distinct (waitq t c)" using assms(7,8) by blast+
  ultimately show ?thesis unfolding placed_def by (intro conjI)
qed

lemma placed_remove:
  assumes "placed s" "\<And>pl j. at_place t pl j = (j \<noteq> i \<and> at_place s pl j)"
    "pool t = (pool s)(i := None)" "tid t = tid s" "n_partition t = n_partition s"
    "\<And>p. distinct (runq t p)" "\<And>c. distinct (waitq t c)" "spawns t = spawns s"
  shows "placed t"
proof -
  have "j \<in> set (runq t p) \<Longrightarrow> j \<in> set (runq s p)" for p j using assms(2) [of "InRunq p" j] by simp
  then have "\<forall>p j. j \<in> set (runq t p) \<longrightarrow> p = j mod n_partition t" using assms(1,5) unfolding placed_def by metis
  moreover have "\<forall>j pl. at_place t pl j \<longrightarrow> pool t j \<noteq> None" "\<forall>j. pool t j \<noteq> None \<longrightarrow> (\<exists>pl. at_place t pl j) \<and> j < tid t"
    "\<forall>j pl pl'. at_place t pl j \<longrightarrow> at_place t pl' j \<longrightarrow> pl = pl'"
    using assms(1-4) unfolding placed_def by (metis fun_upd_apply)+
  moreover have "\<forall>j b. spawns t j = Some (Fetched b) \<longrightarrow> pool t j = None \<and> j < tid t"
    using assms(1,3,4,8) unfolding placed_def by simp
  moreover have "\<forall>p. distinct (runq t p)" "\<forall>c. distinct (waitq t c)" using assms(6,7) by blast+
  ultimately show ?thesis unfolding placed_def by (intro conjI)
qed

lemma placed_init: "placed (sched_init n :: ('e, 'v) sched)"
proof -
  let ?s = "sched_init n :: ('e, 'v) sched"
  have "\<not> at_place ?s pl i" for pl i by (cases pl) (simp_all add: sched_init_def)
  moreover have "pool ?s = (\<lambda>_. None)" "runq ?s = (\<lambda>_. [])" "waitq ?s = (\<lambda>_. [])" "spawns ?s = (\<lambda>_. None)"
    by (simp_all add: sched_init_def)
  ultimately show ?thesis by (simp add: placed_def)
qed

lemma placed_distinct: "placed s \<Longrightarrow> distinct (runq s p)" "placed s \<Longrightarrow> distinct (waitq s c)"
  by (simp_all add: placed_def)

lemma placed_unique: "placed s \<Longrightarrow> at_place s pl i \<Longrightarrow> at_place s pl' i \<Longrightarrow> pl = pl'"
  unfolding placed_def by blast

lemma placed_elsewhere: "placed s \<Longrightarrow> at_place s pl i \<Longrightarrow> pl' \<noteq> pl \<Longrightarrow> \<not> at_place s pl' i"
  using placed_unique by metis

lemma placed_not_fetched: "placed s \<Longrightarrow> at_place s pl i \<Longrightarrow> spawns s j = Some (Fetched b) \<Longrightarrow> j \<noteq> i"
  unfolding placed_def by blast

lemma placed_pool: "placed s \<Longrightarrow> at_place s pl i \<Longrightarrow> \<exists>t. pool s i = Some t"
  unfolding placed_def by blast

lemma placed_below: "placed s \<Longrightarrow> at_place s pl i \<Longrightarrow> i < tid s"
  unfolding placed_def by metis

lemma placed_fresh: "placed s \<Longrightarrow> tid s \<le> i \<Longrightarrow> \<not> at_place s pl i"
  using placed_below by fastforce

lemma slot_Inr: "slot i s = Inr p \<longleftrightarrow> n_partition s \<noteq> 0 \<and> p = i mod n_partition s"
  by (auto simp: slot_def)

lemma push_task_Inr:
  "push_task i s = Inr t \<longleftrightarrow> n_partition s \<noteq> 0 \<and>
     t = s\<lparr>runq := (runq s)(i mod n_partition s := runq s (i mod n_partition s) @ [i]),
           emitted := emit_signal (i mod n_partition s) s\<rparr>"
  by (auto simp: push_task_def and_then_Inr slot_Inr)

lemma placed_fetch:
  assumes "placed s"
  shows "placed (fetch_id b s)"
proof -
  have "spawns s (tid s) \<noteq> Some Allocated" using placed_fresh [OF assms order_refl, of WithCreator] by simp
  then have at: "at_place (fetch_id b s) pl j = at_place s pl j" for pl j
    by (cases pl) (auto simp: fetch_id_def)
  have "pool s (tid s) = None" using assms unfolding placed_def by blast
  then show ?thesis using assms unfolding placed_def at by (auto simp: fetch_id_def less_Suc_eq)
qed

lemma placed_allocate:
  assumes "placed s" "spawns s i = Some (Fetched b)" "allocate i b s = Inr t"
  shows "placed t"
proof -
  have i: "pool s i = None" "i < tid s" using assms(1,2) unfolding placed_def by blast+
  then have out: "\<not> at_place s pl i" for pl using placed_pool [OF assms(1), of pl i] by auto
  have t: "t = allocator_create i b (s\<lparr>spawns := (spawns s)(i \<mapsto> Allocated)\<rparr>)"
    using assms(3) by (auto simp: allocate_def and_then_Inr)
  show ?thesis
  proof (rule placed_move [OF assms(1), of _ i WithCreator])
    fix pl j show "at_place t pl j = (if j = i then pl = WithCreator else at_place s pl j)"
      using out [of pl] by (cases pl) (auto simp: t allocator_create_def)
  qed (use placed_distinct [OF assms(1)] i in \<open>auto simp: t allocator_create_def split: if_splits\<close>)
qed

lemma placed_push:
  assumes "placed s" "spawns s i = Some Allocated" "push_new i s = Inr t"
  shows "placed t"
proof -
  let ?p = "i mod n_partition s"
  have at: "at_place s WithCreator i" using assms(2) by simp
  note out = placed_elsewhere [OF assms(1) at]
  have t: "t = s\<lparr>spawns := (spawns s)(i := None), runq := (runq s)(?p := runq s ?p @ [i]), emitted := emit_signal ?p s\<rparr>"
    using assms(3) by (auto simp: push_new_def push_task_Inr emit_signal_def)
  show ?thesis
  proof (rule placed_move [OF assms(1), of _ i "InRunq ?p"])
    fix pl j show "at_place t pl j = (if j = i then pl = InRunq ?p else at_place s pl j)"
      using out [of pl] by (cases pl) (auto simp: t)
  next
    fix p show "distinct (runq t p)" using placed_distinct(1) [OF assms(1)] out [of "InRunq ?p"] by (auto simp: t)
  next
    show "dom (pool t) = insert i (dom (pool s))" using placed_pool [OF assms(1) at] by (auto simp: t)
  qed (use placed_distinct(2) [OF assms(1)] placed_below [OF assms(1) at] t in \<open>auto split: if_splits\<close>)
qed

lemma placed_create:
  assumes "placed s" "create_scheduled b s = Inr t"
  shows "placed t"
proof -
  obtain u where u: "allocate (tid s) b (fetch_id b s) = Inr u" "push_new (tid s) u = Inr t"
    using assms(2) by (auto simp: create_scheduled_def and_then_Inr)
  have "placed u" by (rule placed_allocate [OF placed_fetch [OF assms(1)] _ u(1)]) (simp add: fetch_id_def)
  then show ?thesis
    by (rule placed_push [OF _ _ u(2)]) (use u(1) in \<open>auto simp: allocate_def and_then_Inr allocator_create_def\<close>)
qed

lemma take_task_Inr:
  assumes "take_task w i s = Inr (ok, t)"
  obtains (miss) "ok = False" "t = s" "n_partition s \<noteq> 0" "runq s (i mod n_partition s) = []"
  | (hit) j q where "ok = True" "n_partition s \<noteq> 0" "runq s (i mod n_partition s) = j # q"
      "t = s\<lparr>runq := (runq s)(i mod n_partition s := q), running := (running s)(w := Some j),
         pool := (pool s)(j := map_option (\<lambda>t. t\<lparr>execute_cnt := Suc (execute_cnt t)\<rparr>) (pool s j))\<rparr>"
  using assms
  by (auto simp: take_task_def pop_task_def and_then_Inr slot_Inr split: list.splits)

lemma placed_take:
  assumes "placed s" "running s w = None" "take_task w i s = Inr (ok, t)"
  shows "placed t"
  using assms(3)
proof (cases rule: take_task_Inr)
  case miss
  with assms show ?thesis by simp
next
  case (hit j q)
  let ?p = "i mod n_partition s"
  have at: "at_place s (InRunq ?p) j" using hit by simp
  have dq: "distinct (j # q)" using placed_distinct(1) [OF assms(1), of ?p] hit by simp
  show ?thesis
  proof (rule placed_move [OF assms(1), of _ j "OnWorker w"])
    fix pl k show "at_place t pl k = (if k = j then pl = OnWorker w else at_place s pl k)"
      using placed_elsewhere [OF assms(1) at, of pl] dq assms(2) hit(3) by (cases pl) (auto simp: hit(4))
  next
    show "dom (pool t) = insert j (dom (pool s))"
      using placed_pool [OF assms(1) at] by (auto simp: hit(4))
  next
    fix p show "distinct (runq t p)" using placed_distinct(1) [OF assms(1)] dq by (simp add: hit(4))
  qed (use placed_distinct(2) [OF assms(1)] placed_below [OF assms(1) at] placed_not_fetched [OF assms(1) at] hit(4) in auto)
qed

lemma placed_notify:
  assumes "placed s" "notify c s = Inr t"
  shows "placed t"
proof (cases "waitq s c")
  case Nil
  with assms show ?thesis by (simp add: notify_def)
next
  case (Cons i q)
  let ?p = "i mod n_partition s"
  have t: "t = s\<lparr>waitq := (waitq s)(c := q), runq := (runq s)(?p := runq s ?p @ [i]),
      emitted := emit_signal ?p s\<rparr>"
    using assms(2) Cons by (auto simp: notify_def push_task_Inr emit_signal_def)
  have at: "at_place s (InWaitq c) i" using Cons by simp
  have dq: "distinct (i # q)" using placed_distinct(2) [OF assms(1), of c] Cons by simp
  show ?thesis
  proof (rule placed_move [OF assms(1), of _ i "InRunq ?p"])
    fix pl k show "at_place t pl k = (if k = i then pl = InRunq ?p else at_place s pl k)"
      using placed_elsewhere [OF assms(1) at, of pl] dq Cons by (cases pl) (auto simp: t)
  next
    show "dom (pool t) = insert i (dom (pool s))"
      using placed_pool [OF assms(1) at] by (auto simp: t)
  next
    fix p show "distinct (runq t p)"
      using placed_distinct(1) [OF assms(1)] placed_elsewhere [OF assms(1) at, of "InRunq ?p"] by (auto simp: t)
  next
    fix c' show "distinct (waitq t c')" using placed_distinct(2) [OF assms(1)] dq by (simp add: t)
  qed (use placed_below [OF assms(1) at] placed_not_fetched [OF assms(1) at] t in auto)
qed

lemma end_task_Inr:
  assumes "end_task w s = Inr t"
  obtains (complete) i k v where "running s w = Some i" "pool s i = Some k" "slice (fn k) = Completed v"
      "t = s\<lparr>running := (running s)(w := None), pool := (pool s)(i := None)\<rparr>"
  | (yielded) i k b where "running s w = Some i" "pool s i = Some k" "slice (fn k) = Yielded b" "n_partition s \<noteq> 0"
      "t = s\<lparr>running := (running s)(w := None),
         pool := (pool s)(i := Some (k\<lparr>fn := b, yield_cnt := Suc (yield_cnt k)\<rparr>)),
         runq := (runq s)(i mod n_partition s := runq s (i mod n_partition s) @ [i]),
         emitted := emit_signal (i mod n_partition s) s\<rparr>"
  | (waits) i k c b where "running s w = Some i" "pool s i = Some k" "slice (fn k) = Waits c b"
      "t = s\<lparr>running := (running s)(w := None),
         pool := (pool s)(i := Some (k\<lparr>fn := b, suspend_cnt := Suc (suspend_cnt k)\<rparr>)),
         waitq := (waitq s)(c := waitq s c @ [i])\<rparr>"
  using assms
  by (auto simp: end_task_def Let_def push_task_Inr allocator_destroy_def emit_signal_def split: option.splits slice_end.splits)

lemma placed_end:
  assumes "placed s" "end_task w s = Inr t"
  shows "placed t"
proof -
  have moved: "placed t"
    if i: "running s w = Some i" and d: "dom (pool t) = insert i (dom (pool s))"
      and f: "tid t = tid s" "n_partition t = n_partition s" "spawns t = spawns s"
      and at: "\<And>pl j. at_place t pl j = (if j = i then pl = b else at_place s pl j)"
      and ds: "\<And>p. distinct (runq t p)" "\<And>c. distinct (waitq t c)"
      and b: "\<And>p. b = InRunq p \<Longrightarrow> p = i mod n_partition s" for i b
  proof -
    have "i < tid s" using placed_below [OF assms(1), of "OnWorker w" i] i by simp
    moreover have "j \<noteq> i" if "spawns s j = Some (Fetched c)" for j c
      using placed_not_fetched [OF assms(1) _ that, of "OnWorker w" i] i by simp
    ultimately show ?thesis using f by (intro placed_move [OF assms(1) at d _ _ _ ds b]) auto
  qed
  have u: "\<not> at_place s pl i" if "running s w = Some i" "pl \<noteq> OnWorker w" for pl i
    using placed_elsewhere [OF assms(1), of "OnWorker w" i pl] that by simp
  from assms(2) show ?thesis
  proof (cases rule: end_task_Inr)
    case (complete i k v)
    show ?thesis
    proof (rule placed_remove [OF assms(1), of _ i])
      fix pl j show "at_place t pl j = (j \<noteq> i \<and> at_place s pl j)"
        using u [OF complete(1), of pl] complete(1) by (cases pl) (auto simp: complete(4))
    qed (use placed_distinct [OF assms(1)] complete(4) in auto)
  next
    case (yielded i k b)
    have nq: "i \<notin> set (runq s p)" for p using u [OF yielded(1), of "InRunq p"] by auto
    show ?thesis
    proof (rule moved [OF yielded(1)])
      fix pl j show "at_place t pl j = (if j = i then pl = InRunq (i mod n_partition s) else at_place s pl j)"
        using u [OF yielded(1), of pl] yielded(1) by (cases pl) (auto simp: yielded(5))
    qed (use placed_distinct [OF assms(1)] nq yielded(2,5) in auto)
  next
    case (waits i k c b)
    have nq: "i \<notin> set (waitq s c')" for c' using u [OF waits(1), of "InWaitq c'"] by auto
    show ?thesis
    proof (rule moved [OF waits(1)])
      fix pl j show "at_place t pl j = (if j = i then pl = InWaitq c else at_place s pl j)"
        using u [OF waits(1), of pl] waits(1) by (cases pl) (auto simp: waits(4))
    qed (use placed_distinct [OF assms(1)] nq waits(2,4) in auto)
  qed
qed

lemma sched_reach_placed: "sched_reach n s \<Longrightarrow> placed s"
  by (induction rule: sched_reach.induct)
    (auto intro: placed_init placed_fetch placed_allocate placed_push placed_take placed_end placed_notify)

text \<open>
  C5: No task is lost, duplicated or run twice at a time: in every reachable state of a
  context, whatever the order of worker steps, notifications and the steps of any number of
  spawns, each live task is in exactly one place (a run queue, a condition's queue, one worker,
  or the thread that has allocated it and not yet pushed it) and occurs there once, and its
  run queue is that of its own partition.
\<close>

theorem task_in_exactly_one_place:
  assumes "sched_reach n s" "pool s i = Some k"
  shows "(\<exists>!pl. at_place s pl i) \<and> count_list (runq s p) i \<le> 1 \<and> count_list (waitq s c) i \<le> 1 \<and>
    (i \<in> set (runq s p) \<longrightarrow> p = i mod n_partition s)"
proof -
  have pl: "placed s" by (rule sched_reach_placed [OF assms(1)])
  have "\<exists>pl. at_place s pl i" using pl assms(2) unfolding placed_def by blast
  with placed_unique [OF pl] count_list_le_1 placed_distinct [OF pl] pl show ?thesis
    unfolding placed_def by metis
qed

section \<open>A worker's batch\<close>

lemma try_task_Inr:
  assumes "try_task w i s = Inr (ok, t)"
  obtains (miss) "ok = False" "t = s" "n_partition s \<noteq> 0" "runq s (i mod n_partition s) = []"
  | (hit) s1 where "ok = True" "take_task w i s = Inr (True, s1)" "end_task w s1 = Inr t"
proof -
  from assms obtain b s1 where s1: "take_task w i s = Inr (b, s1)"
    "(if b then and_then (end_task w s1) (\<lambda>s''. Inr (True, s'')) else Inr (False, s1)) = Inr (ok, t)"
    by (auto simp: try_task_def and_then_Inr)
  show ?thesis
  proof (cases b)
    case True
    with s1 show ?thesis by (intro hit [of s1]) (auto simp: and_then_Inr)
  next
    case False
    with s1 show ?thesis by (auto elim: take_task_Inr intro: miss)
  qed
qed

lemma end_task_idle: "end_task w s = Inr t \<Longrightarrow> running t w = None"
  by (erule end_task_Inr) simp_all

lemma end_task_n_partition: "end_task w s = Inr t \<Longrightarrow> n_partition t = n_partition s"
  by (erule end_task_Inr) simp_all

lemma take_task_n_partition: "take_task w i s = Inr (ok, t) \<Longrightarrow> n_partition t = n_partition s"
  by (erule take_task_Inr) simp_all

lemma try_task_n_partition: "try_task w i s = Inr (ok, t) \<Longrightarrow> n_partition t = n_partition s"
  using take_task_n_partition end_task_n_partition by (metis try_task_Inr)

text \<open>A worker that has no current task, in a context with partitions.\<close>

definition idle_in :: "nat \<Rightarrow> ('e, 'v) sched \<Rightarrow> bool" where
  "idle_in w s \<longleftrightarrow> placed s \<and> running s w = None \<and> n_partition s \<noteq> 0"

interpretation worker: batch_invariant "try_task w" "(=)" "idle_in w" for w
proof
  fix i and s s' :: "('c, 'd) sched" assume "try_task w i s = Inr (False, s')"
  then show "s = s'" by (auto elim: try_task_Inr)
next
  fix i ok and s s' :: "('c, 'd) sched" assume s: "idle_in w s" and t: "try_task w i s = Inr (ok, s')"
  from t show "idle_in w s'"
  proof (cases rule: try_task_Inr)
    case miss
    with s show ?thesis by simp
  next
    case (hit s1)
    with s try_task_n_partition [OF t] show ?thesis
      by (auto simp: idle_in_def end_task_idle intro: placed_end placed_take)
  qed
qed simp_all

lemma try_task_fails:
  assumes "idle_in w s" "try_task w i s = Inl e"
  shows "\<exists>ex. e = Uncaught ex"
proof -
  let ?p = "i mod n_partition s"
  obtain j q where q: "runq s ?p = j # q"
    using assms by (cases "runq s ?p") (auto simp: try_task_def take_task_def pop_task_def slot_def idle_in_def)
  then have "at_place s (InRunq ?p) j" by simp
  with assms(1) placed_pool obtain k where k: "pool s j = Some k" by (metis idle_in_def)
  then show ?thesis using assms q
    by (auto simp: try_task_def take_task_def pop_task_def slot_def idle_in_def end_task_def Let_def push_task_def
        allocator_destroy_def and_then_def split: slice_end.splits if_splits)
qed

lemma run_scheduled_result:
  fixes s :: "('e, 'v) sched"
  assumes "idle_in w s" "batch > 0"
  shows "case run_scheduled w batch s of
      Inl e \<Rightarrow> \<exists>ex. e = Uncaught ex
    | Inr (cnt, t) \<Rightarrow> cnt \<le> batch \<and> idle_in w t \<and> (cnt = 0 \<longrightarrow> t = s \<and> (\<forall>p < n_partition s. runq s p = []))"
proof (cases "run_scheduled w batch s")
  case (Inl e)
  then obtain s' :: "('e, 'v) sched" and i where "idle_in w s'" "try_task w i s' = Inl e"
    using worker.batch_fails [OF assms(1) Inl [unfolded run_scheduled_def]] by blast
  with Inl try_task_fails show ?thesis by fastforce
next
  case (Inr r)
  then obtain cnt t where r: "r = (cnt, t)" "batch_loop (n_partition s) batch w (try_task w) s = Inr (cnt, t)"
    by (cases r) (auto simp: run_scheduled_def)
  have "t = s \<and> runq s p = []" if c: "cnt = 0" "p < n_partition s" for p
  proof -
    obtain i where i: "i < n_partition s" "(w + i) mod n_partition s = p" using rotate_index [OF c(2)] by blast
    with worker.batch_none [OF r(2) [unfolded c(1)] assms(2)]
    have "t = s" "try_task w (w + i) s = Inr (False, s)" by (auto simp: worker.missed_def)
    with i(2) show ?thesis by (auto elim: try_task_Inr)
  qed
  with worker.batch_le [OF r(2)] worker.batch_good [OF assms(1) r(2)] assms(1)
  have "cnt \<le> batch \<and> idle_in w t \<and> (cnt = 0 \<longrightarrow> t = s \<and> (\<forall>p < n_partition s. runq s p = []))"
    by (auto simp: idle_in_def)
  with Inr r(1) show ?thesis by simp
qed

text \<open>
  C23: One call of \<open>run_scheduled\<close> by an idle worker runs at most a batch of tasks, reports
  zero only if every run queue of the context is empty (and then changes nothing), leaves the
  worker idle with every task in its place, and can fail only by an exception that leaves a
  task: never by a missing task, a missing pool entry or a partition out of range.
\<close>

theorem run_scheduled_correct:
  fixes s :: "('e, 'v) sched"
  assumes "idle_in w s" "batch > 0"
  shows "case run_scheduled w batch s of
      Inl e \<Rightarrow> \<exists>ex. e = Uncaught ex
    | Inr (cnt, t) \<Rightarrow> cnt \<le> batch \<and> idle_in w t \<and> (cnt = 0 \<longrightarrow> t = s \<and> (\<forall>p < n_partition s. runq s p = []))"
  by (rule run_scheduled_result [OF assms])

theorem run_scheduled_correct_witness:
  "\<exists>s :: (nat, int) sched. \<exists>i. create_scheduled (Leaf Yield (Return 3)) (sched_init 2) = Inr s \<and> idle_in 1 s \<and>
     (case run_scheduled 1 5 s of Inl e \<Rightarrow> False | Inr (cnt, t) \<Rightarrow> cnt \<le> 5 \<and> idle_in 1 t \<and> i \<in> set (runq t 0))"
proof -
  let ?b = "Leaf Yield (Return 3) :: (request, nat, int) body"
  obtain s :: "(nat, int) sched" where s: "create_scheduled ?b (sched_init 2) = Inr s"
    by (simp add: create_scheduled_unfold sched_init_def slot_def push_task_def allocator_create_def)
  have idle: "idle_in 1 s"
    using placed_create [OF placed_init s] s
    by (auto simp: idle_in_def create_scheduled_unfold sched_init_def slot_def push_task_def allocator_create_def)
  have "\<exists>t. run_scheduled 1 5 s = Inr (1, t) \<and> 0 \<in> set (runq t 0)" using s
    by (auto simp: create_scheduled_unfold sched_init_def slot_def push_task_def allocator_create_def run_scheduled_def
        batch_loop_def eval_nat_numeral try_task_def take_task_def pop_task_def end_task_def slice.simps Let_def)
  with run_scheduled_correct [OF idle, of 5] s idle show ?thesis by auto
qed

theorem task_in_exactly_one_place_witness:
  "\<exists>s :: (nat, int) sched. create_scheduled (Return 3) (sched_init 2) = Inr s \<and> (\<exists>!pl. at_place s pl 0)"
proof -
  obtain s :: "(nat, int) sched" where s: "create_scheduled (Return 3) (sched_init 2) = Inr s"
    by (simp add: create_scheduled_unfold sched_init_def slot_def push_task_def allocator_create_def)
  moreover have "\<exists>k. pool s 0 = Some k" using s
    by (auto simp: create_scheduled_unfold sched_init_def slot_def push_task_def allocator_create_def)
  ultimately show ?thesis
    using task_in_exactly_one_place [OF reach_spawn [OF reach_init s]] by blast
qed

section \<open>Progress of queued tasks\<close>

text \<open>A task has run since: it is gone, or its execution count has grown.\<close>

definition ran_since :: "('e, 'v) sched \<Rightarrow> ('e, 'v) sched \<Rightarrow> nat \<Rightarrow> bool" where
  "ran_since s t i \<longleftrightarrow>
     (case pool t i of None \<Rightarrow> True
      | Some k' \<Rightarrow> (case pool s i of None \<Rightarrow> False | Some k \<Rightarrow> execute_cnt k < execute_cnt k'))"

definition no_rewind :: "('e, 'v) sched \<Rightarrow> ('e, 'v) sched \<Rightarrow> bool" where
  "no_rewind s t \<longleftrightarrow>
     (\<forall>i k'. pool t i = Some k' \<longrightarrow> (\<exists>k. pool s i = Some k \<and> execute_cnt k \<le> execute_cnt k'))"

lemma no_rewind_refl [simp]: "no_rewind s s"
  by (simp add: no_rewind_def)

lemma no_rewind_trans: "no_rewind s t \<Longrightarrow> no_rewind t u \<Longrightarrow> no_rewind s u"
  unfolding no_rewind_def by (meson order_trans)

lemma ran_since_later: "ran_since s t i \<Longrightarrow> no_rewind t u \<Longrightarrow> ran_since s u i"
  unfolding ran_since_def no_rewind_def by (fastforce split: option.splits)

lemma ran_since_earlier: "ran_since t u i \<Longrightarrow> no_rewind s t \<Longrightarrow> ran_since s u i"
  unfolding ran_since_def no_rewind_def by (fastforce split: option.splits)

lemma end_task_no_rewind: "end_task w s = Inr t \<Longrightarrow> no_rewind s t"
  by (erule end_task_Inr) (auto simp: no_rewind_def)

lemma take_task_no_rewind: "take_task w i s = Inr (ok, t) \<Longrightarrow> no_rewind s t"
  by (erule take_task_Inr) (auto simp: no_rewind_def split: if_splits)

lemma try_task_no_rewind: "try_task w i s = Inr (ok, t) \<Longrightarrow> no_rewind s t"
  using take_task_no_rewind end_task_no_rewind no_rewind_trans by (metis no_rewind_refl try_task_Inr)

interpretation order: batch_order "try_task w" "(=)" no_rewind for w
  by unfold_locales
    (auto intro: no_rewind_trans elim: try_task_no_rewind)

text \<open>Taking the head of a run queue runs it, and the rest of the queue stays in front.\<close>

lemma try_task_runs_head:
  assumes "idle_in w s" "try_task w i s = Inr (ok, t)" "runq s (i mod n_partition s) = j # q"
  shows "ok \<and> ran_since s t j \<and> (\<exists>r. runq t (i mod n_partition s) = q @ r)"
  using assms(2)
proof (cases rule: try_task_Inr)
  case miss
  with assms(3) show ?thesis by simp
next
  case (hit s1)
  let ?p = "i mod n_partition s"
  have at: "at_place s (InRunq ?p) j" using assms(3) by simp
  with assms(1) placed_pool obtain k where k: "pool s j = Some k" by (metis idle_in_def)
  from hit(2) have s1: "s1 = s\<lparr>runq := (runq s)(?p := q), running := (running s)(w := Some j),
      pool := (pool s)(j := Some (k\<lparr>execute_cnt := Suc (execute_cnt k)\<rparr>))\<rparr>"
    using assms(3) k by (auto elim: take_task_Inr)
  then have "ran_since s s1 j" "runq s1 ?p = q" using k by (simp_all add: ran_since_def)
  moreover have "\<exists>r. runq t ?p = q @ r"
    using hit(3) \<open>runq s1 ?p = q\<close> by (cases rule: end_task_Inr) auto
  ultimately show ?thesis using hit(1) ran_since_later [OF _ end_task_no_rewind [OF hit(3)]] by simp
qed

lemma own_loop_runs:
  assumes "idle_in w s" "own_loop n (try_task w p) s = Inr (cnt, t)" "j \<in> set (take n (runq s (p mod n_partition s)))"
  shows "ran_since s t j"
  using assms
proof (induction n arbitrary: s cnt)
  case 0
  then show ?case by simp
next
  case (Suc n)
  let ?q = "runq s (p mod n_partition s)"
  obtain x q where q: "?q = x # q" using Suc.prems(3) by (cases ?q) auto
  obtain ok s1 where s1: "try_task w p s = Inr (ok, s1)"
    "(if ok then and_then (own_loop n (try_task w p) s1) (\<lambda>(k, s''). Inr (Suc k, s'')) else Inr (0, s1)) = Inr (cnt, t)"
    using Suc.prems(2) by (auto simp: and_then_Inr)
  from try_task_runs_head [OF Suc.prems(1) s1(1) q] obtain r where
    r: "ok" "ran_since s s1 x" "runq s1 (p mod n_partition s) = q @ r" by blast
  then obtain c where c: "own_loop n (try_task w p) s1 = Inr (c, t)" using s1(2) by (auto simp: and_then_Inr)
  have idle: "idle_in w s1" using worker.keeps [OF Suc.prems(1) s1(1)] .
  have n: "n_partition s1 = n_partition s" by (rule try_task_n_partition [OF s1(1)])
  have "no_rewind s1 t" by (rule order.own_loop_leq [OF c])
  show ?case
  proof (cases "j = x")
    case True
    then show ?thesis using ran_since_later r(2) \<open>no_rewind s1 t\<close> by blast
  next
    case False
    with Suc.prems(3) q have "j \<in> set (take n (runq s1 (p mod n_partition s1)))"
      using r(3) n by (auto simp: take_append)
    from Suc.IH [OF idle c this] ran_since_earlier try_task_no_rewind [OF s1(1)] show ?thesis by blast
  qed
qed

text \<open>
  C24: No starvation in a worker's own partition: every task among the first \<open>batch_size\<close> of its run
  queue is executed in that very call of \<open>run_scheduled\<close>, in spite of tasks that yield and
  queue up again behind it.
\<close>

theorem run_scheduled_no_starvation:
  assumes "idle_in w s" "run_scheduled w batch s = Inr (cnt, t)"
    "i \<in> set (take batch (runq s (w mod n_partition s)))"
  shows "ran_since s t i"
proof -
  obtain k s1 where s1: "own_loop batch (try_task w w) s = Inr (k, s1)"
    "(if k = batch then Inr (k, s1) else steal_loop (map (\<lambda>i. w + i) [0..<n_partition s]) batch k (try_task w) s1) = Inr (cnt, t)"
    using assms(2) by (auto simp: run_scheduled_def batch_loop_def and_then_Inr)
  have "no_rewind s1 t" using s1(2) order.steal_loop_leq by (auto split: if_splits)
  with own_loop_runs [OF assms(1) s1(1) assms(3)] show ?thesis by (rule ran_since_later)
qed

theorem run_scheduled_no_starvation_witness:
  "\<exists>(s :: (nat, int) sched) t k. create_scheduled (Leaf Yield (Return 3)) (sched_init 1) = Inr s \<and>
     run_scheduled 0 1 s = Inr (k, t) \<and> ran_since s t 0"
proof -
  let ?b = "Leaf Yield (Return 3) :: (request, nat, int) body"
  obtain s :: "(nat, int) sched" where s: "create_scheduled ?b (sched_init 1) = Inr s"
    by (simp add: create_scheduled_unfold sched_init_def slot_def push_task_def allocator_create_def)
  have idle: "idle_in 0 s" and q: "0 \<in> set (take 1 (runq s (0 mod n_partition s)))"
    using placed_create [OF placed_init s] s
    by (auto simp: idle_in_def create_scheduled_unfold sched_init_def slot_def push_task_def allocator_create_def)
  obtain k t where "run_scheduled 0 1 s = Inr (k, t)" using s
    by (auto simp: create_scheduled_unfold sched_init_def slot_def push_task_def allocator_create_def run_scheduled_def
        batch_loop_def try_task_def take_task_def pop_task_def end_task_def slice.simps Let_def)
  with run_scheduled_no_starvation [OF idle this q] s show ?thesis by blast
qed

section \<open>The pointer queues behind the lists\<close>

lemma scheduler_init_other:
  assumes "unlinked h (RHead p)" "y \<noteq> RHead p" "y \<noteq> RTail p"
  shows "prv (scheduler_init p h) y = prv h y \<and> nxt (scheduler_init p h) y = nxt h y"
  using assms by (simp add: scheduler_init_def link_back_def unlinked_def)

lemma queues_rep_init:
  "(\<forall>p < n. is_queue (RHead p) (RTail p) (fold scheduler_init [0..<n] no_links) []) \<and>
   (\<forall>p \<ge> n. unlinked (fold scheduler_init [0..<n] no_links) (RHead p) \<and>
     unlinked (fold scheduler_init [0..<n] no_links) (RTail p))"
proof (induction n)
  case 0
  then show ?case by (simp add: unlinked_def no_links_def)
next
  case (Suc n)
  define h where "h = fold scheduler_init [0..<n] no_links"
  have step: "fold scheduler_init [0..<Suc n] no_links = scheduler_init n h" by (simp add: h_def)
  note IH = Suc.IH [folded h_def]
  have u: "unlinked h (RHead n)" "unlinked h (RTail n)" using IH by auto
  note other = scheduler_init_other [OF u(1)]
  show ?case unfolding step
  proof (intro conjI allI impI)
    fix p assume "p < Suc n"
    show "is_queue (RHead p) (RTail p) (scheduler_init n h) []"
    proof (cases "p = n")
      case True
      then show ?thesis using u by (simp add: scheduler_init_def is_queue_init)
    next
      case False
      with \<open>p < Suc n\<close> IH have "is_queue (RHead p) (RTail p) h []" by simp
      then show ?thesis by (rule is_queue_frame) (use other False in auto)
    qed
  next
    fix p assume "Suc n \<le> p"
    then show "unlinked (scheduler_init n h) (RHead p)" "unlinked (scheduler_init n h) (RTail p)"
      using IH other [of "RHead p"] other [of "RTail p"] by (auto simp: unlinked_def)
  qed
qed

text \<open>
  C32: The lists of the scheduling model are what the pointers of \<open>BaseLinked\<close> hold: the
  sentinels of a new context represent empty queues, and if the run queues are represented then
  \<open>push\<close> of a task that is in no queue and \<open>pop\<close> by pointer rewiring answer the same and
  represent the queues after it, for all partitions at once.
\<close>

theorem run_queues_are_linked_lists:
  assumes "queues_rep (n_partition s) h (runq s)"
  shows "queues_rep n (fold scheduler_init [0..<n] no_links) (runq (sched_init n)) \<and>
    (\<forall>i t. (\<forall>p. i \<notin> set (runq s p)) \<longrightarrow> push_task i s = Inr t \<longrightarrow>
      queues_rep (n_partition t) (scheduler_push (i mod n_partition s) i h) (runq t)) \<and>
    (\<forall>i r t. pop_task i s = Inr (r, t) \<longrightarrow>
      fst (scheduler_pop (i mod n_partition s) h) = map_option TaskNode r \<and>
      queues_rep (n_partition t) (snd (scheduler_pop (i mod n_partition s) h)) (runq t))"
proof (intro conjI allI impI)
  show "queues_rep n (fold scheduler_init [0..<n] no_links) (runq (sched_init n))"
    using queues_rep_init [of n] by (simp add: queues_rep_def sched_init_def)
next
  fix i t assume "\<forall>p. i \<notin> set (runq s p)" "push_task i s = Inr t"
  then show "queues_rep (n_partition t) (scheduler_push (i mod n_partition s) i h) (runq t)"
    using queues_rep_push [OF assms, of "i mod n_partition s" i] by (auto simp: push_task_Inr)
next
  fix i r t assume pop: "pop_task i s = Inr (r, t)"
  let ?p = "i mod n_partition s"
  have "fst (scheduler_pop ?p h) = map_option TaskNode r \<and>
      queues_rep (n_partition t) (snd (scheduler_pop ?p h)) (runq t)"
  proof (cases "runq s ?p")
    case Nil
    with pop queues_rep_pop_empty [OF assms, of ?p] assms show ?thesis
      by (auto simp: pop_task_def and_then_Inr slot_Inr)
  next
    case (Cons j q)
    with pop queues_rep_pop [OF assms, of ?p] show ?thesis
      by (auto simp: pop_task_def and_then_Inr slot_Inr)
  qed
  then show "fst (scheduler_pop ?p h) = map_option TaskNode r"
    "queues_rep (n_partition t) (snd (scheduler_pop ?p h)) (runq t)" by simp_all
qed

theorem run_queues_are_linked_lists_witness:
  "\<exists>t :: (nat, int) sched. push_task 7 (sched_init 2) = Inr t \<and>
     queues_rep (n_partition t) (scheduler_push 1 7 (fold scheduler_init [0..<2] no_links)) (runq t)"
proof -
  let ?s = "sched_init 2 :: (nat, int) sched"
  have "queues_rep (n_partition ?s) (fold scheduler_init [0..<2] no_links) (runq ?s)"
    using queues_rep_init [of 2] by (simp add: queues_rep_def sched_init_def)
  note rep = run_queues_are_linked_lists [OF this, THEN conjunct2, THEN conjunct1, rule_format, of 7]
  obtain t where t: "push_task 7 ?s = Inr t" by (simp add: push_task_Inr sched_init_def)
  have "7 mod n_partition ?s = 1" "\<forall>p. 7 \<notin> set (runq ?s p)" by (simp_all add: sched_init_def)
  with rep [OF _ t] t show ?thesis by (intro exI [of _ t]) (simp del: One_nat_def)
qed

end
