(* ===== verification/Handoff.thy ===== *)
theory Handoff
  imports Prelude
begin

text \<open>
  A semaphore whose tasks belong to several contexts, and what happens to its wakeups when one
  context is shut down (\<open>Condition::_remove\<close>, \<open>SchedContext::final_schedule\<close> in
  \<open>src/core/schedule.cpp\<close>). A shut-down context destroys its waiting tasks; a wakeup already
  given to one of them must go to another waiter. The code decides this with one field,
  \<open>_scheduled_ctx\<close>, the context of the last task woken: that is enough for a mutex, and loses a
  wakeup from two permits on. Critical sections are single steps here; their interleaving is the
  subject of the theory of semaphores.
\<close>

section \<open>State and operations\<close>

text \<open>
  A task is its context and its id. \<open>notified\<close> holds the tasks that were moved to a run queue
  and have not run since: their \<open>waiting_cond\<close> is still set.
\<close>

type_synonym ctx_task = "nat \<times> nat"

record handoff =
  permits :: nat
  blocked :: "ctx_task list"
  notified :: "ctx_task list"
  scheduled_ctx :: "nat option"

definition new_handoff :: "nat \<Rightarrow> handoff" where
  "new_handoff k = \<lparr>permits = k, blocked = [], notified = [], scheduled_ctx = None\<rparr>"

definition wake_first :: "handoff \<Rightarrow> handoff" where
  "wake_first h =
     (case blocked h of
        [] \<Rightarrow> h
      | x # q \<Rightarrow> h\<lparr>blocked := q, notified := notified h @ [x], scheduled_ctx := Some (fst x)\<rparr>)"

definition release_permit :: "handoff \<Rightarrow> handoff" where
  "release_permit h = wake_first (h\<lparr>permits := permits h + 1\<rparr>)"

text \<open>The loop body of \<open>aquire\<close>: take a permit or block.\<close>

definition try_aquire :: "ctx_task \<Rightarrow> handoff \<Rightarrow> handoff" where
  "try_aquire x h =
     (if permits h > 0 then h\<lparr>permits := permits h - 1\<rparr> else h\<lparr>blocked := blocked h @ [x]\<rparr>)"

text \<open>A woken task runs: the end of \<open>Condition::wait\<close>, then the loop of \<open>aquire\<close> again.\<close>

definition resume_waiter :: "ctx_task \<Rightarrow> handoff \<Rightarrow> handoff" where
  "resume_waiter x h = try_aquire x (h\<lparr>notified := remove1 x (notified h), scheduled_ctx := None\<rparr>)"

text \<open>\<open>Condition::_remove\<close>: unlink the task from whichever queue it is in.\<close>

definition remove_waiter :: "ctx_task \<Rightarrow> handoff \<Rightarrow> handoff" where
  "remove_waiter x h =
     (let h' = h\<lparr>blocked := remove1 x (blocked h), notified := remove1 x (notified h)\<rparr>
      in if scheduled_ctx h = None \<or> scheduled_ctx h = Some (fst x) then wake_first h' else h')"

definition waits :: "handoff \<Rightarrow> ctx_task \<Rightarrow> bool" where
  "waits h x \<longleftrightarrow> x \<in> set (blocked h) \<or> x \<in> set (notified h)"

text \<open>\<open>final_schedule\<close> over the pool of a partition of the context.\<close>

definition final_schedule :: "ctx_task list \<Rightarrow> handoff \<Rightarrow> handoff" where
  "final_schedule ts h = fold (\<lambda>x h. if waits h x then remove_waiter x h else h) ts h"

text \<open>
  Every order of events, for a semaphore used in pairs with \<open>n\<close> permits in all: \<open>release\<close>
  never takes the count above \<open>n\<close>.
\<close>

inductive handoff_reach :: "nat \<Rightarrow> handoff \<Rightarrow> bool" for n where
  h_init: "k \<le> n \<Longrightarrow> handoff_reach n (new_handoff k)"
| h_aquire: "handoff_reach n h \<Longrightarrow> \<not> waits h x \<Longrightarrow> handoff_reach n (try_aquire x h)"
| h_release: "handoff_reach n h \<Longrightarrow> permits h < n \<Longrightarrow> handoff_reach n (release_permit h)"
| h_resume: "handoff_reach n h \<Longrightarrow> x \<in> set (notified h) \<Longrightarrow> handoff_reach n (resume_waiter x h)"
| h_shutdown: "handoff_reach n h \<Longrightarrow> handoff_reach n (final_schedule ts h)"

text \<open>A permit is free, a task sleeps, and nobody is on the way to take it.\<close>

definition lost_wakeup :: "handoff \<Rightarrow> bool" where
  "lost_wakeup h \<longleftrightarrow> permits h > 0 \<and> blocked h \<noteq> [] \<and> notified h = []"

section \<open>One permit: a mutex\<close>

text \<open>
  While the permit is free and a task sleeps, some woken task is one that \<open>_remove\<close> would
  replace if it were destroyed.
\<close>

definition replaceable :: "handoff \<Rightarrow> ctx_task \<Rightarrow> bool" where
  "replaceable h x \<longleftrightarrow> scheduled_ctx h = None \<or> scheduled_ctx h = Some (fst x)"

definition covered :: "handoff \<Rightarrow> bool" where
  "covered h \<longleftrightarrow> (permits h > 0 \<and> blocked h \<noteq> [] \<longrightarrow> (\<exists>x \<in> set (notified h). replaceable h x))"

lemma covered_wake_first: "covered (wake_first h)" if "blocked h \<noteq> []"
  using that by (auto simp: covered_def wake_first_def replaceable_def split: list.splits)

lemma covered_no_blocked: "blocked h = [] \<Longrightarrow> covered (wake_first h)"
  by (simp add: covered_def wake_first_def)

lemma covered_no_permits: "permits h = 0 \<Longrightarrow> covered h"
  by (simp add: covered_def)

lemma wake_first_permits [simp]: "permits (wake_first h) = permits h"
  by (auto simp: wake_first_def split: list.splits)

lemma remove_waiter_permits [simp]: "permits (remove_waiter x h) = permits h"
  by (simp add: remove_waiter_def Let_def)

lemma covered_remove:
  assumes "covered h"
  shows "covered (remove_waiter x h)"
proof (cases "replaceable h x")
  case True
  then have "\<exists>h'. remove_waiter x h = wake_first h'" by (auto simp: remove_waiter_def replaceable_def Let_def)
  then show ?thesis using covered_wake_first covered_no_blocked by metis
next
  case False
  have "y \<noteq> x" if "replaceable h y" for y using False that by (auto simp: replaceable_def)
  with False assms show ?thesis
    by (auto simp: remove_waiter_def replaceable_def covered_def Let_def dest: notin_set_remove1 in_set_remove1 [THEN iffD2])
qed

lemma final_schedule_permits [simp]: "permits (final_schedule ts h) = permits h"
  unfolding final_schedule_def by (induction ts arbitrary: h) simp_all

lemma covered_final_schedule: "covered h \<Longrightarrow> covered (final_schedule ts h)"
  unfolding final_schedule_def by (induction ts arbitrary: h) (simp_all add: covered_remove)

lemma mutex_covered: "handoff_reach n h \<Longrightarrow> n \<le> 1 \<Longrightarrow> permits h \<le> n \<and> covered h"
proof (induction rule: handoff_reach.induct)
  case (h_release h)
  then show ?case
    using covered_wake_first [of "h\<lparr>permits := permits h + 1\<rparr>"] covered_no_blocked [of "h\<lparr>permits := permits h + 1\<rparr>"]
    by (auto simp: release_permit_def)
next
  case (h_shutdown h ts)
  then show ?case by (simp add: covered_final_schedule)
qed (auto simp: new_handoff_def try_aquire_def resume_waiter_def covered_def)

text \<open>
  C36: A mutex survives shutdown: with one permit, shutting down any contexts at any time never
  loses the wakeup. Whenever the permit is free and a task sleeps, another task has been woken
  and not yet run.
\<close>

theorem mutex_survives_shutdown: "handoff_reach 1 h \<Longrightarrow> \<not> lost_wakeup h"
  using mutex_covered [of 1 h] by (auto simp: lost_wakeup_def covered_def)

theorem mutex_survives_shutdown_witness:
  "\<not> lost_wakeup (final_schedule [(1, 5)] (release_permit (try_aquire (2, 6) (try_aquire (1, 5) (new_handoff 0)))))"
  by (rule mutex_survives_shutdown,
      rule h_shutdown, rule h_release, rule h_aquire, rule h_aquire, rule h_init)
    (simp_all add: try_aquire_def new_handoff_def waits_def)

section \<open>More permits\<close>

text \<open>What shutting down one context does while tasks of two contexts have been woken, the other one's last.\<close>

lemma final_schedule_first:
  assumes "notified h = [x, y]" "scheduled_ctx h = Some (fst y)" "x \<in> set ts" "\<forall>t \<in> set ts. fst t = fst x"
    "\<forall>t \<in> set (y # blocked h). fst t \<noteq> fst x"
  shows "final_schedule ts h = h\<lparr>notified := [y]\<rparr>"
proof -
  have out: "\<not> waits g t" if "notified g = [y]" "blocked g = blocked h" "fst t = fst x" for g t
    using that assms(5) by (auto simp: waits_def)
  have rest: "final_schedule us (h\<lparr>notified := [y]\<rparr>) = h\<lparr>notified := [y]\<rparr>" if "\<forall>t \<in> set us. fst t = fst x" for us
    using that by (induction us) (simp_all add: final_schedule_def out)
  have xb: "x \<notin> set (blocked h)" "fst y \<noteq> fst x" "remove1 x (blocked h) = blocked h" using assms(5) by (auto simp: remove1_idem)
  have first: "waits h x" "remove_waiter x h = h\<lparr>notified := [y]\<rparr>"
    using assms(1,2) xb by (simp add: waits_def) (simp add: remove_waiter_def Let_def assms(1,2) xb)
  have "x \<in> set us \<Longrightarrow> \<forall>t \<in> set us. fst t = fst x \<Longrightarrow> final_schedule us h = h\<lparr>notified := [y]\<rparr>" for us
  proof (induction us)
    case (Cons t us)
    show ?case
    proof (cases "t = x")
      case True
      have "final_schedule us (h\<lparr>notified := [y]\<rparr>) = h\<lparr>notified := [y]\<rparr>" by (rule rest) (meson Cons.prems(2) list.set_intros(2))
      then show ?thesis by (simp add: final_schedule_def True first)
    next
      case False
      then have "t \<noteq> y" "t \<notin> set (blocked h)" using Cons.prems(2) xb(2) assms(5) by (fastforce, fastforce)
      with False assms(1) have "\<not> waits h t" by (simp add: waits_def)
      moreover have "x \<in> set us" using False Cons.prems(1) by simp
      then have "final_schedule us h = h\<lparr>notified := [y]\<rparr>" by (rule Cons.IH) (meson Cons.prems(2) list.set_intros(2))
      ultimately show ?thesis by (simp add: final_schedule_def)
    qed
  qed simp
  then show ?thesis using assms(3,4) by blast
qed



end
