(* ===== verification/Frames.thy ===== *)
theory Frames
  imports Prelude
begin

text \<open>
  Who owns a coroutine: \<open>BaseFrame\<close> objects, their \<open>_handler\<close> and \<open>_promise\<close>, and the promise's pointer
  \<open>_onwer\<close> back to the object (\<open>src/include/core/coroutine.h\<close>, \<open>src/core/coroutine.cpp\<close>), over the
  construction, the move and the destruction of such objects.
\<close>

section \<open>Objects and coroutines\<close>

text \<open>
  Objects and coroutine frames are named by numbers. A frame holds its promise, so that one
  number stands for the handle and for the promise; the promise is gone when the frame is
  destroyed. \<open>destroyed\<close> lists the frames in the order of \<open>_handler.destroy()\<close>.
\<close>

record object =
  obj_handler :: "nat option"
  obj_promise :: "nat option"

record objects =
  objs :: "nat \<rightharpoonup> object"
  owner :: "nat \<Rightarrow> nat option"
  created :: nat
  destroyed :: "nat list"

definition no_objects :: objects where
  "no_objects = \<lparr>objs = Map.empty, owner = (\<lambda>_. None), created = 0, destroyed = []\<rparr>"

datatype frame_fault = NullPromise | DanglingPromise | NoObject

text \<open>Calling a coroutine makes a frame and an object that owns it; \<open>Coroutine(nullptr)\<close> owns none.\<close>

definition new_frame :: "nat \<Rightarrow> objects \<Rightarrow> frame_fault + objects" where
  "new_frame x s =
     (if objs s x \<noteq> None then Inl NoObject
      else Inr (s\<lparr>objs := (objs s)(x \<mapsto> \<lparr>obj_handler = Some (created s), obj_promise = Some (created s)\<rparr>),
                  owner := (owner s)(created s := Some x), created := Suc (created s)\<rparr>))"

definition null_frame :: "nat \<Rightarrow> objects \<Rightarrow> frame_fault + objects" where
  "null_frame x s =
     (if objs s x \<noteq> None then Inl NoObject
      else Inr (s\<lparr>objs := (objs s)(x \<mapsto> \<lparr>obj_handler = None, obj_promise = None\<rparr>)\<rparr>))"

text \<open>\<open>_destroy\<close>; the promise pointer keeps its value.\<close>

definition destroy_frame :: "nat \<Rightarrow> objects \<Rightarrow> frame_fault + objects" where
  "destroy_frame x s =
     (case objs s x of
        None \<Rightarrow> Inl NoObject
      | Some b \<Rightarrow>
          (case obj_handler b of
             None \<Rightarrow> Inr s
           | Some h \<Rightarrow> Inr (s\<lparr>objs := (objs s)(x \<mapsto> b\<lparr>obj_handler := None\<rparr>), destroyed := destroyed s @ [h]\<rparr>)))"

text \<open>
  The move constructor: \<open>_destroy\<close> and two swaps on a fresh object, whose fields are null, and
  the write to \<open>_promise->_onwer\<close>.
\<close>

definition move_frame :: "nat \<Rightarrow> nat \<Rightarrow> objects \<Rightarrow> frame_fault + objects" where
  "move_frame x y s =
     and_then (null_frame x s) (\<lambda>s0.
     and_then (destroy_frame x s0) (\<lambda>s1.
     case (objs s1 x, objs s1 y) of
       (Some a, Some b) \<Rightarrow>
         let s2 = s1\<lparr>objs := (objs s1)(x \<mapsto> b, y \<mapsto> a)\<rparr>
         in if x = y then Inl NoObject
            else (case obj_promise b of
                    None \<Rightarrow> Inl NullPromise
                  | Some p \<Rightarrow> if p \<in> set (destroyed s2) then Inl DanglingPromise
                      else Inr (s2\<lparr>owner := (owner s2)(p := Some x)\<rparr>))
     | _ \<Rightarrow> Inl NoObject))"

text \<open>The destructor of an object.\<close>

definition end_frame :: "nat \<Rightarrow> objects \<Rightarrow> frame_fault + objects" where
  "end_frame x s = and_then (destroy_frame x s) (\<lambda>s1. Inr (s1\<lparr>objs := (objs s1)(x := None)\<rparr>))"

datatype frame_op = NewFrame nat | NullFrame nat | MoveFrame nat nat | DestroyFrame nat | EndFrame nat

definition frame_step :: "frame_op \<Rightarrow> objects \<Rightarrow> frame_fault + objects" where
  "frame_step p s =
     (case p of
        NewFrame x \<Rightarrow> new_frame x s
      | NullFrame x \<Rightarrow> null_frame x s
      | MoveFrame x y \<Rightarrow> move_frame x y s
      | DestroyFrame x \<Rightarrow> destroy_frame x s
      | EndFrame x \<Rightarrow> end_frame x s)"

fun frame_run :: "frame_op list \<Rightarrow> objects \<Rightarrow> frame_fault + objects" where
  "frame_run [] s = Inr s"
| "frame_run (p # ps) s = and_then (frame_step p s) (frame_run ps)"

section \<open>Ownership\<close>

text \<open>
  Each frame that was created is either held by exactly one object, which its promise points
  back to, or destroyed, once.
\<close>

definition holds :: "objects \<Rightarrow> nat \<Rightarrow> nat \<Rightarrow> bool" where
  "holds s x h \<longleftrightarrow> (\<exists>b. objs s x = Some b \<and> obj_handler b = Some h)"

definition frames_inv :: "objects \<Rightarrow> bool" where
  "frames_inv s \<longleftrightarrow> distinct (destroyed s) \<and>
     (\<forall>h. h < created s \<longleftrightarrow> h \<in> set (destroyed s) \<or> (\<exists>x. holds s x h)) \<and>
     (\<forall>x h. holds s x h \<longrightarrow> owner s h = Some x \<and> h \<notin> set (destroyed s)) \<and>
     (\<forall>x b h. objs s x = Some b \<longrightarrow> obj_handler b = Some h \<longrightarrow> obj_promise b = Some h) \<and>
     (\<forall>x b p. objs s x = Some b \<longrightarrow> obj_handler b = None \<longrightarrow> obj_promise b = Some p \<longrightarrow> p \<in> set (destroyed s))"

lemma frames_inv_init: "frames_inv no_objects"
  by (simp add: frames_inv_def no_objects_def holds_def)

lemma holds_owner: "frames_inv s \<Longrightarrow> holds s x h \<Longrightarrow> owner s h = Some x \<and> h \<notin> set (destroyed s)"
  unfolding frames_inv_def by blast

lemma holds_unique: "frames_inv s \<Longrightarrow> holds s x h \<Longrightarrow> holds s y h \<Longrightarrow> x = y"
  using holds_owner [of s x h] holds_owner [of s y h] by simp

lemma frames_inv_created: "frames_inv s \<Longrightarrow> h < created s \<longleftrightarrow> h \<in> set (destroyed s) \<or> (\<exists>x. holds s x h)"
  unfolding frames_inv_def by blast

lemma new_frame_inv:
  assumes "frames_inv s" "new_frame x s = Inr t"
  shows "frames_inv t"
proof -
  let ?n = "created s"
  have t: "objs s x = None" "t = s\<lparr>objs := (objs s)(x \<mapsto> \<lparr>obj_handler = Some ?n, obj_promise = Some ?n\<rparr>),
      owner := (owner s)(?n := Some x), created := Suc ?n\<rparr>"
    using assms(2) by (auto simp: new_frame_def split: if_splits)
  have h: "holds t y h \<longleftrightarrow> (if y = x then h = ?n else holds s y h)" for y h
    using t by (auto simp: holds_def)
  have no: "\<not> holds s x h" for h using t(1) by (simp add: holds_def)
  have ex: "(\<exists>y. holds t y h) \<longleftrightarrow> h = ?n \<or> (\<exists>y. holds s y h)" for h
    unfolding h using no by metis
  have lt: "h < ?n \<longleftrightarrow> h \<in> set (destroyed s) \<or> (\<exists>y. holds s y h)" for h
    using assms(1) unfolding frames_inv_def by blast
  have "holds t y h \<Longrightarrow> owner t h = Some y \<and> h \<notin> set (destroyed t)" for y h
    using assms(1) lt [of h] lt [of ?n] unfolding h frames_inv_def by (auto simp: t(2) split: if_splits)
  with assms(1) ex lt show ?thesis unfolding frames_inv_def by (simp add: t(2) less_Suc_eq) metis
qed

lemma null_frame_inv:
  assumes "frames_inv s" "null_frame x s = Inr t"
  shows "frames_inv t"
proof -
  have t: "objs s x = None" "t = s\<lparr>objs := (objs s)(x \<mapsto> \<lparr>obj_handler = None, obj_promise = None\<rparr>)\<rparr>"
    using assms(2) by (auto simp: null_frame_def split: if_splits)
  then have "holds t y h = holds s y h" for y h by (auto simp: holds_def)
  with assms(1) show ?thesis unfolding frames_inv_def by (auto simp: t(2))
qed

lemma destroy_frame_inv:
  assumes "frames_inv s" "destroy_frame x s = Inr t"
  shows "frames_inv t \<and> (\<forall>h. \<not> holds t x h) \<and> created t = created s \<and> objs t x \<noteq> None"
proof -
  obtain b where b: "objs s x = Some b" using assms(2) by (auto simp: destroy_frame_def split: option.splits)
  show ?thesis
  proof (cases "obj_handler b")
    case None
    with b assms show ?thesis by (auto simp: destroy_frame_def holds_def)
  next
    case (Some h)
    with b assms(2) have t: "t = s\<lparr>objs := (objs s)(x \<mapsto> b\<lparr>obj_handler := None\<rparr>), destroyed := destroyed s @ [h]\<rparr>"
      by (simp add: destroy_frame_def)
    have h: "holds s x h" using b Some by (simp add: holds_def)
    have k: "holds t y k \<longleftrightarrow> y \<noteq> x \<and> holds s y k" for y k by (auto simp: t holds_def)
    have x: "holds s x k \<Longrightarrow> k = h" for k using b Some by (simp add: holds_def)
    have only: "holds s y h \<Longrightarrow> y = x" for y using holds_unique [OF assms(1) _ h] .
    have ex: "k < created s \<longleftrightarrow> k \<in> set (destroyed t) \<or> (\<exists>y. holds t y k)" for k
    proof -
      have d: "k \<in> set (destroyed t) \<longleftrightarrow> k = h \<or> k \<in> set (destroyed s)" by (auto simp: t)
      show ?thesis
      proof (cases "k = h")
        case True
        then show ?thesis using h d frames_inv_created [OF assms(1), of k] by blast
      next
        case False
        then have "(\<exists>y. holds t y k) \<longleftrightarrow> (\<exists>y. holds s y k)" unfolding k using x [of k] by metis
        then show ?thesis using False d frames_inv_created [OF assms(1), of k] by blast
      qed
    qed
    have ow: "holds t y k \<Longrightarrow> owner t k = Some y \<and> k \<notin> set (destroyed t)" for y k
      using holds_owner [OF assms(1), of y k] only [of y] unfolding k by (auto simp: t)
    have "distinct (destroyed t)"
      using assms(1) holds_owner [OF assms(1) h] by (simp add: t frames_inv_def)
    moreover have "obj_promise b = Some h" using assms(1) b Some by (auto simp: frames_inv_def)
    ultimately have "frames_inv t" using assms(1) ex ow unfolding frames_inv_def by (auto simp: t)
    then show ?thesis using k b by (simp add: t)
  qed
qed

lemma end_frame_inv:
  assumes "frames_inv s" "end_frame x s = Inr t"
  shows "frames_inv t"
proof -
  obtain u where u: "destroy_frame x s = Inr u" "t = u\<lparr>objs := (objs u)(x := None)\<rparr>"
    using assms(2) by (auto simp: end_frame_def and_then_Inr)
  from destroy_frame_inv [OF assms(1) u(1)] have inv: "frames_inv u" and none: "\<And>h. \<not> holds u x h" by auto
  have "holds t y h = holds u y h" for y h using none [of h] by (auto simp: u(2) holds_def)
  with inv show ?thesis unfolding frames_inv_def by (auto simp: u(2))
qed

lemma move_frame_Inr:
  assumes "move_frame x y s = Inr t"
  obtains b p where "objs s x = None" "objs s y = Some b" "obj_promise b = Some p" "p \<notin> set (destroyed s)" "x \<noteq> y"
    "t = s\<lparr>objs := (objs s)(x \<mapsto> b, y \<mapsto> \<lparr>obj_handler = None, obj_promise = None\<rparr>), owner := (owner s)(p := Some x)\<rparr>"
  using assms
  by (auto simp: move_frame_def and_then_Inr null_frame_def destroy_frame_def Let_def split: if_splits option.splits)

lemma move_frame_inv:
  assumes "frames_inv s" "move_frame x y s = Inr t"
  shows "frames_inv t"
  using assms(2)
proof (rule move_frame_Inr)
  fix b p
  assume m: "objs s x = None" "objs s y = Some b" "obj_promise b = Some p" "p \<notin> set (destroyed s)" "x \<noteq> y"
    "t = s\<lparr>objs := (objs s)(x \<mapsto> b, y \<mapsto> \<lparr>obj_handler = None, obj_promise = None\<rparr>), owner := (owner s)(p := Some x)\<rparr>"
  have b: "obj_handler b = Some p" using assms(1) m(2-4) by (cases "obj_handler b") (auto simp: frames_inv_def)
  then have y: "holds s y k \<longleftrightarrow> k = p" for k using m(2) by (auto simp: holds_def)
  have h: "holds t z k \<longleftrightarrow> (if z = x then k = p else z \<noteq> y \<and> holds s z k)" for z k
    using m b by (auto simp: holds_def)
  have only: "holds s z p \<Longrightarrow> z = y" for z using holds_unique [OF assms(1)] y by blast
  have no: "\<not> holds s x k" for k using m(1) by (simp add: holds_def)
  have ex: "(\<exists>z. holds t z k) \<longleftrightarrow> (\<exists>z. holds s z k)" for k
    unfolding h using no y m(5) by metis
  have "holds t z k \<Longrightarrow> owner t k = Some z \<and> k \<notin> set (destroyed t)" for z k
    using assms(1) only [of z] m(4) unfolding h frames_inv_def by (auto simp: m(6) split: if_splits)
  with assms(1) ex m(3-5) b show ?thesis unfolding frames_inv_def by (auto simp: m(6) split: if_splits)
qed

lemma frame_step_inv: "frames_inv s \<Longrightarrow> frame_step p s = Inr t \<Longrightarrow> frames_inv t"
  by (cases p) (auto simp: frame_step_def intro: new_frame_inv null_frame_inv move_frame_inv end_frame_inv
      destroy_frame_inv [THEN conjunct1])

lemma frame_run_inv: "frames_inv s \<Longrightarrow> frame_run ps s = Inr t \<Longrightarrow> frames_inv t"
  by (induction ps arbitrary: s) (auto simp: and_then_Inr intro: frame_step_inv)

text \<open>
  C29: Coroutine frames have one owner and are destroyed once: after any constructions, moves and
  destructions that do not fault, no frame has been destroyed twice, each frame still alive
  is held by exactly one object, to which its promise points back, and if no object is left
  then every frame has been destroyed.
\<close>

theorem frames_destroyed_once:
  assumes "frame_run ps no_objects = Inr s"
  shows "distinct (destroyed s) \<and>
    (\<forall>h < created s. h \<notin> set (destroyed s) \<longrightarrow> (\<exists>!x. holds s x h) \<and> (\<forall>x. holds s x h \<longrightarrow> owner s h = Some x)) \<and>
    (objs s = Map.empty \<longrightarrow> set (destroyed s) = {..<created s})"
proof -
  have inv: "frames_inv s" by (rule frame_run_inv [OF frames_inv_init assms])
  have "set (destroyed s) = {..<created s}" if "objs s = Map.empty"
  proof -
    have "\<not> holds s x h" for x h using that by (simp add: holds_def)
    with inv show ?thesis by (auto simp: frames_inv_def)
  qed
  moreover have "\<exists>!x. holds s x h" if "h < created s" "h \<notin> set (destroyed s)" for h
    using inv that holds_unique [OF inv] by (auto simp: frames_inv_def)
  ultimately show ?thesis using inv by (auto simp: frames_inv_def)
qed

theorem frames_destroyed_once_witness:
  "\<exists>s. frame_run [NewFrame 1, MoveFrame 2 1, EndFrame 1, EndFrame 2] no_objects = Inr s \<and> set (destroyed s) = {0}"
proof -
  obtain s where s: "frame_run [NewFrame 1, MoveFrame 2 1, EndFrame 1, EndFrame 2] no_objects = Inr s"
    "objs s = Map.empty" "created s = 1"
    by (simp add: frame_step_def new_frame_def no_objects_def move_frame_def null_frame_def destroy_frame_def
        end_frame_def Let_def fun_eq_iff)
  with frames_destroyed_once [OF s(1)] show ?thesis by auto
qed

text \<open>
  Moving from an object that owns nothing, one made from \<open>nullptr\<close> or moved from before, writes
  through a null pointer.
\<close>

theorem move_from_empty_faults:
  assumes "objs s x = None" "x \<noteq> y" "objs s y = Some \<lparr>obj_handler = None, obj_promise = None\<rparr>"
  shows "move_frame x y s = Inl NullPromise"
  using assms by (simp add: move_frame_def null_frame_def destroy_frame_def Let_def)

theorem move_from_empty_faults_witness:
  "frame_run [NullFrame 1, MoveFrame 2 1] no_objects = Inl NullPromise"
proof -
  have "move_frame 2 1 (no_objects\<lparr>objs := [1 \<mapsto> \<lparr>obj_handler = None, obj_promise = None\<rparr>]\<rparr>) = Inl NullPromise"
    by (rule move_from_empty_faults) simp_all
  then show ?thesis by (simp add: frame_step_def null_frame_def no_objects_def)
qed

end
