(* ===== verification/Guards.thy ===== *)
theory Guards
  imports Prelude "HOL-Library.Multiset" "HOL-Library.AList"
begin

text \<open>
  Two small objects of \<open>schedule.h\<close> and \<open>schedule.cpp\<close>: \<open>DeferGuard\<close>, a scope guard that runs a
  function when it is destroyed, and \<open>BaseLazySignal\<close>, with which a worker that has nothing to
  do is to be woken.
\<close>

section \<open>DeferGuard\<close>

text \<open>
  The guards that exist, by name, each with its \<open>_defer\<close> (\<open>None\<close> for \<open>nullptr\<close>), and what has
  run so far. \<open>ignored\<close> lists the functions that \<open>drop\<close> threw away.
\<close>

record 'f guards =
  guards :: "(nat \<times> 'f option) list"
  ran :: "'f list"
  ignored :: "'f list"

datatype 'f guard_op = NewGuard nat 'f | MoveGuard nat nat | DropGuard nat | EndGuard nat

fun held :: "(nat \<times> 'f option) list \<Rightarrow> 'f multiset" where
  "held [] = {#}"
| "held ((g, d) # gs) = (case d of None \<Rightarrow> {#} | Some f \<Rightarrow> {#f#}) + held gs"

text \<open>
  The move constructor: \<open>drop\<close> on the new guard, then a swap with the old one. Naming a guard
  that does not exist, or one that does as a new one, is not a C++ program: \<open>None\<close>.
\<close>

fun guard_step :: "'f guard_op \<Rightarrow> 'f guards \<Rightarrow> 'f guards option" where
  "guard_step (NewGuard g f) s =
     (case map_of (guards s) g of Some _ \<Rightarrow> None | None \<Rightarrow> Some (s\<lparr>guards := (g, Some f) # guards s\<rparr>))"
| "guard_step (MoveGuard g r) s =
     (case (map_of (guards s) g, map_of (guards s) r) of
        (None, Some d) \<Rightarrow> Some (s\<lparr>guards := (g, d) # AList.update r None (guards s)\<rparr>)
      | _ \<Rightarrow> None)"
| "guard_step (DropGuard g) s =
     (case map_of (guards s) g of
        None \<Rightarrow> None
      | Some None \<Rightarrow> Some s
      | Some (Some f) \<Rightarrow> Some (s\<lparr>guards := AList.update g None (guards s), ignored := f # ignored s\<rparr>))"
| "guard_step (EndGuard g) s =
     (case map_of (guards s) g of
        None \<Rightarrow> None
      | Some None \<Rightarrow> Some (s\<lparr>guards := AList.delete g (guards s)\<rparr>)
      | Some (Some f) \<Rightarrow> Some (s\<lparr>guards := AList.delete g (guards s), ran := ran s @ [f]\<rparr>))"

fun guard_run :: "'f guard_op list \<Rightarrow> 'f guards \<Rightarrow> 'f guards option" where
  "guard_run [] s = Some s"
| "guard_run (p # ps) s = (case guard_step p s of None \<Rightarrow> None | Some s' \<Rightarrow> guard_run ps s')"

fun deferred :: "'f guard_op list \<Rightarrow> 'f multiset" where
  "deferred [] = {#}"
| "deferred (NewGuard g f # ps) = add_mset f (deferred ps)"
| "deferred (p # ps) = deferred ps"

definition no_guards :: "'f guards" where
  "no_guards = \<lparr>guards = [], ran = [], ignored = []\<rparr>"

text \<open>Reading and rewriting one guard of the list.\<close>

lemma held_update:
  "distinct (map fst gs) \<Longrightarrow> map_of gs g = Some d \<Longrightarrow>
     held gs = (case d of None \<Rightarrow> {#} | Some f \<Rightarrow> {#f#}) + held (AList.update g None gs)"
  by (induction gs) (auto split: if_splits option.splits)

lemma delete_absent: "g \<notin> fst ` set gs \<Longrightarrow> AList.delete g gs = gs"
  by (induction gs) (auto simp: AList.delete_eq)

lemma held_delete:
  "distinct (map fst gs) \<Longrightarrow> map_of gs g = Some d \<Longrightarrow>
     held gs = (case d of None \<Rightarrow> {#} | Some f \<Rightarrow> {#f#}) + held (AList.delete g gs)"
proof (induction gs)
  case (Cons a gs)
  show ?case
  proof (cases "fst a = g")
    case True
    with Cons.prems have "AList.delete g (a # gs) = gs"
      using delete_absent [of g gs] by (cases a) (auto simp: AList.delete_eq)
    with True Cons.prems show ?thesis by (cases a) auto
  next
    case False
    with Cons show ?thesis by (cases a) (auto simp: AList.delete_eq ac_simps split: option.splits)
  qed
qed simp

definition guards_total :: "'f guards \<Rightarrow> 'f multiset" where
  "guards_total s = mset (ran s) + mset (ignored s) + held (guards s)"

lemma guard_step_total:
  assumes "guard_step p s = Some t" "distinct (map fst (guards s))"
  shows "guards_total t = guards_total s + deferred [p] \<and> distinct (map fst (guards t))"
proof (cases p)
  case (NewGuard g f)
  with assms show ?thesis
    by (auto simp: guards_total_def map_of_eq_None_iff split: option.splits)
next
  case (MoveGuard g r)
  with assms obtain d where d: "map_of (guards s) g = None" "map_of (guards s) r = Some d"
    "t = s\<lparr>guards := (g, d) # AList.update r None (guards s)\<rparr>" by (auto split: option.splits)
  have "r \<in> fst ` set (guards s)" "g \<notin> fst ` set (guards s)" using d by (metis map_of_eq_None_iff option.simps(3))+
  then have "fst ` set (AList.update r None (guards s)) = fst ` set (guards s)"
    using AList.dom_update [of r None "guards s"] by (auto simp: insert_absorb)
  with d held_update [OF assms(2) d(2)] MoveGuard assms(2) \<open>g \<notin> _\<close> show ?thesis
    by (auto simp: guards_total_def AList.distinct_update split: option.splits)
next
  case (DropGuard g)
  with assms held_update [OF assms(2), of g] show ?thesis
    by (auto simp: guards_total_def AList.distinct_update split: option.splits)
next
  case (EndGuard g)
  with assms held_delete [OF assms(2), of g] show ?thesis
    by (auto simp: guards_total_def AList.distinct_delete split: option.splits)
qed

lemma guard_run_total:
  "guard_run ps s = Some t \<Longrightarrow> distinct (map fst (guards s)) \<Longrightarrow> guards_total t = guards_total s + deferred ps"
proof (induction ps arbitrary: s)
  case (Cons p ps)
  then obtain u where u: "guard_step p s = Some u" "guard_run ps u = Some t" by (auto split: option.splits)
  have "deferred (p # ps) = deferred [p] + deferred ps" by (cases p) simp_all
  with Cons.IH [OF u(2)] guard_step_total [OF u(1) Cons.prems(2)] show ?case by simp
qed simp

text \<open>
  A deferred function runs exactly once: over any sequence of constructions, moves, drops
  and destructions after which no guard is left, the functions that ran and those that were
  dropped are together, with multiplicity, exactly those that were deferred.
\<close>

theorem deferred_runs_exactly_once:
  assumes "guard_run ps no_guards = Some s" "guards s = []"
  shows "mset (ran s) + mset (ignored s) = deferred ps"
  using guard_run_total [OF assms(1)] assms(2) by (simp add: guards_total_def no_guards_def)

theorem deferred_runs_exactly_once_witness:
  "guard_run [NewGuard 1 ''f'', NewGuard 2 ''g'', MoveGuard 3 1, EndGuard 1, DropGuard 2, EndGuard 2, EndGuard 3] no_guards
     = Some \<lparr>guards = [], ran = [''f''], ignored = [''g'']\<rparr> \<and>
   mset [''f''] + mset [''g''] = deferred [NewGuard 1 ''f'', NewGuard 2 ''g'', MoveGuard 3 1, EndGuard 1, DropGuard 2, EndGuard 2, EndGuard 3]"
proof -
  let ?ps = "[NewGuard 1 ''f'', NewGuard 2 ''g'', MoveGuard 3 1, EndGuard 1, DropGuard 2, EndGuard 2, EndGuard 3]"
  have "guard_run ?ps no_guards = Some \<lparr>guards = [], ran = [''f''], ignored = [''g'']\<rparr>"
    by (simp add: no_guards_def AList.delete_eq)
  with deferred_runs_exactly_once [OF this] show ?thesis by simp
qed

section \<open>BaseLazySignal\<close>

text \<open>
  The two flags. \<open>wait\<close> is two steps around the blocking call: entering, which reports whether
  it blocks, and leaving.
\<close>

record lazy_signal =
  emitted :: bool
  waited :: bool

datatype signal_op = Emit | EnterWait | LeaveWait

definition new_signal :: lazy_signal where
  "new_signal = \<lparr>emitted = False, waited = False\<rparr>"

definition signal_emit :: "lazy_signal \<Rightarrow> bool \<times> lazy_signal" where
  "signal_emit s = (if waited s \<and> \<not> emitted s then (True, s\<lparr>emitted := True\<rparr>) else (False, s))"

definition enter_wait :: "lazy_signal \<Rightarrow> bool \<times> lazy_signal" where
  "enter_wait s = (if \<not> emitted s then (True, s\<lparr>emitted := False, waited := True\<rparr>) else (False, s))"

definition leave_wait :: "lazy_signal \<Rightarrow> lazy_signal" where
  "leave_wait s = s\<lparr>waited := False\<rparr>"

text \<open>A run: which emits notified and which waits blocked, in order.\<close>

datatype signal_event = Notified | Blocked

fun signal_run :: "signal_op list \<Rightarrow> lazy_signal \<Rightarrow> signal_event list" where
  "signal_run [] s = []"
| "signal_run (Emit # ps) s =
     (case signal_emit s of (b, s') \<Rightarrow> (if b then [Notified] else []) @ signal_run ps s')"
| "signal_run (EnterWait # ps) s =
     (case enter_wait s of (b, s') \<Rightarrow> (if b then [Blocked] else []) @ signal_run ps s')"
| "signal_run (LeaveWait # ps) s = signal_run ps (leave_wait s)"

lemma signal_run_emitted: "emitted s \<Longrightarrow> signal_run ps s = []"
proof (induction ps arbitrary: s)
  case (Cons p ps)
  then show ?case by (cases p) (simp_all add: signal_emit_def enter_wait_def leave_wait_def)
qed simp

lemma signal_run_form: "\<exists>n. signal_run ps s = replicate n Blocked \<or> signal_run ps s = replicate n Blocked @ [Notified]"
proof (induction ps arbitrary: s)
  case Nil
  show ?case by (rule exI [of _ 0]) simp
next
  case (Cons p ps)
  show ?case
  proof (cases p)
    case Emit
    show ?thesis
    proof (cases "waited s \<and> \<not> emitted s")
      case True
      then have "signal_run (p # ps) s = replicate 0 Blocked @ [Notified]"
        by (simp add: Emit signal_emit_def signal_run_emitted)
      then show ?thesis by blast
    next
      case False
      then have "signal_run (p # ps) s = signal_run ps s" by (auto simp: Emit signal_emit_def)
      then show ?thesis using Cons.IH [of s] by simp
    qed
  next
    case EnterWait
    show ?thesis
    proof (cases "emitted s")
      case True
      then have "signal_run (p # ps) s = replicate 0 Blocked"
        by (simp add: EnterWait enter_wait_def signal_run_emitted)
      then show ?thesis by blast
    next
      case False
      with EnterWait Cons.IH [of "s\<lparr>emitted := False, waited := True\<rparr>"] obtain n where
        "signal_run (p # ps) s = replicate (Suc n) Blocked \<or>
         signal_run (p # ps) s = replicate (Suc n) Blocked @ [Notified]"
        by (auto simp: enter_wait_def)
      then show ?thesis by blast
    qed
  next
    case LeaveWait
    then show ?thesis using Cons.IH by simp
  qed
qed

lemma signal_run_unwaited: "EnterWait \<notin> set ps \<Longrightarrow> \<not> waited s \<Longrightarrow> signal_run ps s = []"
proof (induction ps arbitrary: s)
  case (Cons p ps)
  then show ?case by (cases p) (auto simp: signal_emit_def leave_wait_def)
qed simp

text \<open>
  A lazy signal is for one use: because \<open>wait\<close> never resets \<open>_emitted\<close>, every run of the
  signal is a number of blocking waits and then at most one notification, after which no wait
  blocks and no emit notifies; and with no wait before, no emit notifies.
\<close>

theorem lazy_signal_is_one_shot:
  "(\<exists>n. signal_run ps new_signal = replicate n Blocked \<or>
     signal_run ps new_signal = replicate n Blocked @ [Notified]) \<and>
   signal_run (replicate k Emit) new_signal = []"
  using signal_run_form [of ps new_signal] signal_run_unwaited [of "replicate k Emit" new_signal]
  by (auto simp: new_signal_def)

end
