(* ===== verification/Channels.thy ===== *)
theory Channels
  imports Linked
begin

text \<open>
  Channels (\<open>src/include/core/channel.h\<close>, \<open>src/core/channel.cpp\<close>): messages, which stand for a
  coroutine that waits to send or to receive (\<open>Simplex\<close>) or for one case of a select
  (\<open>Multiplex\<close>); the transfer between two messages; and the channel operations over a bounded
  buffer and the two queues of waiting messages. One call under the channel's lock is one step.
  Values are moved: a transfer changes the variable it takes its value from as well.
\<close>

section \<open>State\<close>

text \<open>
  \<open>BaseMsg::_msg\<close>: the data pointer (\<open>None\<close> for \<open>nullptr\<close>), and the semaphore to release, or
  the select and the key of the case. Cells, semaphores, selects, messages and channels are
  named by numbers.
\<close>

datatype payload =
    Simplex "nat option" "nat option"
  | Multiplex "nat option" nat int

datatype transfer = Ok | InvalidSrc | InvalidDst

datatype chan_status = CReady | CInvalidSrc | CInvalidDst | CInvalidOneshot | CInprocess

text \<open>
  \<open>BaseChannel\<close> and \<open>TypeChannel\<close>. The queues list the messages from \<open>_head\<close> to \<open>_tail\<close>;
  the pointers behind such a list are the subject of the theory of linked nodes.
\<close>

record 'd chan =
  capacity :: nat
  buffer :: "'d list"
  senders :: "nat list"
  recvers :: "nat list"

text \<open>
  Everything a transfer can touch: the variables of the communicating coroutines, the
  messages and the channel each one was last used on (\<open>_chan\<close>), the permits of the semaphores,
  and of each select its \<open>_key\<close> and the permits of its \<open>_signal\<close>. \<open>moved_from v\<close> is what a move
  of the element type leaves in an object that held \<open>v\<close>: \<open>v\<close> itself for an \<open>int\<close>, the empty
  string for a long \<open>std::string\<close>. It belongs to the type, and no operation changes it.
\<close>

record 'd world =
  mem :: "nat \<Rightarrow> 'd"
  msg :: "nat \<Rightarrow> payload"
  msg_chan :: "nat \<Rightarrow> nat option"
  sems :: "nat \<Rightarrow> nat"
  keys :: "nat \<Rightarrow> int"
  signals :: "nat \<Rightarrow> nat"
  chans :: "nat \<Rightarrow> 'd chan"
  moved_from :: "'d \<Rightarrow> 'd"

definition new_chan :: "nat \<Rightarrow> 'd chan" where
  "new_chan n = \<lparr>capacity = n, buffer = [], senders = [], recvers = []\<rparr>"

definition upd_chan :: "nat \<Rightarrow> ('d chan \<Rightarrow> 'd chan) \<Rightarrow> 'd world \<Rightarrow> 'd world" where
  "upd_chan c f w = w\<lparr>chans := (chans w)(c := f (chans w c))\<rparr>"

section \<open>Messages\<close>

text \<open>
  Where the \<open>void*\<close> of a transfer points: a variable of a coroutine (\<open>None\<close> for \<open>nullptr\<close>), or an
  object of the channel, which is the front of its buffer, about to be popped, or the local
  variable \<open>x\<close> of \<open>_buffer_recv_from\<close>, about to be pushed.
\<close>

datatype 'd msg_place = Var "nat option" | Local 'd

fun content :: "'d msg_place \<Rightarrow> 'd world \<Rightarrow> 'd option" where
  "content (Var p) w = map_option (mem w) p"
| "content (Local x) w = Some x"

definition store :: "nat option \<Rightarrow> 'd option \<Rightarrow> 'd world \<Rightarrow> 'd world" where
  "store d v w =
     (case (d, v) of (Some a, Some x) \<Rightarrow> w\<lparr>mem := (mem w)(a := x)\<rparr> | _ \<Rightarrow> w)"

text \<open>A variable that was moved from; what is left in an object of the channel is never read.\<close>

definition leave :: "nat option \<Rightarrow> 'd world \<Rightarrow> 'd world" where
  "leave p w = store p (map_option (\<lambda>a. moved_from w (mem w a)) p) w"

fun leave_place :: "'d msg_place \<Rightarrow> 'd world \<Rightarrow> 'd world" where
  "leave_place (Var p) w = leave p w"
| "leave_place (Local x) w = w"

text \<open>
  \<open>TypeMsg::_move\<close>: \<open>*dst = std::move( *src)\<close>, nothing if either pointer is null. The destination is
  answered with what it holds then, for a \<open>Local\<close>. (If both are one variable, C++ leaves its value
  unspecified; here it is a moved-from one.)
\<close>

fun msg_move :: "'d msg_place \<Rightarrow> 'd msg_place \<Rightarrow> 'd world \<Rightarrow> 'd msg_place \<times> 'd world" where
  "msg_move src (Var d) w =
     (if content src w = None \<or> d = None then (Var d, w)
      else (Var d, leave_place src (store d (content src w) w)))"
| "msg_move src (Local y) w =
     (case content src w of None \<Rightarrow> (Local y, w) | Some x \<Rightarrow> (Local x, leave_place src w))"

declare msg_move.simps [simp del]

definition commit_simplex :: "nat option \<Rightarrow> 'd world \<Rightarrow> 'd world" where
  "commit_simplex g w =
     (case g of None \<Rightarrow> w | Some i \<Rightarrow> w\<lparr>sems := (sems w)(i := Suc (sems w i))\<rparr>)"

definition commit_multiplex :: "nat \<Rightarrow> int \<Rightarrow> 'd world \<Rightarrow> 'd world" where
  "commit_multiplex s k w =
     w\<lparr>keys := (keys w)(s := k), signals := (signals w)(s := Suc (signals w s))\<rparr>"

text \<open>\<open>BaseMsg::recv_from(void*)\<close>: the message receives the value behind a pointer.\<close>

definition recv_from_ptr :: "nat \<Rightarrow> 'd msg_place \<Rightarrow> 'd world \<Rightarrow> transfer \<times> 'd world" where
  "recv_from_ptr m src w =
     (case msg w m of
        Multiplex d s k \<Rightarrow>
          if keys w s \<noteq> INT_MIN then (InvalidSrc, w)
          else (Ok, commit_multiplex s k (snd (msg_move src (Var d) w)))
      | Simplex d g \<Rightarrow> (Ok, commit_simplex g (snd (msg_move src (Var d) w))))"

text \<open>\<open>BaseMsg::send_to(void*)\<close>, with the destination as it is afterwards.\<close>

definition send_to_ptr :: "nat \<Rightarrow> 'd msg_place \<Rightarrow> 'd world \<Rightarrow> transfer \<times> 'd msg_place \<times> 'd world" where
  "send_to_ptr m dst w =
     (case msg w m of
        Multiplex d s k \<Rightarrow>
          if keys w s \<noteq> INT_MIN then (InvalidSrc, dst, w)
          else (case msg_move (Var d) dst w of (dst', w1) \<Rightarrow> (Ok, dst', commit_multiplex s k w1))
      | Simplex d g \<Rightarrow> (case msg_move (Var d) dst w of (dst', w1) \<Rightarrow> (Ok, dst', commit_simplex g w1)))"

text \<open>\<open>BaseMsg::send_to(BaseMsg*)\<close>, which throws if both ends belong to the same select.\<close>

definition same_select_error :: string where
  "same_select_error = ''selector deadlock because waiting send and recv on the same channel''"

definition send_to_msg :: "nat \<Rightarrow> nat \<Rightarrow> 'd world \<Rightarrow> (string + transfer) \<times> 'd world" where
  "send_to_msg a b w =
     (case (msg w a, msg w b) of
        (Multiplex d s k, Multiplex d' s' k') \<Rightarrow>
          if s = s' then (Inl same_select_error, w)
          else if keys w s \<noteq> INT_MIN then (Inr InvalidSrc, w)
          else if keys w s' \<noteq> INT_MIN then (Inr InvalidDst, w)
          else (Inr Ok, commit_multiplex s' k' (commit_multiplex s k (snd (msg_move (Var d) (Var d') w))))
      | (Multiplex _ _ _, Simplex d' g') \<Rightarrow>
          (case send_to_ptr a (Var d') w of
             (r, _, w1) \<Rightarrow> if r = Ok then (Inr r, commit_simplex g' w1) else (Inr r, w1))
      | (Simplex d g, _) \<Rightarrow>
          (case recv_from_ptr b (Var d) w of
             (r, w1) \<Rightarrow> if r = Ok then (Inr r, commit_simplex g w1) else (Inr r, w1)))"

section \<open>The buffer\<close>

text \<open>The two virtual functions of \<open>TypeChannel\<close>; \<open>0\<close> is the default-constructed value.\<close>

definition buffer_send_to :: "nat \<Rightarrow> nat \<Rightarrow> 'd world \<Rightarrow> bool \<times> 'd world" where
  "buffer_send_to c dst w =
     (case buffer (chans w c) of
        [] \<Rightarrow> (False, w)
      | x # _ \<Rightarrow>
          (case recv_from_ptr dst (Local x) w of
             (r, w1) \<Rightarrow>
               if r = Ok then (True, upd_chan c (\<lambda>ch. ch\<lparr>buffer := tl (buffer ch)\<rparr>) w1) else (False, w1)))"

definition buffer_recv_from :: "nat \<Rightarrow> nat \<Rightarrow> ('d :: zero) world \<Rightarrow> bool \<times> 'd world" where
  "buffer_recv_from c src w =
     (if length (buffer (chans w c)) = capacity (chans w c) then (False, w)
      else
        (case send_to_ptr src (Local 0) w of
           (r, x, w1) \<Rightarrow>
             if r = Ok then (True, upd_chan c (\<lambda>ch. ch\<lparr>buffer := buffer ch @ [the (content x w1)]\<rparr>) w1)
             else (False, w1)))"

section \<open>Channel operations\<close>

text \<open>
  The loops run over the waiting messages; their list argument is what is left of the queue,
  and each step writes it back (\<open>unlink_back\<close>).
\<close>

definition set_senders :: "nat \<Rightarrow> nat list \<Rightarrow> 'd world \<Rightarrow> 'd world" where
  "set_senders c q w = upd_chan c (\<lambda>ch. ch\<lparr>senders := q\<rparr>) w"

definition set_recvers :: "nat \<Rightarrow> nat list \<Rightarrow> 'd world \<Rightarrow> 'd world" where
  "set_recvers c q w = upd_chan c (\<lambda>ch. ch\<lparr>recvers := q\<rparr>) w"

fun refill_buffer :: "nat \<Rightarrow> nat list \<Rightarrow> ('d :: zero) world \<Rightarrow> 'd world" where
  "refill_buffer c [] w = w"
| "refill_buffer c (m # q) w =
     (let (ok, w1) = buffer_recv_from c m (set_senders c q w)
      in if ok then w1 else refill_buffer c q w1)"

fun take_from_senders :: "nat \<Rightarrow> nat \<Rightarrow> nat list \<Rightarrow> 'd world \<Rightarrow> (string + chan_status option) \<times> 'd world" where
  "take_from_senders c dst [] w = (Inr None, w)"
| "take_from_senders c dst (m # q) w =
     (case send_to_msg m dst w of
        (Inl e, w1) \<Rightarrow> (Inl e, w1)
      | (Inr Ok, w1) \<Rightarrow> (Inr (Some CReady), set_senders c q w1)
      | (Inr InvalidSrc, w1) \<Rightarrow> take_from_senders c dst q (set_senders c q w1)
      | (Inr InvalidDst, w1) \<Rightarrow> (Inr (Some CInvalidDst), w1))"

definition chan_send_to :: "nat \<Rightarrow> nat \<Rightarrow> bool \<Rightarrow> ('d :: zero) world \<Rightarrow> (string + chan_status) \<times> 'd world" where
  "chan_send_to c dst oneshot w0 =
     (let w = w0\<lparr>msg_chan := (msg_chan w0)(dst := Some c)\<rparr>
      in case buffer_send_to c dst w of
           (True, w1) \<Rightarrow> (Inr CReady, refill_buffer c (senders (chans w1 c)) w1)
         | (False, w1) \<Rightarrow>
             (case take_from_senders c dst (senders (chans w1 c)) w1 of
                (Inl e, w2) \<Rightarrow> (Inl e, w2)
              | (Inr (Some r), w2) \<Rightarrow> (Inr r, w2)
              | (Inr None, w2) \<Rightarrow>
                  if oneshot then (Inr CInvalidOneshot, w2)
                  else (Inr CInprocess, set_recvers c (recvers (chans w2 c) @ [dst]) w2)))"

fun drain_buffer :: "nat \<Rightarrow> nat list \<Rightarrow> 'd world \<Rightarrow> 'd world" where
  "drain_buffer c [] w = w"
| "drain_buffer c (m # q) w =
     (let (ok, w1) = buffer_send_to c m (set_recvers c q w)
      in if ok then w1 else drain_buffer c q w1)"

fun give_to_recvers :: "nat \<Rightarrow> nat \<Rightarrow> nat list \<Rightarrow> 'd world \<Rightarrow> (string + chan_status option) \<times> 'd world" where
  "give_to_recvers c src [] w = (Inr None, w)"
| "give_to_recvers c src (m # q) w =
     (case send_to_msg src m w of
        (Inl e, w1) \<Rightarrow> (Inl e, w1)
      | (Inr Ok, w1) \<Rightarrow> (Inr (Some CReady), set_recvers c q w1)
      | (Inr InvalidDst, w1) \<Rightarrow> give_to_recvers c src q (set_recvers c q w1)
      | (Inr InvalidSrc, w1) \<Rightarrow> (Inr (Some CInvalidSrc), w1))"

definition chan_recv_from :: "nat \<Rightarrow> nat \<Rightarrow> bool \<Rightarrow> ('d :: zero) world \<Rightarrow> (string + chan_status) \<times> 'd world" where
  "chan_recv_from c src oneshot w0 =
     (let w = w0\<lparr>msg_chan := (msg_chan w0)(src := Some c)\<rparr>
      in case buffer_recv_from c src w of
           (True, w1) \<Rightarrow> (Inr CReady, drain_buffer c (recvers (chans w1 c)) w1)
         | (False, w1) \<Rightarrow>
             (case give_to_recvers c src (recvers (chans w1 c)) w1 of
                (Inl e, w2) \<Rightarrow> (Inl e, w2)
              | (Inr (Some r), w2) \<Rightarrow> (Inr r, w2)
              | (Inr None, w2) \<Rightarrow>
                  if oneshot then (Inr CInvalidOneshot, w2)
                  else (Inr CInprocess, set_senders c (senders (chans w2 c) @ [src]) w2)))"

text \<open>\<open>BaseMsg::drop\<close>: leave whichever queue of its channel the message is in.\<close>

definition drop_msg :: "nat \<Rightarrow> 'd world \<Rightarrow> 'd world option" where
  "drop_msg m w =
     (case msg_chan w m of
        None \<Rightarrow> None
      | Some c \<Rightarrow> Some (upd_chan c (\<lambda>ch. ch\<lparr>senders := remove1 m (senders ch), recvers := remove1 m (recvers ch)\<rparr>) w))"

section \<open>What the coroutines call\<close>

text \<open>
  The operators of \<open>Channel\<close> up to \<open>co_await signal.aquire()\<close>: a fresh message on the variable,
  with a fresh semaphore that has no permits, or none at all for \<open>Nowait\<close>.
\<close>

definition new_msg :: "nat \<Rightarrow> payload \<Rightarrow> 'd world \<Rightarrow> 'd world" where
  "new_msg m p w = w\<lparr>msg := (msg w)(m := p), msg_chan := (msg_chan w)(m := None)\<rparr>"

definition fresh_sem :: "nat \<Rightarrow> 'd world \<Rightarrow> 'd world" where
  "fresh_sem g w = w\<lparr>sems := (sems w)(g := 0)\<rparr>"

definition channel_send :: "nat \<Rightarrow> nat \<Rightarrow> nat \<Rightarrow> nat \<Rightarrow> ('d :: zero) world \<Rightarrow> (string + chan_status) \<times> 'd world" where
  "channel_send c m x g w = chan_recv_from c m False (new_msg m (Simplex (Some x) (Some g)) (fresh_sem g w))"

definition channel_receive :: "nat \<Rightarrow> nat \<Rightarrow> nat option \<Rightarrow> nat \<Rightarrow> ('d :: zero) world \<Rightarrow> (string + chan_status) \<times> 'd world" where
  "channel_receive c m d g w = chan_send_to c m False (new_msg m (Simplex d (Some g)) (fresh_sem g w))"

definition channel_nowait_send :: "nat \<Rightarrow> nat \<Rightarrow> nat \<Rightarrow> ('d :: zero) world \<Rightarrow> bool \<times> 'd world" where
  "channel_nowait_send c m x w =
     (let (r, w1) = chan_recv_from c m True (new_msg m (Simplex (Some x) None) w) in (r = Inr CReady, w1))"

text \<open>After \<open>co_await\<close>: the permit is taken, and the guard drops the message.\<close>

definition channel_finish :: "nat \<Rightarrow> nat \<Rightarrow> 'd world \<Rightarrow> 'd world option" where
  "channel_finish m g w =
     (if sems w g = 0 then None else drop_msg m (w\<lparr>sems := (sems w)(g := sems w g - 1)\<rparr>))"

text \<open>All definitions at once, for evaluating an operation on a concrete world.\<close>

lemmas chan_defs = chan_send_to_def chan_recv_from_def buffer_send_to_def buffer_recv_from_def
  send_to_msg_def recv_from_ptr_def send_to_ptr_def new_msg_def fresh_sem_def new_chan_def
  set_senders_def set_recvers_def upd_chan_def store_def leave_def msg_move.simps
  commit_simplex_def commit_multiplex_def Let_def

end
