(* ===== verification/ChannelFrames.thy ===== *)
theory ChannelFrames
  imports Channels
begin

text \<open>
  What channel operations can do to the world, whatever the selects and queues look like: an
  operation is a sequence of a few kinds of primitive writes, so a preorder that these follow
  is followed by the operation. Its instances: buffers stay within capacity, a select fires at
  most once, and cells, semaphores and selects of messages that take no part are untouched.
\<close>

section \<open>Primitive writes\<close>

fun pointer :: "payload \<Rightarrow> nat option" where
  "pointer (Simplex d g) = d"
| "pointer (Multiplex d s k) = d"

definition buffer_push :: "nat \<Rightarrow> 'd \<Rightarrow> 'd world \<Rightarrow> 'd world" where
  "buffer_push c x w = upd_chan c (\<lambda>ch. ch\<lparr>buffer := buffer ch @ [x]\<rparr>) w"

definition buffer_pop :: "nat \<Rightarrow> 'd world \<Rightarrow> 'd world" where
  "buffer_pop c w = upd_chan c (\<lambda>ch. ch\<lparr>buffer := tl (buffer ch)\<rparr>) w"

lemma upd_chan_chans [simp, effect_simps]: "chans (upd_chan c f w) = (chans w)(c := f (chans w c))"
  by (simp add: upd_chan_def)

lemma upd_chan_rest [simp, effect_simps]:
  "mem (upd_chan c f w) = mem w" "msg (upd_chan c f w) = msg w" "msg_chan (upd_chan c f w) = msg_chan w"
  "sems (upd_chan c f w) = sems w" "keys (upd_chan c f w) = keys w" "signals (upd_chan c f w) = signals w"
  "moved_from (upd_chan c f w) = moved_from w"
  by (simp_all add: upd_chan_def)

lemma store_rest [simp, effect_simps]:
  "msg (store d v w) = msg w" "msg_chan (store d v w) = msg_chan w" "sems (store d v w) = sems w"
  "keys (store d v w) = keys w" "signals (store d v w) = signals w" "chans (store d v w) = chans w"
  "moved_from (store d v w) = moved_from w"
  by (simp_all add: store_def split: option.split)

lemma store_mem [effect_simps]:
  "mem (store d v w) a = (if d = Some a then (case v of None \<Rightarrow> mem w a | Some x \<Rightarrow> x) else mem w a)"
  by (auto simp: store_def split: option.split)

lemma leave_rest [simp, effect_simps]:
  "msg (leave p w) = msg w" "msg_chan (leave p w) = msg_chan w" "sems (leave p w) = sems w"
  "keys (leave p w) = keys w" "signals (leave p w) = signals w" "chans (leave p w) = chans w"
  "moved_from (leave p w) = moved_from w"
  by (simp_all add: leave_def)

lemma leave_mem [effect_simps]:
  "mem (leave p w) a = (if p = Some a then moved_from w (mem w a) else mem w a)"
  by (auto simp: leave_def store_mem split: option.split)

lemma leave_null [simp]: "leave None w = w"
  by (simp add: leave_def store_def)

lemma leave_place_rest [simp, effect_simps]:
  "msg (leave_place src w) = msg w" "msg_chan (leave_place src w) = msg_chan w"
  "sems (leave_place src w) = sems w" "keys (leave_place src w) = keys w"
  "signals (leave_place src w) = signals w" "chans (leave_place src w) = chans w"
  "moved_from (leave_place src w) = moved_from w"
  by (cases src; simp)+

lemma msg_move_rest [simp, effect_simps]:
  "msg (snd (msg_move src dst w)) = msg w" "msg_chan (snd (msg_move src dst w)) = msg_chan w"
  "sems (snd (msg_move src dst w)) = sems w" "keys (snd (msg_move src dst w)) = keys w"
  "signals (snd (msg_move src dst w)) = signals w" "chans (snd (msg_move src dst w)) = chans w"
  "moved_from (snd (msg_move src dst w)) = moved_from w"
  by (cases dst; simp add: msg_move.simps split: option.split)+

lemma commit_simplex_rest [simp, effect_simps]:
  "mem (commit_simplex g w) = mem w" "msg (commit_simplex g w) = msg w"
  "msg_chan (commit_simplex g w) = msg_chan w" "keys (commit_simplex g w) = keys w"
  "signals (commit_simplex g w) = signals w" "chans (commit_simplex g w) = chans w"
  "moved_from (commit_simplex g w) = moved_from w"
  by (simp_all add: commit_simplex_def split: option.split)

lemma commit_simplex_sems [effect_simps]:
  "sems (commit_simplex g w) i = (if g = Some i then Suc (sems w i) else sems w i)"
  by (auto simp: commit_simplex_def split: option.split)

lemma commit_multiplex_rest [simp, effect_simps]:
  "mem (commit_multiplex s k w) = mem w" "msg (commit_multiplex s k w) = msg w"
  "msg_chan (commit_multiplex s k w) = msg_chan w" "sems (commit_multiplex s k w) = sems w"
  "chans (commit_multiplex s k w) = chans w" "moved_from (commit_multiplex s k w) = moved_from w"
  by (simp_all add: commit_multiplex_def)

lemma commit_multiplex_select [simp, effect_simps]:
  "keys (commit_multiplex s k w) = (keys w)(s := k)"
  "signals (commit_multiplex s k w) = (signals w)(s := Suc (signals w s))"
  by (simp_all add: commit_multiplex_def)

text \<open>Transfers touch no channel; the buffer operations only buffers.\<close>

lemma send_to_ptr_frame [simp]:
  "msg (snd (snd (send_to_ptr m dst w))) = msg w" "chans (snd (snd (send_to_ptr m dst w))) = chans w"
  "msg_chan (snd (snd (send_to_ptr m dst w))) = msg_chan w"
  by (simp_all add: send_to_ptr_def split_beta split: payload.split)

lemma recv_from_ptr_frame [simp]:
  "msg (snd (recv_from_ptr m src w)) = msg w" "chans (snd (recv_from_ptr m src w)) = chans w"
  "msg_chan (snd (recv_from_ptr m src w)) = msg_chan w"
  by (simp_all add: recv_from_ptr_def split: payload.split)

lemma send_to_msg_frame [simp]:
  "msg (snd (send_to_msg a b w)) = msg w" "chans (snd (send_to_msg a b w)) = chans w"
  "msg_chan (snd (send_to_msg a b w)) = msg_chan w"
  by (simp_all add: send_to_msg_def send_to_ptr_def recv_from_ptr_def split_beta split: payload.split)

lemma buffer_send_to_frame [simp]:
  "senders (chans (snd (buffer_send_to c m w)) x) = senders (chans w x)"
  "recvers (chans (snd (buffer_send_to c m w)) x) = recvers (chans w x)"
  "capacity (chans (snd (buffer_send_to c m w)) x) = capacity (chans w x)"
  "msg (snd (buffer_send_to c m w)) = msg w" "msg_chan (snd (buffer_send_to c m w)) = msg_chan w"
  by (simp_all add: buffer_send_to_def recv_from_ptr_def split: list.split payload.split)

lemma buffer_recv_from_frame [simp]:
  "senders (chans (snd (buffer_recv_from c m w)) x) = senders (chans w x)"
  "recvers (chans (snd (buffer_recv_from c m w)) x) = recvers (chans w x)"
  "capacity (chans (snd (buffer_recv_from c m w)) x) = capacity (chans w x)"
  "msg (snd (buffer_recv_from c m w)) = msg w" "msg_chan (snd (buffer_recv_from c m w)) = msg_chan w"
  by (simp_all add: buffer_recv_from_def send_to_ptr_def split_beta split: payload.split)

lemma set_queue_frame [simp]:
  "msg (set_senders c q w) = msg w" "msg (set_recvers c q w) = msg w"
  "msg_chan (set_senders c q w) = msg_chan w" "msg_chan (set_recvers c q w) = msg_chan w"
  "senders (chans (set_senders c q w) c) = q" "recvers (chans (set_recvers c q w) c) = q"
  by (simp_all add: set_senders_def set_recvers_def)

lemma take_from_senders_status: "take_from_senders c dst q w = (r, w') \<Longrightarrow> r \<noteq> Inr (Some CInprocess)"
  by (induction q arbitrary: w) (auto split: prod.splits sum.splits transfer.splits)

lemma give_to_recvers_status: "give_to_recvers c src q w = (r, w') \<Longrightarrow> r \<noteq> Inr (Some CInprocess)"
  by (induction q arbitrary: w) (auto split: prod.splits sum.splits transfer.splits)

section \<open>The interface\<close>

text \<open>
  \<open>home\<close> is the channel of the operation; \<open>parts\<close> are the messages that take part: the
  operation's own and those waiting on the channel. Only their cells are written, only their semaphores released, and only live selects
  of theirs fired.
\<close>

locale transfer_order =
  fixes parts :: "nat set" and home :: nat and leq :: "('d :: zero) world \<Rightarrow> 'd world \<Rightarrow> bool"
  assumes leq_refl: "leq w w"
    and leq_trans: "leq u v \<Longrightarrow> leq v w \<Longrightarrow> leq u w"
    and leq_store: "m \<in> parts \<Longrightarrow> leq w (store (pointer (msg w m)) y w)"
    and leq_release: "m \<in> parts \<Longrightarrow> msg w m = Simplex d g \<Longrightarrow> leq w (commit_simplex g w)"
    and leq_fire: "m \<in> parts \<Longrightarrow> msg w m = Multiplex d s k \<Longrightarrow> keys w s = INT_MIN \<Longrightarrow>
      leq w (commit_multiplex s k w)"
    and leq_push: "length (buffer (chans w home)) \<noteq> capacity (chans w home) \<Longrightarrow> leq w (buffer_push home x w)"
    and leq_pop: "leq w (buffer_pop home w)"
    and leq_senders: "senders (chans w home) = m # q \<Longrightarrow> leq w (set_senders home q w)"
    and leq_recvers: "recvers (chans w home) = m # q \<Longrightarrow> leq w (set_recvers home q w)"
begin

text \<open>A move reads and writes variables of those who take part, at most.\<close>

definition part_place :: "'d world \<Rightarrow> 'd msg_place \<Rightarrow> bool" where
  "part_place w src \<longleftrightarrow> (\<forall>p. src = Var p \<longrightarrow> (\<exists>a \<in> parts. p = pointer (msg w a)))"

lemma part_place_simps [simp]:
  "part_place w (Local x)" "a \<in> parts \<Longrightarrow> msg w a = Simplex d g \<Longrightarrow> part_place w (Var d)"
  "a \<in> parts \<Longrightarrow> msg w a = Multiplex d s k \<Longrightarrow> part_place w (Var d)"
  by (force simp: part_place_def)+

lemma leave_place_leq: "part_place w src \<Longrightarrow> msg v = msg w \<Longrightarrow> leq v (leave_place src v)"
  using leq_refl leq_store by (cases src) (auto simp: part_place_def leave_def, metis)

lemma msg_move_leq:
  assumes "part_place w src" "part_place w dst"
  shows "leq w (snd (msg_move src dst w))"
proof (cases dst)
  case (Var d)
  have "leq w (store d (content src w) w)" using assms(2) leq_store by (auto simp: part_place_def Var)
  moreover have "leq (store d (content src w) w) (leave_place src (store d (content src w) w))"
    using assms(1) by (rule leave_place_leq) simp
  ultimately show ?thesis using leq_trans leq_refl by (auto simp: Var msg_move.simps)
next
  case (Local y)
  with leave_place_leq [OF assms(1) refl] leq_refl show ?thesis by (simp add: msg_move.simps split: option.split)
qed

lemma recv_from_ptr_leq:
  assumes "m \<in> parts" "part_place w src"
  shows "leq w (snd (recv_from_ptr m src w))"
proof (cases "msg w m")
  case (Simplex d g)
  then have "leq w (snd (msg_move src (Var d) w))" using assms by (intro msg_move_leq) simp_all
  moreover have "leq (snd (msg_move src (Var d) w)) (commit_simplex g (snd (msg_move src (Var d) w)))"
    using Simplex by (intro leq_release [OF assms(1)]) simp
  ultimately show ?thesis using Simplex leq_trans by (simp add: recv_from_ptr_def)
next
  case (Multiplex d s k)
  then have "leq w (snd (msg_move src (Var d) w))" using assms by (intro msg_move_leq) simp_all
  moreover have "leq (snd (msg_move src (Var d) w)) (commit_multiplex s k (snd (msg_move src (Var d) w)))" if "keys w s = INT_MIN"
    using Multiplex that by (intro leq_fire [OF assms(1)]) simp_all
  ultimately show ?thesis using Multiplex leq_trans leq_refl by (simp add: recv_from_ptr_def)
qed

lemma send_to_ptr_leq:
  assumes "m \<in> parts" "part_place w dst"
  shows "leq w (snd (snd (send_to_ptr m dst w)))"
proof (cases "msg w m")
  case (Simplex d g)
  then have "leq w (snd (msg_move (Var d) dst w))" using assms by (intro msg_move_leq) simp_all
  moreover have "leq (snd (msg_move (Var d) dst w)) (commit_simplex g (snd (msg_move (Var d) dst w)))"
    using Simplex by (intro leq_release [OF assms(1)]) simp
  ultimately show ?thesis using Simplex leq_trans by (simp add: send_to_ptr_def split_beta)
next
  case (Multiplex d s k)
  then have "leq w (snd (msg_move (Var d) dst w))" using assms by (intro msg_move_leq) simp_all
  moreover have "leq (snd (msg_move (Var d) dst w)) (commit_multiplex s k (snd (msg_move (Var d) dst w)))" if "keys w s = INT_MIN"
    using Multiplex that by (intro leq_fire [OF assms(1)]) simp_all
  ultimately show ?thesis using Multiplex leq_trans leq_refl by (simp add: send_to_ptr_def split_beta)
qed

lemma commit_after_recv:
  assumes "m \<in> parts" "b \<in> parts" "msg w m = Simplex d g"
  shows "leq w (commit_simplex g (snd (recv_from_ptr b (Var d) w)))"
  using assms leq_trans [OF recv_from_ptr_leq leq_release] recv_from_ptr_frame(1) part_place_simps(2) by metis

lemma commit_after_send:
  assumes "a \<in> parts" "m \<in> parts" "msg w m = Simplex d g"
  shows "leq w (commit_simplex g (snd (snd (send_to_ptr a (Var d) w))))"
  using assms leq_trans [OF send_to_ptr_leq leq_release] send_to_ptr_frame(1) part_place_simps(2) by metis

lemma fire_both:
  assumes "a \<in> parts" "b \<in> parts" "msg w a = Multiplex d s k" "msg w b = Multiplex d' s' k'"
    "s \<noteq> s'" "keys w s = INT_MIN" "keys w s' = INT_MIN"
  shows "leq w (commit_multiplex s' k' (commit_multiplex s k (snd (msg_move (Var d) (Var d') w))))"
proof -
  let ?w1 = "snd (msg_move (Var d) (Var d') w)"
  let ?w2 = "commit_multiplex s k ?w1"
  have "leq w ?w1" using assms by (intro msg_move_leq) simp_all
  moreover have "leq ?w1 ?w2" using assms by (intro leq_fire [of a]) simp_all
  moreover have "leq ?w2 (commit_multiplex s' k' ?w2)" using assms by (intro leq_fire [of b]) simp_all
  ultimately show ?thesis by (rule leq_trans [OF leq_trans])
qed

lemma send_to_msg_leq:
  assumes "a \<in> parts" "b \<in> parts"
  shows "leq w (snd (send_to_msg a b w))"
proof (cases "msg w a")
  case (Simplex d g)
  then show ?thesis
    using commit_after_recv [OF assms Simplex] recv_from_ptr_leq [OF assms(2) part_place_simps(2) [OF assms(1) Simplex]]
    by (simp add: send_to_msg_def split_beta)
next
  case a: (Multiplex d s k)
  show ?thesis
  proof (cases "msg w b")
    case (Simplex d' g')
    with a show ?thesis
      using commit_after_send [OF assms Simplex] send_to_ptr_leq [OF assms(1) part_place_simps(2) [OF assms(2) Simplex]]
      by (simp add: send_to_msg_def split_beta)
  next
    case (Multiplex d' s' k')
    with a show ?thesis using fire_both [OF assms a Multiplex] leq_refl by (simp add: send_to_msg_def)
  qed
qed

lemma buffer_send_to_leq: "m \<in> parts \<Longrightarrow> leq w (snd (buffer_send_to home m w))"
  using recv_from_ptr_leq [OF _ part_place_simps(1)] leq_pop leq_refl leq_trans unfolding buffer_pop_def
  by (fastforce simp: buffer_send_to_def split: list.split prod.split dest: arg_cong [where f = snd])

lemma buffer_recv_from_leq: "m \<in> parts \<Longrightarrow> leq w (snd (buffer_recv_from home m w))"
proof (cases "send_to_ptr m (Local 0) w")
  case (fields r v w1)
  assume m: "m \<in> parts"
  have "leq w w1" "chans w1 = chans w"
    using send_to_ptr_leq [OF m part_place_simps(1), of w 0] send_to_ptr_frame [of m "Local 0" w] fields by auto
  with fields leq_trans [OF _ leq_push [of w1]] leq_refl show ?thesis
    by (simp add: buffer_recv_from_def buffer_push_def)
qed

lemma refill_buffer_leq:
  "set q \<subseteq> parts \<Longrightarrow> senders (chans w home) = q \<Longrightarrow> leq w (refill_buffer home q w)"
proof (induction q arbitrary: w)
  case Nil
  then show ?case by (simp add: leq_refl)
next
  case (Cons m q)
  obtain ok w1 where b: "buffer_recv_from home m (set_senders home q w) = (ok, w1)" by fastforce
  have "leq w (set_senders home q w)" using Cons.prems(2) by (rule leq_senders)
  moreover have "leq (set_senders home q w) w1"
    using buffer_recv_from_leq [of m "set_senders home q w"] Cons.prems(1) b by simp
  ultimately have w1: "leq w w1" by (rule leq_trans)
  moreover have "senders (chans w1 home) = q"
    using buffer_recv_from_frame(1) [of home m "set_senders home q w" home] b by simp
  ultimately show ?case using leq_trans [OF w1 Cons.IH [of w1]] w1 Cons.prems(1) b by simp
qed

lemma drain_buffer_leq:
  "set q \<subseteq> parts \<Longrightarrow> recvers (chans w home) = q \<Longrightarrow> leq w (drain_buffer home q w)"
proof (induction q arbitrary: w)
  case Nil
  then show ?case by (simp add: leq_refl)
next
  case (Cons m q)
  obtain ok w1 where b: "buffer_send_to home m (set_recvers home q w) = (ok, w1)" by fastforce
  have "leq w (set_recvers home q w)" using Cons.prems(2) by (rule leq_recvers)
  moreover have "leq (set_recvers home q w) w1"
    using buffer_send_to_leq [of m "set_recvers home q w"] Cons.prems(1) b by simp
  ultimately have w1: "leq w w1" by (rule leq_trans)
  moreover have "recvers (chans w1 home) = q"
    using buffer_send_to_frame(2) [of home m "set_recvers home q w" home] b by simp
  ultimately show ?case using leq_trans [OF w1 Cons.IH [of w1]] w1 Cons.prems(1) b by simp
qed

lemma take_from_senders_leq:
  "dst \<in> parts \<Longrightarrow> set q \<subseteq> parts \<Longrightarrow> senders (chans w home) = q \<Longrightarrow>
     leq w (snd (take_from_senders home dst q w))"
proof (induction q arbitrary: w)
  case Nil
  then show ?case by (simp add: leq_refl)
next
  case (Cons m q)
  obtain r w1 where b: "send_to_msg m dst w = (r, w1)" by fastforce
  have w1: "leq w w1" using send_to_msg_leq [of m dst w] Cons.prems b by simp
  have "senders (chans w1 home) = m # q" using send_to_msg_frame(2) [of m dst w] Cons.prems(3) b by simp
  then have q: "leq w (set_senders home q w1)" by (blast intro: leq_trans [OF w1] leq_senders)
  show ?case using leq_trans [OF q Cons.IH [of "set_senders home q w1"]] Cons.prems(1,2) b w1 q
    by (simp split: sum.split transfer.split)
qed

lemma give_to_recvers_leq:
  "src \<in> parts \<Longrightarrow> set q \<subseteq> parts \<Longrightarrow> recvers (chans w home) = q \<Longrightarrow>
     leq w (snd (give_to_recvers home src q w))"
proof (induction q arbitrary: w)
  case Nil
  then show ?case by (simp add: leq_refl)
next
  case (Cons m q)
  obtain r w1 where b: "send_to_msg src m w = (r, w1)" by fastforce
  have w1: "leq w w1" using send_to_msg_leq [of src m w] Cons.prems b by simp
  have "recvers (chans w1 home) = m # q" using send_to_msg_frame(2) [of src m w] Cons.prems(3) b by simp
  then have q: "leq w (set_recvers home q w1)" by (blast intro: leq_trans [OF w1] leq_recvers)
  show ?case using leq_trans [OF q Cons.IH [of "set_recvers home q w1"]] Cons.prems(1,2) b w1 q
    by (simp split: sum.split transfer.split)
qed

text \<open>
  A whole operation: it sets \<open>_chan\<close>, does primitive writes, and at the end queues the message
  if it answers \<open>Inprocess\<close>.
\<close>

theorem chan_send_to_leq:
  assumes "chan_send_to home dst oneshot w = (r, w')" "dst \<in> parts" "set (senders (chans w home)) \<subseteq> parts"
  shows "\<exists>w1. leq (w\<lparr>msg_chan := (msg_chan w)(dst := Some home)\<rparr>) w1 \<and>
    w' = (if r = Inr CInprocess then set_recvers home (recvers (chans w1 home) @ [dst]) w1 else w1)"
proof -
  let ?w = "w\<lparr>msg_chan := (msg_chan w)(dst := Some home)\<rparr>"
  obtain ok w1 where b: "buffer_send_to home dst ?w = (ok, w1)" by fastforce
  have w1: "leq ?w w1" "set (senders (chans w1 home)) \<subseteq> parts"
    using buffer_send_to_leq [OF assms(2), of ?w] buffer_send_to_frame(1) [of home dst ?w home] assms(3) b by simp_all
  show ?thesis
  proof (cases ok)
    case True
    with assms(1) b have "r = Inr CReady" "w' = refill_buffer home (senders (chans w1 home)) w1"
      by (simp_all add: chan_send_to_def)
    with leq_trans [OF w1(1) refill_buffer_leq [OF w1(2) refl]] show ?thesis by auto
  next
    case False
    obtain t w2 where t: "take_from_senders home dst (senders (chans w1 home)) w1 = (t, w2)" by fastforce
    have "leq ?w w2"
      using leq_trans [OF w1(1) take_from_senders_leq [OF assms(2) w1(2) refl]] t by (metis snd_conv)
    moreover have "w' = (if r = Inr CInprocess then set_recvers home (recvers (chans w2 home) @ [dst]) w2 else w2)"
      using assms(1) b False t take_from_senders_status [OF t]
      by (auto simp: chan_send_to_def split: sum.splits option.splits if_splits)
    ultimately show ?thesis by blast
  qed
qed

theorem chan_recv_from_leq:
  assumes "chan_recv_from home src oneshot w = (r, w')" "src \<in> parts" "set (recvers (chans w home)) \<subseteq> parts"
  shows "\<exists>w1. leq (w\<lparr>msg_chan := (msg_chan w)(src := Some home)\<rparr>) w1 \<and>
    w' = (if r = Inr CInprocess then set_senders home (senders (chans w1 home) @ [src]) w1 else w1)"
proof -
  let ?w = "w\<lparr>msg_chan := (msg_chan w)(src := Some home)\<rparr>"
  obtain ok w1 where b: "buffer_recv_from home src ?w = (ok, w1)" by fastforce
  have w1: "leq ?w w1" "set (recvers (chans w1 home)) \<subseteq> parts"
    using buffer_recv_from_leq [OF assms(2), of ?w] buffer_recv_from_frame(2) [of home src ?w home] assms(3) b by simp_all
  show ?thesis
  proof (cases ok)
    case True
    with assms(1) b have "r = Inr CReady" "w' = drain_buffer home (recvers (chans w1 home)) w1"
      by (simp_all add: chan_recv_from_def)
    with leq_trans [OF w1(1) drain_buffer_leq [OF w1(2) refl]] show ?thesis by auto
  next
    case False
    obtain t w2 where t: "give_to_recvers home src (recvers (chans w1 home)) w1 = (t, w2)" by fastforce
    have "leq ?w w2"
      using leq_trans [OF w1(1) give_to_recvers_leq [OF assms(2) w1(2) refl]] t by (metis snd_conv)
    moreover have "w' = (if r = Inr CInprocess then set_senders home (senders (chans w2 home) @ [src]) w2 else w2)"
      using assms(1) b False t give_to_recvers_status [OF t]
      by (auto simp: chan_recv_from_def split: sum.splits option.splits if_splits)
    ultimately show ?thesis by blast
  qed
qed

end

end
