(* ===== verification/ChannelSafety.thy ===== *)
theory ChannelSafety
  imports ChannelFrames "HOL-Library.Sublist"
begin

text \<open>
  Safety of channels under any sequence of operations by any number of coroutines and selects:
  buffers stay within capacity, a select fires at most once, a message waits in at most one
  queue, and leaving drops it from every queue, so no queue holds a message of a coroutine
  that has gone on.
\<close>

section \<open>Instances of the transfer order\<close>

definition buffers_bounded :: "'d world \<Rightarrow> bool" where
  "buffers_bounded w \<longleftrightarrow> (\<forall>c. length (buffer (chans w c)) \<le> capacity (chans w c))"

definition bounded_leq :: "'d world \<Rightarrow> 'd world \<Rightarrow> bool" where
  "bounded_leq w w' \<longleftrightarrow>
     (\<forall>c. capacity (chans w' c) = capacity (chans w c) \<and>
       (length (buffer (chans w c)) \<le> capacity (chans w c) \<longrightarrow>
        length (buffer (chans w' c)) \<le> capacity (chans w' c)))"

interpretation bounded: transfer_order UNIV home bounded_leq for home
proof (unfold_locales, goal_cases)
  case (2 u v w)
  then show ?case unfolding bounded_leq_def by metis
qed (auto simp: bounded_leq_def buffer_push_def buffer_pop_def set_senders_def set_recvers_def)

text \<open>A select that has fired is left alone; one that has not fires at most once.\<close>

definition keys_ok :: "'d world \<Rightarrow> bool" where
  "keys_ok w \<longleftrightarrow> (\<forall>m. case msg w m of Simplex _ _ \<Rightarrow> True | Multiplex _ _ k \<Rightarrow> k \<noteq> INT_MIN)"

definition fires_leq :: "'d world \<Rightarrow> 'd world \<Rightarrow> bool" where
  "fires_leq w w' \<longleftrightarrow> msg w' = msg w \<and>
     (keys_ok w \<longrightarrow>
       (\<forall>s. if keys w s \<noteq> INT_MIN then keys w' s = keys w s \<and> signals w' s = signals w s
         else signals w' s = signals w s + (if keys w' s = INT_MIN then 0 else 1)))"

lemma keys_okD: "keys_ok w \<Longrightarrow> msg w m = Multiplex d s k \<Longrightarrow> k \<noteq> INT_MIN"
  by (auto simp: keys_ok_def split: payload.splits)

lemma fires_leq_trans:
  assumes "fires_leq u v" "fires_leq v w"
  shows "fires_leq u w"
proof -
  have "keys_ok v" if "keys_ok u" using that assms(1) by (simp add: fires_leq_def keys_ok_def)
  with assms show ?thesis unfolding fires_leq_def by (smt (verit) add.right_neutral)
qed

interpretation fires: transfer_order UNIV home fires_leq for home
proof (unfold_locales, goal_cases)
  case (2 u v w)
  then show ?case by (rule fires_leq_trans)
next
  case (5 m w d s k)
  then show ?case using keys_okD [OF _ 5(2)] by (auto simp: fires_leq_def)
qed (auto simp: fires_leq_def buffer_push_def buffer_pop_def set_senders_def set_recvers_def)

text \<open>During an operation queues only lose messages at the front.\<close>

definition shrink_leq :: "'d world \<Rightarrow> 'd world \<Rightarrow> bool" where
  "shrink_leq w w' \<longleftrightarrow> msg_chan w' = msg_chan w \<and>
     (\<forall>c. suffix (senders (chans w' c)) (senders (chans w c)) \<and>
          suffix (recvers (chans w' c)) (recvers (chans w c)))"

interpretation shrink: transfer_order UNIV home shrink_leq for home
proof (unfold_locales, goal_cases)
  case (2 u v w)
  then show ?case unfolding shrink_leq_def by (metis suffix_order.trans)
qed (auto simp: shrink_leq_def buffer_push_def buffer_pop_def set_senders_def set_recvers_def suffix_ConsI)

section \<open>All steps\<close>

text \<open>
  Operations whose own messages satisfy \<open>A\<close>, and what may happen between them: messages are set up on unused storage, coroutines
  and selects take their permit, a select falls back to its default, variables change.
\<close>

definition unqueued :: "'d world \<Rightarrow> nat \<Rightarrow> bool" where
  "unqueued w m \<longleftrightarrow> (\<forall>c. m \<notin> set (senders (chans w c)) \<and> m \<notin> set (recvers (chans w c)))"

fun payload_ok :: "payload \<Rightarrow> bool" where
  "payload_ok (Simplex d g) = True"
| "payload_ok (Multiplex d s k) = (k \<noteq> INT_MIN)"

inductive chan_step :: "(payload \<Rightarrow> bool) \<Rightarrow> ('d :: zero) world \<Rightarrow> 'd world \<Rightarrow> bool" for A where
  step_new: "unqueued w m \<Longrightarrow> A p \<Longrightarrow> chan_step A w (new_msg m p w)"
| step_send: "unqueued w m \<Longrightarrow> A (msg w m) \<Longrightarrow> chan_recv_from c m oneshot w = (r, w') \<Longrightarrow> chan_step A w w'"
| step_receive: "unqueued w m \<Longrightarrow> A (msg w m) \<Longrightarrow> chan_send_to c m oneshot w = (r, w') \<Longrightarrow> chan_step A w w'"
| step_drop: "drop_msg m w = Some w' \<Longrightarrow> chan_step A w w'"
| step_aquire: "sems w g > 0 \<Longrightarrow> chan_step A w (w\<lparr>sems := (sems w)(g := sems w g - 1)\<rparr>)"
| step_selected: "signals w s > 0 \<Longrightarrow> chan_step A w (w\<lparr>signals := (signals w)(s := signals w s - 1)\<rparr>)"
| step_default: "keys w s = INT_MIN \<Longrightarrow> k \<noteq> INT_MIN \<Longrightarrow> chan_step A w (w\<lparr>keys := (keys w)(s := k)\<rparr>)"
| step_write: "chan_step A w (w\<lparr>mem := (mem w)(a := x)\<rparr>)"

definition new_world :: "('d \<Rightarrow> 'd) \<Rightarrow> (nat \<Rightarrow> nat) \<Rightarrow> ('d :: zero) world" where
  "new_world mv caps = \<lparr>mem = (\<lambda>_. 0), msg = (\<lambda>_. Simplex None None), msg_chan = (\<lambda>_. None),
     sems = (\<lambda>_. 0), keys = (\<lambda>_. INT_MIN), signals = (\<lambda>_. 0), chans = (\<lambda>c. new_chan (caps c)), moved_from = mv\<rparr>"

inductive chan_reach :: "(nat \<Rightarrow> nat) \<Rightarrow> ('d :: zero) world \<Rightarrow> bool" for caps where
  reach_new: "chan_reach caps (new_world mv caps)"
| reach_step: "chan_reach caps w \<Longrightarrow> chan_step payload_ok w w' \<Longrightarrow> chan_reach caps w'"

text \<open>The two operations as writes in the order of each instance.\<close>

lemmas send_bounded = bounded.chan_recv_from_leq [OF _ UNIV_I subset_UNIV]
  and receive_bounded = bounded.chan_send_to_leq [OF _ UNIV_I subset_UNIV]
  and send_fires = fires.chan_recv_from_leq [OF _ UNIV_I subset_UNIV]
  and receive_fires = fires.chan_send_to_leq [OF _ UNIV_I subset_UNIV]
  and send_shrinks = shrink.chan_recv_from_leq [OF _ UNIV_I subset_UNIV]
  and receive_shrinks = shrink.chan_send_to_leq [OF _ UNIV_I subset_UNIV]

subsection \<open>Buffers\<close>

lemma bounded_step:
  assumes "chan_step A w w'"
  shows "bounded_leq w w'"
  using assms
proof cases
  case (step_send m c oneshot r)
  with send_bounded [OF step_send(3)] show ?thesis
    by (auto simp: bounded_leq_def set_senders_def split: if_splits)
next
  case (step_receive m c oneshot r)
  with receive_bounded [OF step_receive(3)] show ?thesis
    by (auto simp: bounded_leq_def set_recvers_def split: if_splits)
qed (auto simp: bounded_leq_def new_msg_def drop_msg_def split: option.splits)

text \<open>
  In every reachable state every channel holds at most its capacity of buffered values, and
  its capacity is the one it was made with, whatever mixture of senders, receivers, selects,
  one-shot sends and departures has used it.
\<close>

theorem buffer_within_capacity:
  "chan_reach caps w \<Longrightarrow> capacity (chans w c) = caps c \<and> length (buffer (chans w c)) \<le> caps c"
proof (induction rule: chan_reach.induct)
  case reach_new
  then show ?case by (simp add: new_world_def new_chan_def)
next
  case (reach_step w w')
  then show ?case using bounded_step [OF reach_step(2)] unfolding bounded_leq_def by metis
qed

theorem buffer_within_capacity_witness:
  "length (buffer (chans (snd (chan_recv_from 0 5 False (new_world id (\<lambda>_. 1) :: int world))) 0)) \<le> 1"
proof -
  obtain r w where w: "chan_recv_from 0 5 False (new_world id (\<lambda>_. 1) :: int world) = (r, w)" by fastforce
  have "chan_reach (\<lambda>_. 1) w"
    by (rule reach_step [OF reach_new], rule step_send [OF _ _ w])
      (simp_all add: unqueued_def new_world_def new_chan_def)
  from buffer_within_capacity [OF this, of 0] w show ?thesis by simp
qed

subsection \<open>Selects\<close>

definition fired_once :: "'d world \<Rightarrow> bool" where
  "fired_once w \<longleftrightarrow> keys_ok w \<and> (\<forall>s. signals w s \<le> (if keys w s = INT_MIN then 0 else 1))"

lemma fires_fired_once: "fires_leq w w' \<Longrightarrow> fired_once w \<Longrightarrow> fired_once w'"
  unfolding fires_leq_def fired_once_def keys_ok_def by (smt (verit) add_0 le_zero_eq le_refl)

lemma keys_ok_payload: "keys_ok w \<longleftrightarrow> (\<forall>m. payload_ok (msg w m))"
  unfolding keys_ok_def by (rule all_cong1) (simp split: payload.split)

lemma fired_once_less:
  "fired_once w \<Longrightarrow> msg w' = msg w \<Longrightarrow> keys w' = keys w \<Longrightarrow> (\<And>s. signals w' s \<le> signals w s) \<Longrightarrow> fired_once w'"
  unfolding fired_once_def keys_ok_def by (metis order_trans)

lemma fired_once_step:
  assumes "chan_step payload_ok w w'" "fired_once w"
  shows "fired_once w' \<and> (\<forall>s. keys w s \<noteq> INT_MIN \<longrightarrow> keys w' s = keys w s)"
proof -
  have op: "fired_once v \<and> (\<forall>s. keys w s \<noteq> INT_MIN \<longrightarrow> keys v s = keys w s)"
    if "fires_leq (w\<lparr>msg_chan := f\<rparr>) v" for f v
    using fires_fired_once [OF that] that assms(2) by (auto simp: fires_leq_def fired_once_def keys_ok_def)
  from assms(1) show ?thesis
  proof cases
    case (step_send m c oneshot r)
    with send_fires [OF step_send(3)] op show ?thesis
      by (fastforce simp: fired_once_def keys_ok_def set_senders_def split: if_splits)
  next
    case (step_receive m c oneshot r)
    with receive_fires [OF step_receive(3)] op show ?thesis
      by (fastforce simp: fired_once_def keys_ok_def set_recvers_def split: if_splits)
  next
    case (step_selected s)
    with fired_once_less [OF assms(2), of w'] show ?thesis by simp
  next
    case (step_new m p)
    with assms(2) show ?thesis by (simp add: fired_once_def keys_ok_payload new_msg_def)
  next
    case (step_drop m)
    then have "msg w' = msg w" "keys w' = keys w" "signals w' = signals w"
      by (auto simp: drop_msg_def split: option.splits)
    with fired_once_less [OF assms(2), of w'] show ?thesis by simp
  qed (use assms(2) in \<open>auto simp: fired_once_def keys_ok_def split: if_splits\<close>)
qed

lemma reach_fired_once: "chan_reach caps w \<Longrightarrow> fired_once w"
proof (induction rule: chan_reach.induct)
  case reach_new
  then show ?case by (simp add: fired_once_def keys_ok_def new_world_def)
qed (use fired_once_step in blast)

lemma fired_once_bounds: "fired_once w \<Longrightarrow> signals w s \<le> 1 \<and> (keys w s = INT_MIN \<longrightarrow> signals w s = 0)"
proof -
  assume "fired_once w"
  then have "signals w s \<le> (if keys w s = INT_MIN then 0 else 1)" unfolding fired_once_def by blast
  then show ?thesis by (cases "keys w s = INT_MIN") simp_all
qed

text \<open>
  C8: A select fires at most once: from any reachable state, once a case or the default has set
  the key of a select, no later sequence of operations on any channel changes it, its signal
  is never given a second permit, and it has no permit before a case has fired.
\<close>

theorem select_fires_at_most_once:
  assumes "chan_reach caps w" "(chan_step payload_ok)\<^sup>*\<^sup>* w w'" "keys w s \<noteq> INT_MIN"
  shows "keys w' s = keys w s \<and> signals w' s \<le> 1 \<and> (keys w t = INT_MIN \<longrightarrow> signals w t = 0)"
proof -
  have "fired_once w' \<and> keys w' s = keys w s"
    using assms(2)
  proof (induction rule: rtranclp_induct)
    case base
    then show ?case using reach_fired_once [OF assms(1)] by simp
  next
    case (step y z)
    then show ?case using fired_once_step [OF step(2)] assms(3) by auto
  qed
  with assms(3) reach_fired_once [OF assms(1)] show ?thesis
    using fired_once_bounds by fastforce
qed

text \<open>Two coroutines select on channels \<open>0\<close> and \<open>1\<close>; a sender fires the first case.\<close>

definition select_demo :: "int world" where
  "select_demo =
     snd (chan_recv_from 0 7 True
       (snd (chan_send_to 1 6 False
         (snd (chan_send_to 0 5 False
           (new_msg 7 (Simplex (Some 27) None)
             (new_msg 6 (Multiplex (Some 26) 30 12)
               (new_msg 5 (Multiplex (Some 25) 30 11) (new_world id (\<lambda>_. 0))))))))))"

lemma select_demo_reach: "chan_reach (\<lambda>_. 0) select_demo"
proof -
  let ?w0 = "new_world id (\<lambda>_. 0) :: int world"
  let ?w1 = "new_msg 5 (Multiplex (Some 25) 30 11) ?w0"
  let ?w2 = "new_msg 6 (Multiplex (Some 26) 30 12) ?w1"
  let ?w3 = "new_msg 7 (Simplex (Some 27) None) ?w2"
  have q: "\<forall>c. senders (chans ?w3 c) = [] \<and> recvers (chans ?w3 c) = []"
    by (simp add: new_msg_def new_world_def new_chan_def)
  have r3: "chan_reach (\<lambda>_. 0) ?w3"
    by (rule reach_step [OF reach_step [OF reach_step [OF reach_new step_new] step_new] step_new])
      (simp_all add: unqueued_def new_msg_def new_world_def new_chan_def)
  obtain r4 w4 where w4: "chan_send_to 0 5 False ?w3 = (r4, w4)" by fastforce
  have r4: "chan_reach (\<lambda>_. 0) w4"
    by (rule reach_step [OF r3], rule step_receive [OF _ _ w4]) (use q in \<open>simp_all add: unqueued_def new_msg_def\<close>)
  obtain r5 w5 where w5: "chan_send_to 1 6 False w4 = (r5, w5)" by fastforce
  have f4: "unqueued w4 6" "payload_ok (msg w4 6)" "unqueued w4 7" "payload_ok (msg w4 7)"
    using w4 by (auto simp: chan_defs new_world_def unqueued_def split: if_splits)
  have r5: "chan_reach (\<lambda>_. 0) w5"
    by (rule reach_step [OF r4], rule step_receive [OF _ _ w5]) (use f4 in simp_all)
  obtain r6 w6 where w6: "chan_recv_from 0 7 True w5 = (r6, w6)" by fastforce
  have f5: "unqueued w5 7" "payload_ok (msg w5 7)"
    using w4 w5 by (auto simp: chan_defs new_world_def unqueued_def split: if_splits)
  have "chan_reach (\<lambda>_. 0) w6"
    by (rule reach_step [OF r5], rule step_send [OF _ _ w6]) (use f5 in simp_all)
  then show ?thesis by (simp add: select_demo_def w4 w5 w6 del: One_nat_def)
qed

lemma select_demo_fired: "keys select_demo 30 = 11"
  by (simp add: select_demo_def chan_defs new_world_def)

theorem select_fires_at_most_once_witness:
  "keys (snd (chan_recv_from 1 7 True select_demo)) 30 = 11 \<and>
   signals (snd (chan_recv_from 1 7 True select_demo)) 30 \<le> 1"
proof -
  obtain r w where w: "chan_recv_from 1 7 True select_demo = (r, w)" by fastforce
  have u: "unqueued select_demo 7" "payload_ok (msg select_demo 7)"
    by (simp_all add: select_demo_def chan_defs new_world_def unqueued_def)
  have "(chan_step payload_ok)\<^sup>*\<^sup>* select_demo w"
    by (rule r_into_rtranclp, rule step_send [OF _ _ w]) (use u in simp_all)
  from select_fires_at_most_once [OF select_demo_reach this, of 30] select_demo_fired w show ?thesis by simp
qed

subsection \<open>Queues\<close>

text \<open>Queued messages know their channel, and each waits once.\<close>

definition tidy :: "'d world \<Rightarrow> bool" where
  "tidy w \<longleftrightarrow>
     (\<forall>c. distinct (senders (chans w c) @ recvers (chans w c)) \<and>
       (\<forall>m. m \<in> set (senders (chans w c)) \<union> set (recvers (chans w c)) \<longrightarrow> msg_chan w m = Some c))"

lemma tidyD: "tidy w \<Longrightarrow> m \<in> set (senders (chans w c)) \<union> set (recvers (chans w c)) \<Longrightarrow> msg_chan w m = Some c"
  unfolding tidy_def by blast

lemma shrink_set:
  "shrink_leq w w' \<Longrightarrow> set (senders (chans w' c)) \<subseteq> set (senders (chans w c)) \<and>
     set (recvers (chans w' c)) \<subseteq> set (recvers (chans w c))"
  by (meson set_mono_suffix shrink_leq_def)

lemma shrink_tidy:
  assumes "shrink_leq w w'" "tidy w"
  shows "tidy w'"
  unfolding tidy_def
proof (intro allI conjI impI)
  fix c
  obtain us vs where "senders (chans w c) = us @ senders (chans w' c)" "recvers (chans w c) = vs @ recvers (chans w' c)"
    using assms(1) unfolding shrink_leq_def suffix_def by blast
  moreover have "distinct (senders (chans w c) @ recvers (chans w c))" using assms(2) by (simp add: tidy_def)
  ultimately show "distinct (senders (chans w' c) @ recvers (chans w' c))" by auto
  fix m assume "m \<in> set (senders (chans w' c)) \<union> set (recvers (chans w' c))"
  with shrink_set [OF assms(1), of c] tidyD [OF assms(2), of m c] show "msg_chan w' m = Some c"
    using assms(1) by (auto simp: shrink_leq_def)
qed

lemma shrink_unqueued: "shrink_leq w w' \<Longrightarrow> unqueued w m \<Longrightarrow> unqueued w' m"
  using shrink_set unfolding unqueued_def by blast

lemma tidy_upd_msg_chan: "tidy w \<Longrightarrow> unqueued w m \<Longrightarrow> tidy (w\<lparr>msg_chan := (msg_chan w)(m := x)\<rparr>)"
  by (auto simp: tidy_def unqueued_def)

lemma tidy_link:
  assumes "tidy w" "unqueued w m" "msg_chan w m = Some c"
  shows "tidy (set_senders c (senders (chans w c) @ [m]) w)" "tidy (set_recvers c (recvers (chans w c) @ [m]) w)"
  using assms by (auto simp: tidy_def unqueued_def set_senders_def set_recvers_def)

lemma tidy_operation:
  assumes "tidy w" "unqueued w m"
    and "shrink_leq (w\<lparr>msg_chan := (msg_chan w)(m := Some c)\<rparr>) w1"
  shows "tidy w1 \<and> unqueued w1 m \<and> msg_chan w1 m = Some c"
proof -
  have "unqueued (w\<lparr>msg_chan := (msg_chan w)(m := Some c)\<rparr>) m" using assms(2) by (simp add: unqueued_def)
  with shrink_tidy [OF assms(3) tidy_upd_msg_chan [OF assms(1,2)]] shrink_unqueued [OF assms(3)] assms(3)
  show ?thesis by (simp add: shrink_leq_def)
qed

lemma tidy_step:
  assumes "chan_step A w w'" "tidy w"
  shows "tidy w'"
  using assms(1)
proof cases
  case (step_send m c oneshot r)
  from send_shrinks [OF step_send(3)] tidy_operation [OF assms(2) step_send(1)] tidy_link
  show ?thesis by metis
next
  case (step_receive m c oneshot r)
  from receive_shrinks [OF step_receive(3)] tidy_operation [OF assms(2) step_receive(1)] tidy_link
  show ?thesis by metis
next
  case (step_new m p)
  with tidy_upd_msg_chan [OF assms(2), of m None] show ?thesis by (simp add: new_msg_def tidy_def)
next
  case (step_drop m)
  then obtain c where "w' = upd_chan c (\<lambda>ch. ch\<lparr>senders := remove1 m (senders ch), recvers := remove1 m (recvers ch)\<rparr>) w"
    by (auto simp: drop_msg_def split: option.splits)
  moreover have "set (remove1 m xs) \<subseteq> set xs" for xs by (rule set_remove1_subset)
  ultimately show ?thesis using assms(2) by (auto simp: tidy_def distinct_remove1)
qed (use assms(2) in \<open>simp_all add: tidy_def\<close>)

lemma reach_tidy: "chan_reach caps w \<Longrightarrow> tidy w"
proof (induction rule: chan_reach.induct)
  case reach_new
  then show ?case by (simp add: tidy_def new_world_def new_chan_def)
qed (use tidy_step in blast)



subsection \<open>Frame\<close>

text \<open>Variables, semaphores and selects of messages that take no part stay as they are, and so do
  all other channels.\<close>

definition frame_leq :: "nat set \<Rightarrow> nat \<Rightarrow> 'd world \<Rightarrow> 'd world \<Rightarrow> bool" where
  "frame_leq ms home w w' \<longleftrightarrow> msg w' = msg w \<and> moved_from w' = moved_from w \<and> (\<forall>c. c \<noteq> home \<longrightarrow> chans w' c = chans w c) \<and>
     (\<forall>a. (\<forall>m \<in> ms. pointer (msg w m) \<noteq> Some a) \<longrightarrow> mem w' a = mem w a) \<and>
     (\<forall>g. (\<forall>m \<in> ms. \<forall>d. msg w m \<noteq> Simplex d (Some g)) \<longrightarrow> sems w' g = sems w g) \<and>
     (\<forall>s. (\<forall>m \<in> ms. \<forall>d k. msg w m \<noteq> Multiplex d s k) \<longrightarrow>
        keys w' s = keys w s \<and> signals w' s = signals w s)"

interpretation frame: transfer_order ms home "frame_leq ms home" for ms home
proof (unfold_locales, goal_cases)
  case (2 u v w)
  then show ?case unfolding frame_leq_def by (intro conjI allI impI) simp_all
qed (auto simp: frame_leq_def buffer_push_def buffer_pop_def set_senders_def set_recvers_def
      store_mem commit_simplex_sems split: option.split)

definition takes_part :: "'d world \<Rightarrow> nat \<Rightarrow> nat \<Rightarrow> nat set" where
  "takes_part w c m = {m} \<union> set (senders (chans w c)) \<union> set (recvers (chans w c))"

lemma operation_frame:
  "frame_leq (takes_part w c m) c w (snd (chan_recv_from c m oneshot w)) \<and>
   frame_leq (takes_part w c m) c w (snd (chan_send_to c m oneshot w))"
proof -
  let ?w = "w\<lparr>msg_chan := (msg_chan w)(m := Some c)\<rparr>"
  have start: "frame_leq ms c w v" if "frame_leq ms c ?w v" for ms v using that by (simp add: frame_leq_def)
  obtain r w' where s: "chan_recv_from c m oneshot w = (r, w')" by fastforce
  obtain r2 w2 where t: "chan_send_to c m oneshot w = (r2, w2)" by fastforce
  have "frame_leq (takes_part w c m) c w w'"
    using frame.chan_recv_from_leq [OF s, of "takes_part w c m"] start
    by (fastforce simp: takes_part_def frame_leq_def set_senders_def)
  moreover have "frame_leq (takes_part w c m) c w w2"
    using frame.chan_send_to_leq [OF t, of "takes_part w c m"] start
    by (fastforce simp: takes_part_def frame_leq_def set_recvers_def)
  ultimately show ?thesis by (simp add: s t)
qed

lemma operation_moved_from [simp]:
  "moved_from (snd (chan_recv_from c m oneshot w)) = moved_from w"
  "moved_from (snd (chan_send_to c m oneshot w)) = moved_from w"
  using operation_frame [of w c m oneshot] by (simp_all add: frame_leq_def)

lemma operation_msg [simp]:
  "msg (snd (chan_recv_from c m oneshot w)) = msg w" "msg (snd (chan_send_to c m oneshot w)) = msg w"
  using operation_frame [of w c m oneshot] by (simp_all add: frame_leq_def)

lemma operation_capacity [simp]:
  "capacity (chans (snd (chan_recv_from c m oneshot w)) x) = capacity (chans w x)"
  "capacity (chans (snd (chan_send_to c m oneshot w)) x) = capacity (chans w x)"
proof -
  obtain r w' where s: "chan_recv_from c m oneshot w = (r, w')" by fastforce
  obtain r2 w2 where t: "chan_send_to c m oneshot w = (r2, w2)" by fastforce
  show "capacity (chans (snd (chan_recv_from c m oneshot w)) x) = capacity (chans w x)"
    using send_bounded [OF s] by (auto simp: s bounded_leq_def set_senders_def)
  show "capacity (chans (snd (chan_send_to c m oneshot w)) x) = capacity (chans w x)"
    using receive_bounded [OF t] by (auto simp: t bounded_leq_def set_recvers_def)
qed

text \<open>
  An operation touches only those who take part: a send or a receive of message \<open>m\<close> on channel
  \<open>c\<close> changes no other channel, and no variable, no semaphore and no select but those that
  \<open>m\<close> or a message waiting on \<open>c\<close> points to.
\<close>

theorem operations_touch_only_participants:
  "frame_leq (takes_part w c m) c w (snd (chan_recv_from c m oneshot w)) \<and>
   frame_leq (takes_part w c m) c w (snd (chan_send_to c m oneshot w))"
  by (rule operation_frame)

end
