(* ===== verification/ChannelFifo.thy ===== *)
theory ChannelFifo
  imports ChannelSafety
begin

text \<open>
  Functional correctness of a channel used by plain senders and receivers, against an abstract
  channel: a queue of values that were sent and not yet received, and a queue of waiting
  receivers. Which values sit in the buffer and which in the variables of waiting senders is
  hidden by the abstraction.
\<close>

section \<open>The abstract channel\<close>

type_synonym 'd chan_spec = "'d list \<times> nat list"

text \<open>Both operations also answer which receiver gets which value now.\<close>

fun spec_send :: "'d \<Rightarrow> 'd chan_spec \<Rightarrow> 'd chan_spec \<times> (nat \<times> 'd) option" where
  "spec_send v (vs, []) = ((vs @ [v], []), None)"
| "spec_send v (vs, r # rs) = ((vs, rs), Some (r, v))"

fun spec_receive :: "nat \<Rightarrow> 'd chan_spec \<Rightarrow> 'd chan_spec \<times> (nat \<times> 'd) option" where
  "spec_receive r ([], rs) = (([], rs @ [r]), None)"
| "spec_receive r (v # vs, rs) = ((vs, rs), Some (r, v))"

section \<open>Abstraction\<close>

definition datum :: "('d :: zero) world \<Rightarrow> nat \<Rightarrow> 'd" where
  "datum w m = (case pointer (msg w m) of None \<Rightarrow> 0 | Some a \<Rightarrow> mem w a)"

definition contents :: "nat \<Rightarrow> ('d :: zero) world \<Rightarrow> 'd list" where
  "contents c w = buffer (chans w c) @ map (datum w) (senders (chans w c))"

definition chan_abs :: "nat \<Rightarrow> ('d :: zero) world \<Rightarrow> 'd chan_spec" where
  "chan_abs c w = (contents c w, recvers (chans w c))"

fun signal_of :: "payload \<Rightarrow> nat option" where
  "signal_of (Simplex d g) = g"
| "signal_of (Multiplex d s k) = None"

fun plain_msg :: "payload \<Rightarrow> bool" where
  "plain_msg (Simplex d g) = True"
| "plain_msg (Multiplex d s k) = False"

text \<open>
  The shape of a channel without selects: senders wait only behind a full buffer, receivers
  only on an empty channel.
\<close>

definition plain :: "nat \<Rightarrow> 'd world \<Rightarrow> bool" where
  "plain c w \<longleftrightarrow>
     length (buffer (chans w c)) \<le> capacity (chans w c) \<and>
     (senders (chans w c) \<noteq> [] \<longrightarrow> length (buffer (chans w c)) = capacity (chans w c)) \<and>
     (recvers (chans w c) \<noteq> [] \<longrightarrow> buffer (chans w c) = [] \<and> senders (chans w c) = []) \<and>
     (\<forall>m \<in> set (senders (chans w c)) \<union> set (recvers (chans w c)). plain_msg (msg w m)) \<and>
     (\<forall>m \<in> set (senders (chans w c)). pointer (msg w m) \<noteq> None)"

lemma plain_msgE:
  assumes "plain_msg p"
  obtains d g where "p = Simplex d g"
  using assms by (cases p) auto

text \<open>
  Waiting senders have a variable each; two may share one only if moving the element type copies
  it. A sender's variable keeps its value if that has to wait in it, or if it goes straight to a
  receiver that drops it.
\<close>

definition unshared :: "nat \<Rightarrow> 'd world \<Rightarrow> bool" where
  "unshared c w \<longleftrightarrow> moved_from w = id \<or> distinct (map (\<lambda>s. pointer (msg w s)) (senders (chans w c)))"

definition keeps_value :: "nat \<Rightarrow> ('d :: zero) world \<Rightarrow> bool" where
  "keeps_value c w \<longleftrightarrow>
     (case recvers (chans w c) of
        [] \<Rightarrow> length (contents c w) \<ge> capacity (chans w c)
      | r # _ \<Rightarrow> capacity (chans w c) = 0 \<and> pointer (msg w r) = None)"

text \<open>What is delivered: the receiver's variable is written and its semaphore released.\<close>

definition deliver :: "(nat \<times> 'd) option \<Rightarrow> 'd world \<Rightarrow> 'd world" where
  "deliver del w =
     (case del of None \<Rightarrow> w
      | Some (r, v) \<Rightarrow> commit_simplex (signal_of (msg w r)) (store (pointer (msg w r)) (Some v) w))"

definition released :: "nat option \<Rightarrow> (nat \<Rightarrow> nat) \<Rightarrow> nat \<Rightarrow> nat" where
  "released g f = (case g of None \<Rightarrow> f | Some i \<Rightarrow> f(i := Suc (f i)))"

section \<open>Sending\<close>

lemma send_to_waiting:
  assumes "recvers (chans w c) = r # q" "buffer (chans w c) = []" "msg w r = Simplex d gd"
    "msg w m = Simplex (Some x) g" "chan_recv_from c m oneshot w = (res, w')"
  shows "res = Inr CReady \<and> senders (chans w' c) = senders (chans w c) \<and> recvers (chans w' c) = q \<and>
    buffer (chans w' c) = [] \<and>
    mem w' = mem (if capacity (chans w c) = 0 then leave (if d = None then None else Some x) (store d (Some (mem w x)) w)
                  else store d (Some (mem w x)) (leave (Some x) w)) \<and>
    sems w' = released g (released gd (sems w))"
  using assms
  by (cases d; cases gd; cases g; cases "capacity (chans w c) = 0")
    (auto simp: chan_defs released_def fun_upd_twist)

lemma send_no_waiting:
  assumes "recvers (chans w c) = []" "msg w m = Simplex (Some x) g" "chan_recv_from c m False w = (res, w')"
  shows "res = Inr (if length (buffer (chans w c)) = capacity (chans w c) then CInprocess else CReady) \<and>
    recvers (chans w' c) = [] \<and> capacity (chans w' c) = capacity (chans w c) \<and>
    (if length (buffer (chans w c)) = capacity (chans w c)
     then mem w' = mem w \<and> buffer (chans w' c) = buffer (chans w c) \<and> senders (chans w' c) = senders (chans w c) @ [m] \<and> sems w' = sems w
     else mem w' = mem (leave (Some x) w) \<and> buffer (chans w' c) = buffer (chans w c) @ [mem w x] \<and> senders (chans w' c) = senders (chans w c) \<and>
       sems w' = released g (sems w))"
  using assms by (auto simp: chan_defs released_def split: option.splits)

lemma datum_cong: "msg w' = msg w \<Longrightarrow> mem w' = mem w \<Longrightarrow> datum w' = datum w"
  by (rule ext) (simp add: datum_def split: option.split)

lemma store_deliver:
  "msg w r = Simplex d gd \<Longrightarrow> deliver (Some (r, v)) w = commit_simplex gd (store d (Some v) w)"
  by (simp add: deliver_def)

lemma mem_commit [simp]: "mem (leave p (commit_simplex g w)) = mem (leave p w)"
  by (auto simp: fun_eq_iff leave_mem)

lemma send_refinement:
  assumes "plain c w" "msg w m = Simplex (Some x) g" "spec_send (mem w x) (chan_abs c w) = (abs', del)"
    "chan_recv_from c m False w = (res, w')"
  shows "chan_abs c w' = abs' \<and> plain c w' \<and>
    mem w' = mem (if keeps_value c w then deliver del w
      else if capacity (chans w c) = 0 then leave (Some x) (deliver del w)
      else deliver del (leave (Some x) w)) \<and>
    (if recvers (chans w c) = [] \<and> length (contents c w) \<ge> capacity (chans w c)
     then res = Inr CInprocess \<and> sems w' = sems (deliver del w)
     else res = Inr CReady \<and> sems w' = released g (sems (deliver del w)))"
proof -
  have m: "msg w' = msg w" "capacity (chans w' c) = capacity (chans w c)"
    using operation_msg(1) [of c m False w] operation_capacity(1) [of c m False w c] assms(4) by simp_all
  show ?thesis
  proof (cases "recvers (chans w c)")
    case Nil
    have full: "length (buffer (chans w c)) = capacity (chans w c) \<longleftrightarrow> length (contents c w) \<ge> capacity (chans w c)"
      using assms(1) by (auto simp: plain_def contents_def)
    note s = send_no_waiting [OF Nil assms(2,4)]
    have e: "abs' = (contents c w @ [mem w x], [])" "del = None" using assms(3) Nil by (auto simp: chan_abs_def)
    have dm: "datum w m = mem w x" using assms(2) by (simp add: datum_def)
    show ?thesis
    proof (cases "length (buffer (chans w c)) = capacity (chans w c)")
      case True
      then have d: "datum w' = datum w" using m(1) s by (intro datum_cong) simp_all
      from True s d e dm full m assms(1,2) Nil show ?thesis
        by (simp add: chan_abs_def contents_def plain_def deliver_def keeps_value_def)
    next
      case False
      then have "senders (chans w c) = []" "length (buffer (chans w c)) < capacity (chans w c)"
        using assms(1) by (auto simp: plain_def)
      with False s e full m assms(1) Nil show ?thesis
        by (simp add: chan_abs_def contents_def plain_def deliver_def keeps_value_def)
    qed
  next
    case (Cons r q)
    then have empty: "buffer (chans w c) = []" "senders (chans w c) = []" using assms(1) by (simp_all add: plain_def)
    obtain d gd where r: "msg w r = Simplex d gd"
      using assms(1) Cons by (auto simp: plain_def elim: plain_msgE)
    note s = send_to_waiting [OF Cons empty(1) r assms(2,4)]
    have e: "abs' = ([], q)" "del = Some (r, mem w x)"
      using assms(3) Cons empty by (auto simp: chan_abs_def contents_def)
    have "sems (deliver del w) = released gd (sems w)"
      by (auto simp: e(2) store_deliver [OF r] released_def commit_simplex_def split: option.split)
    with s e r m assms(1) Cons empty show ?thesis
      by (simp add: chan_abs_def contents_def plain_def store_deliver keeps_value_def)
  qed
qed

text \<open>
  C10: Sending refines the abstract channel: on a channel without selects, a send of a fresh
  message takes the abstraction to the abstract send of the value of its variable and keeps the
  shape of the channel. Of all variables it writes that of the receiver it serves, which gets the
  value, and its own, which is left moved-from: before the receiver's is written if the channel has
  a buffer, through which the value goes, and after it otherwise. Its own variable keeps its value
  if that has to wait behind a full buffer, or if it goes straight to a receiver that drops it.
  The send releases that receiver's semaphore and, unless the value has to wait, its own, and
  answers \<open>Ok\<close> or \<open>Inprocess\<close> accordingly.
\<close>

theorem send_refines_spec:
  assumes "plain c w" "msg w m = Simplex (Some x) g" "spec_send (mem w x) (chan_abs c w) = (abs', del)"
    "chan_recv_from c m False w = (res, w')"
  shows "chan_abs c w' = abs' \<and> plain c w' \<and>
    mem w' = mem (if keeps_value c w then deliver del w
      else if capacity (chans w c) = 0 then leave (Some x) (deliver del w)
      else deliver del (leave (Some x) w)) \<and>
    (if recvers (chans w c) = [] \<and> length (contents c w) \<ge> capacity (chans w c)
     then res = Inr CInprocess \<and> sems w' = sems (deliver del w)
     else res = Inr CReady \<and> sems w' = released g (sems (deliver del w)))"
  using assms by (rule send_refinement)

section \<open>Receiving\<close>

lemma receive_no_contents:
  assumes "buffer (chans w c) = []" "senders (chans w c) = []" "chan_send_to c m False w = (res, w')"
  shows "res = Inr CInprocess \<and> buffer (chans w' c) = [] \<and> senders (chans w' c) = [] \<and>
    recvers (chans w' c) = recvers (chans w c) @ [m] \<and> mem w' = mem w \<and> sems w' = sems w"
  using assms by (auto simp: chan_defs)

lemma receive_from_sender:
  assumes "buffer (chans w c) = []" "senders (chans w c) = s # q" "msg w s = Simplex (Some x) gs"
    "msg w m = Simplex d g" "chan_send_to c m False w = (res, w')"
  shows "res = Inr CReady \<and> buffer (chans w' c) = [] \<and> senders (chans w' c) = q \<and>
    recvers (chans w' c) = recvers (chans w c) \<and>
    mem w' = mem (leave (if d = None then None else Some x) (store d (Some (mem w x)) w)) \<and>
    sems w' = released gs (released g (sems w))"
  using assms by (auto simp: chan_defs released_def fun_upd_twist split: option.splits)

lemma receive_from_buffer:
  assumes "buffer (chans w c) = v # vs" "length (v # vs) = capacity (chans w c)"
    "senders (chans w c) = s # q" "msg w s = Simplex (Some x) gs" "msg w m = Simplex d g" "d \<noteq> Some x"
    "chan_send_to c m False w = (res, w')"
  shows "res = Inr CReady \<and> buffer (chans w' c) = vs @ [mem w x] \<and> senders (chans w' c) = q \<and>
    recvers (chans w' c) = recvers (chans w c) \<and> mem w' = mem (leave (Some x) (store d (Some v) w)) \<and>
    sems w' = released gs (released g (sems w))"
  using assms by (auto simp: chan_defs released_def fun_upd_twist split: option.splits)

lemma receive_only_buffer:
  assumes "buffer (chans w c) = v # vs" "senders (chans w c) = []" "msg w m = Simplex d g"
    "chan_send_to c m False w = (res, w')"
  shows "res = Inr CReady \<and> buffer (chans w' c) = vs \<and> senders (chans w' c) = [] \<and>
    recvers (chans w' c) = recvers (chans w c) \<and> mem w' = mem (store d (Some v) w) \<and>
    sems w' = released g (sems w)"
  using assms by (auto simp: chan_defs released_def split: option.splits)

lemma map_datum_deliver:
  assumes "msg w' = msg w" "mem w' = mem (leave p (store d v w))"
    "\<forall>s \<in> set q. pointer (msg w s) \<noteq> None \<and> pointer (msg w s) \<noteq> d"
    "moved_from w = id \<or> (\<forall>s \<in> set q. pointer (msg w s) \<noteq> p)"
  shows "map (datum w') q = map (datum w) q"
  using assms(3,4) by (auto simp: datum_def assms(1,2) store_mem leave_mem split: option.split)

lemma sems_deliver [simp]: "sems (commit_simplex g (store d v w)) = released g (sems w)"
  by (simp add: released_def commit_simplex_def split: option.split)

lemma receive_refinement:
  assumes "plain c w" "unshared c w" "msg w m = Simplex d g" "\<forall>s \<in> set (senders (chans w c)). pointer (msg w s) \<noteq> d"
    "spec_receive m (chan_abs c w) = (abs', del)" "chan_send_to c m False w = (res, w')"
  shows "chan_abs c w' = abs' \<and> plain c w' \<and> unshared c w' \<and>
    mem w' = mem (case senders (chans w c) of [] \<Rightarrow> deliver del w
      | s # _ \<Rightarrow> if buffer (chans w c) = [] \<and> d = None then deliver del w
                 else leave (pointer (msg w s)) (deliver del w)) \<and>
    res = Inr (if contents c w = [] then CInprocess else CReady) \<and>
    sems w' = (case senders (chans w c) of [] \<Rightarrow> sems (deliver del w)
      | s # _ \<Rightarrow> released (signal_of (msg w s)) (sems (deliver del w)))"
proof -
  have m: "msg w' = msg w" "capacity (chans w' c) = capacity (chans w c)" "moved_from w' = moved_from w"
    using operation_msg(2) [of c m False w] operation_capacity(2) [of c m False w c]
      operation_moved_from(2) [of c m False w] assms(6) by simp_all
  have ptr: "\<forall>s \<in> set (senders (chans w c)). pointer (msg w s) \<noteq> None \<and> pointer (msg w s) \<noteq> d"
    using assms(1,4) by (simp add: plain_def)
  have us: "unshared c w'" if "senders (chans w' c) = q" "senders (chans w c) = q \<or> senders (chans w c) = s # q" for s q
    using assms(2) m that by (auto simp: unshared_def)
  note defs = chan_abs_def contents_def plain_def
  show ?thesis
  proof (cases "senders (chans w c)")
    case Nil
    show ?thesis
    proof (cases "buffer (chans w c)")
      case b: Nil
      note s = receive_no_contents [OF b Nil assms(6)]
      have e: "abs' = ([], recvers (chans w c) @ [m])" "del = None"
        using assms(5) Nil b by (auto simp: chan_abs_def contents_def)
      from s e m us assms(1,3) Nil b show ?thesis by (simp add: defs deliver_def)
    next
      case (Cons v vs)
      note s = receive_only_buffer [OF Cons Nil assms(3,6)]
      have e: "abs' = (vs, recvers (chans w c))" "del = Some (m, v)"
        using assms(5) Nil Cons by (auto simp: chan_abs_def contents_def)
      from s e m us assms(1,3) Nil Cons show ?thesis by (simp add: defs store_deliver [OF assms(3)])
    qed
  next
    case (Cons s q)
    obtain ds gs where "msg w s = Simplex ds gs"
      using assms(1) Cons by (auto simp: plain_def elim: plain_msgE)
    moreover from this ptr Cons obtain x where "ds = Some x" "d \<noteq> Some x" by fastforce
    ultimately have sx: "msg w s = Simplex (Some x) gs" "d \<noteq> Some x" by simp_all
    have full: "length (buffer (chans w c)) = capacity (chans w c)" "recvers (chans w c) = []"
      using assms(1) Cons by (auto simp: plain_def)
    have ds: "datum w s = mem w x" using sx by (simp add: datum_def)
    have ptrq: "\<forall>s \<in> set q. pointer (msg w s) \<noteq> None \<and> pointer (msg w s) \<noteq> d" using ptr Cons by simp
    have own: "moved_from w = id \<or> (\<forall>s \<in> set q. pointer (msg w s) \<noteq> p)" if "p = None \<or> p = Some x" for p
      using assms(2) ptrq that Cons sx by (force simp: unshared_def)
    show ?thesis
    proof (cases "buffer (chans w c)")
      case Nil
      note r = receive_from_sender [OF Nil Cons sx(1) assms(3,6)]
      have e: "abs' = (map (datum w) q, [])" "del = Some (m, mem w x)"
        using assms(5) Nil Cons full ds by (auto simp: chan_abs_def contents_def)
      have mm: "mem w' = mem (leave (if d = None then None else Some x) (store d (Some (mem w x)) w))" using r by simp
      have "map (datum w') q = map (datum w) q" by (rule map_datum_deliver [OF m(1) mm ptrq own]) simp
      with r e m us assms(1,3) Nil Cons full sx show ?thesis by (simp add: defs store_deliver [OF assms(3)])
    next
      case b: (Cons v vs)
      note r = receive_from_buffer [OF b full(1) [unfolded b] Cons sx(1) assms(3) sx(2) assms(6)]
      have e: "abs' = (vs @ mem w x # map (datum w) q, [])" "del = Some (m, v)"
        using assms(5) b Cons full ds by (auto simp: chan_abs_def contents_def)
      have mm: "mem w' = mem (leave (Some x) (store d (Some v) w))" using r by simp
      have "map (datum w') q = map (datum w) q" by (rule map_datum_deliver [OF m(1) mm ptrq own]) simp
      with r e m us assms(1,3) b Cons full sx show ?thesis by (simp add: defs store_deliver [OF assms(3)])
    qed
  qed
qed

text \<open>
  C11: Receiving refines the abstract channel: on a channel without selects whose waiting senders
  do not share a variable (or whose element type is copied by a move), a receive into a variable
  that is not one of a waiting sender takes the abstraction to the abstract receive and keeps the
  shape. Of all variables it writes its own, which gets the value at the front of the queue, and
  that of the first waiting sender, which is left moved-from as its value goes to the receiver or
  into the place that came free in the buffer (it stays only if the receiver itself drops it); so
  the values of the other waiting senders are untouched. It releases the semaphore of the receiver
  and of that sender, and answers \<open>Inprocess\<close> just when there was nothing to receive.
\<close>

theorem receive_refines_spec:
  assumes "plain c w" "unshared c w" "msg w m = Simplex d g" "\<forall>s \<in> set (senders (chans w c)). pointer (msg w s) \<noteq> d"
    "spec_receive m (chan_abs c w) = (abs', del)" "chan_send_to c m False w = (res, w')"
  shows "chan_abs c w' = abs' \<and> plain c w' \<and> unshared c w' \<and>
    mem w' = mem (case senders (chans w c) of [] \<Rightarrow> deliver del w
      | s # _ \<Rightarrow> if buffer (chans w c) = [] \<and> d = None then deliver del w
                 else leave (pointer (msg w s)) (deliver del w)) \<and>
    res = Inr (if contents c w = [] then CInprocess else CReady) \<and>
    sems w' = (case senders (chans w c) of [] \<Rightarrow> sems (deliver del w)
      | s # _ \<Rightarrow> released (signal_of (msg w s)) (sems (deliver del w)))"
  using assms by (rule receive_refinement)

text \<open>A type whose moved-from value is zero; coroutine \<open>5\<close> sends, \<open>6\<close> receives.\<close>

definition plain_demo :: "int world" where
  "plain_demo = (new_msg 6 (Simplex (Some 26) (Some 36)) (new_msg 5 (Simplex (Some 25) (Some 35))
     (new_world (\<lambda>_. 0) (\<lambda>_. 1))))\<lparr>mem := (\<lambda>_. 0)(25 := 7)\<rparr>"

theorem send_refines_spec_witness:
  "\<exists>w'. chan_recv_from 0 5 False plain_demo = (Inr CReady, w') \<and> chan_abs 0 w' = ([7], []) \<and> sems w' 35 = 1 \<and>
     mem plain_demo 25 = 7 \<and> mem w' 25 = 0"
proof -
  obtain res w' where w': "chan_recv_from 0 5 False plain_demo = (res, w')" by fastforce
  have p: "plain 0 plain_demo" "msg plain_demo 5 = Simplex (Some 25) (Some 35)"
    by (simp_all add: plain_def plain_demo_def new_world_def new_chan_def new_msg_def)
  have "spec_send (mem plain_demo 25) (chan_abs 0 plain_demo) = (([7], []), None)"
    by (simp add: chan_abs_def contents_def plain_demo_def new_world_def new_chan_def new_msg_def)
  from send_refines_spec [OF p this w'] w' show ?thesis
    by (simp add: contents_def plain_demo_def new_world_def new_chan_def new_msg_def deliver_def released_def
        keeps_value_def leave_mem)
qed

theorem receive_refines_spec_witness:
  "\<exists>w1 w'. chan_recv_from 0 5 False plain_demo = (Inr CReady, w1) \<and>
     chan_send_to 0 6 False w1 = (Inr CReady, w') \<and> mem w' 26 = 7 \<and> chan_abs 0 w' = ([], [])"
proof -
  obtain res w1 where w1: "chan_recv_from 0 5 False plain_demo = (res, w1)" by fastforce
  obtain res2 w' where w': "chan_send_to 0 6 False w1 = (res2, w')" by fastforce
  have w1_def: "res = Inr CReady \<and> w1 = (plain_demo\<lparr>msg_chan := [5 \<mapsto> 0], mem := (\<lambda>_. 0)(25 := 0),
      sems := (\<lambda>_. 0)(35 := 1), chans := (\<lambda>_. new_chan 1)(0 := (new_chan 1)\<lparr>buffer := [7]\<rparr>)\<rparr>)"
    using w1 by (simp add: plain_demo_def chan_defs new_world_def)
  have p: "plain 0 w1" "unshared 0 w1" "msg w1 6 = Simplex (Some 26) (Some 36)"
      "\<forall>s \<in> set (senders (chans w1 0)). pointer (msg w1 s) \<noteq> Some 26"
    by (simp_all add: w1_def plain_def unshared_def plain_demo_def new_chan_def new_msg_def)
  have "spec_receive 6 (chan_abs 0 w1) = (([], []), Some (6, 7))"
    by (simp add: chan_abs_def contents_def w1_def new_chan_def)
  from receive_refines_spec [OF p this w'] w1 w' show ?thesis
    by (simp add: w1_def contents_def plain_demo_def new_world_def new_chan_def new_msg_def deliver_def store_def)
qed

section \<open>Sequences\<close>

text \<open>
  A history of one channel of a new world: the values sent and the deliveries made so far, in
  order. A variable is not sent again while a sender waits with it, unless moving its type copies
  it. In between, messages are set up on unused storage, semaphores change, and variables other
  than those of waiting senders are written.
\<close>

inductive fifo_run :: "nat \<Rightarrow> (nat \<Rightarrow> nat) \<Rightarrow> ('d :: zero) world \<Rightarrow> 'd list \<Rightarrow> (nat \<times> 'd) list \<Rightarrow> bool"
  for c caps where
  run_start: "fifo_run c caps (new_world mv caps) [] []"
| run_send: "fifo_run c caps w sent recvd \<Longrightarrow> msg w m = Simplex (Some x) g \<Longrightarrow>
    moved_from w = id \<or> (\<forall>s \<in> set (senders (chans w c)). pointer (msg w s) \<noteq> Some x) \<Longrightarrow>
    chan_recv_from c m False w = (res, w') \<Longrightarrow>
    fifo_run c caps w' (sent @ [mem w x])
      (recvd @ (case recvers (chans w c) of [] \<Rightarrow> [] | r # _ \<Rightarrow> [(r, mem w x)]))"
| run_receive: "fifo_run c caps w sent recvd \<Longrightarrow> msg w m = Simplex (Some y) g \<Longrightarrow>
    \<forall>s \<in> set (senders (chans w c)). pointer (msg w s) \<noteq> Some y \<Longrightarrow>
    chan_send_to c m False w = (res, w') \<Longrightarrow>
    fifo_run c caps w' sent (recvd @ (if res = Inr CReady then [(m, mem w' y)] else []))"
| run_new: "fifo_run c caps w sent recvd \<Longrightarrow> unqueued w m \<Longrightarrow> fifo_run c caps (new_msg m (Simplex d g) w) sent recvd"
| run_write: "fifo_run c caps w sent recvd \<Longrightarrow>
    \<forall>s \<in> set (senders (chans w c)). pointer (msg w s) \<noteq> Some a \<Longrightarrow>
    fifo_run c caps (w\<lparr>mem := (mem w)(a := x)\<rparr>) sent recvd"
| run_sems: "fifo_run c caps w sent recvd \<Longrightarrow> fifo_run c caps (w\<lparr>sems := f\<rparr>) sent recvd"

lemma plain_contents_waiting: "plain c w \<Longrightarrow> recvers (chans w c) = r # q \<Longrightarrow> contents c w = []"
  by (simp add: plain_def contents_def)

lemma plain_new_msg:
  assumes "plain c w" "unqueued w m"
  shows "plain c (new_msg m p w) \<and> contents c (new_msg m p w) = contents c w \<and>
    (unshared c w \<longrightarrow> unshared c (new_msg m p w))"
proof -
  have s: "msg (new_msg m p w) s = msg w s" if "s \<in> set (senders (chans w c)) \<union> set (recvers (chans w c))" for s
    using that assms(2) by (auto simp: new_msg_def unqueued_def)
  then have "map (\<lambda>s. pointer (msg (new_msg m p w) s)) (senders (chans w c)) =
      map (\<lambda>s. pointer (msg w s)) (senders (chans w c))" by simp
  moreover have "chans (new_msg m p w) = chans w" "moved_from (new_msg m p w) = moved_from w"
    by (simp_all add: new_msg_def)
  ultimately have "unshared c w \<longrightarrow> unshared c (new_msg m p w)" unfolding unshared_def by metis
  with s assms(1) show ?thesis
    by (auto simp: plain_def contents_def datum_def new_msg_def cong: option.case_cong)
qed

lemma send_unshared:
  assumes "plain c w" "unshared c w" "msg w m = Simplex (Some x) g"
    "moved_from w = id \<or> (\<forall>s \<in> set (senders (chans w c)). pointer (msg w s) \<noteq> Some x)"
    "chan_recv_from c m False w = (res, w')"
  shows "unshared c w'"
proof -
  have m: "msg w' = msg w" "moved_from w' = moved_from w"
    using operation_msg(1) [of c m False w] operation_moved_from(1) [of c m False w] assms(5) by simp_all
  have "senders (chans w' c) = senders (chans w c) \<or> senders (chans w' c) = senders (chans w c) @ [m]"
  proof (cases "recvers (chans w c)")
    case Nil
    from send_no_waiting [OF Nil assms(3,5)] show ?thesis by (auto split: if_splits)
  next
    case (Cons r q)
    then have "buffer (chans w c) = []" "plain_msg (msg w r)" using assms(1) by (simp_all add: plain_def)
    with send_to_waiting [OF Cons _ _ assms(3,5)] show ?thesis by (metis plain_msgE)
  qed
  then show ?thesis using assms(2,3,4) m by (force simp: unshared_def)
qed

lemma fifo_run_inv:
  assumes "fifo_run c caps w sent recvd"
  shows "plain c w \<and> unshared c w \<and> sent = map snd recvd @ contents c w"
  using assms
proof (induction rule: fifo_run.induct)
  case (run_start mv)
  show ?case by (simp add: plain_def unshared_def contents_def new_world_def new_chan_def)
next
  case (run_send w sent recvd m x g res w')
  obtain abs' del where s: "spec_send (mem w x) (chan_abs c w) = (abs', del)" by fastforce
  from send_refinement [OF _ run_send.hyps(2) s run_send.hyps(4)] run_send.IH
  have "plain c w'" "chan_abs c w' = abs'" by simp_all
  with s run_send.IH plain_contents_waiting [of c w] send_unshared [OF _ _ run_send.hyps(2-4)] show ?case
    by (cases "recvers (chans w c)") (auto simp: chan_abs_def)
next
  case (run_receive w sent recvd m y g res w')
  obtain abs' del where s: "spec_receive m (chan_abs c w) = (abs', del)" by fastforce
  from receive_refinement [OF _ _ run_receive.hyps(2,3) s run_receive.hyps(4)] run_receive.IH
  have r: "plain c w'" "unshared c w'" "chan_abs c w' = abs'"
    "mem w' = mem (case senders (chans w c) of [] \<Rightarrow> deliver del w
      | s # _ \<Rightarrow> if buffer (chans w c) = [] \<and> Some y = None then deliver del w
                 else leave (pointer (msg w s)) (deliver del w))"
    "res = Inr (if contents c w = [] then CInprocess else CReady)" by simp_all
  show ?case
  proof (cases "contents c w")
    case Nil
    with s r run_receive.IH show ?thesis by (auto simp: chan_abs_def)
  next
    case (Cons v vs)
    with s have e: "abs' = (vs, recvers (chans w c))" "del = Some (m, v)" by (auto simp: chan_abs_def)
    have "mem w' y = v" using r(4) run_receive.hyps(2,3)
      by (simp add: e(2) store_deliver store_mem leave_mem split: list.splits)
    with r e Cons run_receive.IH show ?thesis by (simp add: chan_abs_def)
  qed
next
  case (run_new w sent recvd m d g)
  with plain_new_msg show ?case by metis
next
  case (run_write w sent recvd a x)
  then have "map (datum (w\<lparr>mem := (mem w)(a := x)\<rparr>)) (senders (chans w c)) = map (datum w) (senders (chans w c))"
    by (auto simp: datum_def split: option.split)
  with run_write.IH show ?case by (simp add: plain_def unshared_def contents_def)
next
  case (run_sems w sent recvd f)
  have "datum (w\<lparr>sems := f\<rparr>) = datum w" by (rule datum_cong) simp_all
  with run_sems.IH show ?case by (simp add: plain_def unshared_def contents_def)
qed



end
