(* ===== verification/Selects.thy ===== *)
theory Selects
  imports ChannelFifo
begin

text \<open>
  \<open>Select\<close> (\<open>src/include/core/channel.h\<close>, \<open>src/core/channel.cpp\<close>): binding cases, running the
  shuffled listeners, waiting or taking the default, and leaving. What a fired select that has
  not left yet does to a channel is at the end.
\<close>

section \<open>Select objects\<close>

text \<open>
  A listener is the closure that \<open>Case::operator<<\<close> or \<open>operator>>\<close> stores: its own message, the
  channel, the variable and the key.
\<close>

datatype direction = CaseSend | CaseReceive

record listener =
  l_msg :: nat
  l_chan :: nat
  l_dir :: direction
  l_data :: nat
  l_key :: int

record select =
  sel_id :: nat
  default_key :: int
  sel_msgs :: "nat list"
  listeners :: "listener list"

definition new_select :: "nat \<Rightarrow> select" where
  "new_select s = \<lparr>sel_id = s, default_key = INT_MIN, sel_msgs = [], listeners = []\<rparr>"

definition key_error :: string where "key_error = ''key not allowed''"
definition default_error :: string where "default_error = ''select already has a default case''"

definition on_case :: "listener \<Rightarrow> select \<Rightarrow> string + select" where
  "on_case l sel =
     (if l_key l = INT_MIN then Inl key_error else Inr (sel\<lparr>listeners := listeners sel @ [l]\<rparr>))"

definition on_default :: "int \<Rightarrow> select \<Rightarrow> string + select" where
  "on_default key sel =
     (if default_key sel \<noteq> INT_MIN then Inl default_error
      else if key = INT_MIN then Inl key_error
      else Inr (sel\<lparr>default_key := key\<rparr>))"

section \<open>Running a select\<close>

definition run_listener :: "nat \<Rightarrow> listener \<Rightarrow> ('d :: zero) world \<Rightarrow> (string + chan_status) \<times> 'd world" where
  "run_listener s l w =
     (let w1 = new_msg (l_msg l) (Multiplex (Some (l_data l)) s (l_key l)) w
      in case l_dir l of
           CaseSend \<Rightarrow> chan_recv_from (l_chan l) (l_msg l) False w1
         | CaseReceive \<Rightarrow> chan_send_to (l_chan l) (l_msg l) False w1)"

text \<open>
  The loop of \<open>operator()\<close>, in the order the shuffle left: it stops once the key is set. The
  second component is what \<open>_msgs\<close> holds then; an exception leaves the loop.
\<close>

fun run_listeners ::
    "nat \<Rightarrow> listener list \<Rightarrow> nat list \<Rightarrow> ('d :: zero) world \<Rightarrow> string option \<times> nat list \<times> 'd world" where
  "run_listeners s [] ms w = (None, ms, w)"
| "run_listeners s (l # ls) ms w =
     (case run_listener s l w of
        (Inl e, w1) \<Rightarrow> (Some e, ms @ [l_msg l], w1)
      | (Inr _, w1) \<Rightarrow>
          if keys w1 s \<noteq> INT_MIN then (None, ms @ [l_msg l], w1)
          else run_listeners s ls (ms @ [l_msg l]) w1)"

fun drop_all :: "nat list \<Rightarrow> 'd world \<Rightarrow> 'd world option" where
  "drop_all [] w = Some w"
| "drop_all (m # ms) w = (case drop_msg m w of None \<Rightarrow> None | Some w1 \<Rightarrow> drop_all ms w1)"

definition select_drop :: "select \<Rightarrow> 'd world \<Rightarrow> (select \<times> 'd world) option" where
  "select_drop sel w =
     map_option (\<lambda>w1. (sel\<lparr>sel_msgs := [], listeners := []\<rparr>, w1)) (drop_all (sel_msgs sel) w)"

text \<open>\<open>operator()\<close> up to its suspension point, for a shuffle \<open>order\<close> of the listeners.\<close>

definition select_start ::
    "select \<Rightarrow> listener list \<Rightarrow> ('d :: zero) world \<Rightarrow> string option \<times> select \<times> 'd world" where
  "select_start sel order w =
     (case run_listeners (sel_id sel) order (sel_msgs sel) w of
        (e, ms, w1) \<Rightarrow> (e, sel\<lparr>sel_msgs := ms, listeners := order\<rparr>, w1))"

text \<open>
  The rest: without a default the signal's permit is needed (\<open>None\<close> while there is none);
  with one, the key is the default's unless a case has fired. The guard then drops the messages.
\<close>

definition select_end :: "select \<Rightarrow> 'd world \<Rightarrow> (int \<times> select \<times> 'd world) option" where
  "select_end sel w =
     (let s = sel_id sel in
      if default_key sel = INT_MIN then
        if signals w s = 0 then None
        else map_option (\<lambda>(sel', w1). (keys w s, sel', w1))
          (select_drop sel (w\<lparr>signals := (signals w)(s := signals w s - 1)\<rparr>))
      else
        let w' = (if keys w s = INT_MIN then w\<lparr>keys := (keys w)(s := default_key sel)\<rparr> else w)
        in map_option (\<lambda>(sel', w1). (keys w' s, sel', w1)) (select_drop sel w'))"

section \<open>Leaving\<close>

lemma drop_msg_keeps:
  "drop_msg m w = Some w' \<Longrightarrow> msg_chan w' = msg_chan w \<and> keys w' = keys w \<and> signals w' = signals w \<and> msg w' = msg w"
  by (auto simp: drop_msg_def split: option.splits)

lemma drop_msg_unqueued: "drop_msg m w = Some w' \<Longrightarrow> unqueued w x \<Longrightarrow> unqueued w' x"
  by (auto simp: drop_msg_def unqueued_def split: option.splits if_splits dest: notin_set_remove1)

lemma tidy_drop_unqueued:
  assumes "tidy w" "drop_msg m w = Some w'"
  shows "unqueued w' m"
proof -
  obtain c where c: "msg_chan w m = Some c"
    "w' = upd_chan c (\<lambda>ch. ch\<lparr>senders := remove1 m (senders ch), recvers := remove1 m (recvers ch)\<rparr>) w"
    using assms(2) by (auto simp: drop_msg_def split: option.splits)
  have "m \<notin> set (senders (chans w x)) \<and> m \<notin> set (recvers (chans w x))" if "x \<noteq> c" for x
    using tidyD [OF assms(1), of m x] c(1) that by auto
  moreover have "distinct (senders (chans w c))" "distinct (recvers (chans w c))"
    using assms(1) by (simp_all add: tidy_def)
  ultimately show ?thesis by (auto simp: unqueued_def c(2) distinct_remove1_notin)
qed

lemma drop_all_unqueued:
  fixes w :: "('d :: zero) world"
  assumes "tidy w" "\<forall>m \<in> set ms. msg_chan w m \<noteq> None"
  shows "\<exists>w'. drop_all ms w = Some w' \<and> keys w' = keys w \<and> signals w' = signals w \<and>
    (\<forall>m. m \<in> set ms \<or> unqueued w m \<longrightarrow> unqueued w' m)"
  using assms
proof (induction ms arbitrary: w)
  case (Cons m ms)
  then obtain w1 where w1: "drop_msg m w = Some w1" by (auto simp: drop_msg_def split: option.splits)
  note k = drop_msg_keeps [OF w1] and u = tidy_drop_unqueued [OF Cons.prems(1) w1]
  have "tidy w1" by (rule tidy_step [OF step_drop [OF w1] Cons.prems(1)])
  with Cons.IH [of w1] Cons.prems(2) k w1 u drop_msg_unqueued [OF w1] show ?case by force
qed simp

section \<open>What the listeners leave\<close>

text \<open>An operation on a fresh message keeps queues tidy and gives the message a channel.\<close>

lemma link_unqueued:
  assumes "unqueued w m" "m \<noteq> x"
  shows "unqueued (set_senders c (senders (chans w c) @ [x]) w) m"
    "unqueued (set_recvers c (recvers (chans w c) @ [x]) w) m"
  using assms by (auto simp: unqueued_def set_senders_def set_recvers_def split: if_splits)

lemma run_listener_tidy:
  assumes "tidy w" "unqueued w (l_msg l)" "run_listener s l w = (r, w')"
  shows "tidy w' \<and> msg_chan w' (l_msg l) = Some (l_chan l) \<and>
    (\<forall>m. m \<noteq> l_msg l \<longrightarrow> msg_chan w' m = msg_chan w m \<and> (unqueued w m \<longrightarrow> unqueued w' m))"
proof -
  define p where "p = Multiplex (Some (l_data l)) s (l_key l)"
  let ?w = "new_msg (l_msg l) p w" and ?c = "l_chan l" and ?m = "l_msg l"
  let ?v = "?w\<lparr>msg_chan := (msg_chan ?w)(?m := Some ?c)\<rparr>"
  have t: "tidy ?w" using tidy_upd_msg_chan [OF assms(1,2), of None] by (simp add: new_msg_def tidy_def)
  have u: "unqueued ?w m \<longleftrightarrow> unqueued w m" for m by (simp add: unqueued_def new_msg_def)
  have "\<exists>w1. shrink_leq ?v w1 \<and> (w' = w1 \<or> w' = set_senders ?c (senders (chans w1 ?c) @ [?m]) w1 \<or>
      w' = set_recvers ?c (recvers (chans w1 ?c) @ [?m]) w1)"
  proof (cases "l_dir l")
    case CaseSend
    with assms(3) have "chan_recv_from ?c ?m False ?w = (r, w')" by (simp add: run_listener_def p_def)
    from send_shrinks [OF this] show ?thesis by metis
  next
    case CaseReceive
    with assms(3) have "chan_send_to ?c ?m False ?w = (r, w')" by (simp add: run_listener_def p_def)
    from receive_shrinks [OF this] show ?thesis by metis
  qed
  then obtain w1 where w1: "shrink_leq ?v w1" "w' = w1 \<or> w' = set_senders ?c (senders (chans w1 ?c) @ [?m]) w1 \<or>
      w' = set_recvers ?c (recvers (chans w1 ?c) @ [?m]) w1" by blast
  have "unqueued ?w ?m" using assms(2) u by simp
  from tidy_operation [OF t this w1(1)] have t1: "tidy w1" "unqueued w1 ?m" "msg_chan w1 ?m = Some ?c" by simp_all
  have "unqueued w1 m" if "unqueued w m" for m
    using shrink_unqueued [OF w1(1), of m] that u by (simp add: unqueued_def)
  moreover have "msg_chan w1 m = msg_chan w m" if "m \<noteq> ?m" for m
    using w1(1) that by (simp add: shrink_leq_def new_msg_def)
  ultimately show ?thesis using w1(2) t1 tidy_link [OF t1] by (auto intro: link_unqueued)
qed

lemma run_listeners_keep: "run_listeners s ls ms w = (e, ms', w') \<Longrightarrow> set ms \<subseteq> set ms'"
proof (induction ls arbitrary: w ms)
  case (Cons l ls)
  obtain r w1 where r: "run_listener s l w = (r, w1)" by fastforce
  with Cons.prems Cons.IH [of "ms @ [l_msg l]" w1] show ?case by (auto split: sum.splits if_splits)
qed simp

lemma run_listeners_tidy:
  assumes "tidy w" "distinct (map l_msg ls)" "\<forall>l \<in> set ls. unqueued w (l_msg l)"
    "set ms \<inter> set (map l_msg ls) = {}" "\<forall>m \<in> set ms. msg_chan w m \<noteq> None" "run_listeners s ls ms w = (e, ms', w')"
  shows "tidy w' \<and> (\<forall>m \<in> set ms'. msg_chan w' m \<noteq> None) \<and> set ms' \<subseteq> set ms \<union> set (map l_msg ls) \<and>
    (\<forall>l \<in> set ls. l_msg l \<in> set ms' \<or> unqueued w' (l_msg l))"
  using assms
proof (induction ls arbitrary: w ms)
  case Nil
  then show ?case by auto
next
  case (Cons l ls)
  obtain r w1 where r: "run_listener s l w = (r, w1)" by fastforce
  have "unqueued w (l_msg l)" using Cons.prems(3) by simp
  note t = run_listener_tidy [OF Cons.prems(1) this r]
  have u: "\<forall>x \<in> set ls. unqueued w1 (l_msg x)"
    using t Cons.prems(2,3) by (metis distinct.simps(2) image_eqI list.set_intros(2) list.set_map list.simps(9))
  have mc: "\<forall>m \<in> set (ms @ [l_msg l]). msg_chan w1 m \<noteq> None"
  proof
    fix m assume "m \<in> set (ms @ [l_msg l])"
    then show "msg_chan w1 m \<noteq> None" using t Cons.prems(5) by (cases "m = l_msg l") auto
  qed
  show ?case
  proof (cases "(\<exists>y. r = Inr y) \<and> keys w1 s = INT_MIN")
    case True
    with r Cons.prems(6) have "run_listeners s ls (ms @ [l_msg l]) w1 = (e, ms', w')" by auto
    with Cons.IH [of w1 "ms @ [l_msg l]"] t u mc Cons.prems(2,4)
    have ih: "tidy w' \<and> (\<forall>m \<in> set ms'. msg_chan w' m \<noteq> None) \<and> set ms' \<subseteq> set (ms @ [l_msg l]) \<union> set (map l_msg ls) \<and>
      (\<forall>l \<in> set ls. l_msg l \<in> set ms' \<or> unqueued w' (l_msg l))" by auto
    moreover have "l_msg l \<in> set ms'"
      using run_listeners_keep \<open>run_listeners s ls (ms @ [l_msg l]) w1 = (e, ms', w')\<close> by fastforce
    ultimately show ?thesis by auto
  next
    case False
    with r Cons.prems(6) have "ms' = ms @ [l_msg l]" "w' = w1" by (auto split: sum.splits if_splits)
    with t u mc show ?thesis by fastforce
  qed
qed

text \<open>
  Leaving a select: it stays blocked only without a default and without a permit of its
  signal; otherwise it returns the key of the case that fired, or the default's if none has,
  never the invalid key, and leaves none of its messages in any queue of any channel.
\<close>

theorem select_end_leaves_channels:
  fixes w :: "('d :: zero) world"
  assumes "chan_reach caps w" "\<forall>m \<in> set (sel_msgs sel). msg_chan w m \<noteq> None"
  shows "case select_end sel w of
      None \<Rightarrow> default_key sel = INT_MIN \<and> signals w (sel_id sel) = 0
    | Some (k, sel', w') \<Rightarrow> sel_msgs sel' = [] \<and> k \<noteq> INT_MIN \<and>
        k = (if keys w (sel_id sel) = INT_MIN then default_key sel else keys w (sel_id sel)) \<and>
        (\<forall>m \<in> set (sel_msgs sel). unqueued w' m)"
proof -
  have t: "tidy w" and f: "fired_once w" by (rule reach_tidy [OF assms(1)]) (rule reach_fired_once [OF assms(1)])
  have drop: "\<exists>w'. select_drop sel v = Some (sel\<lparr>sel_msgs := [], listeners := []\<rparr>, w') \<and>
      (\<forall>m \<in> set (sel_msgs sel). unqueued w' m)" if "tidy v" "msg_chan v = msg_chan w" for v :: "'d world"
    using drop_all_unqueued [OF that(1), of "sel_msgs sel"] that(2) assms(2) by (auto simp: select_drop_def)
  let ?s = "sel_id sel"
  show ?thesis
  proof (cases "default_key sel = INT_MIN")
    case True
    show ?thesis
    proof (cases "signals w ?s = 0")
      case False
      then have "keys w ?s \<noteq> INT_MIN" using fired_once_bounds [OF f, of ?s] by auto
      moreover have "tidy (w\<lparr>signals := (signals w)(?s := signals w ?s - 1)\<rparr>)" using t by (simp add: tidy_def)
      ultimately show ?thesis using True False drop [of "w\<lparr>signals := (signals w)(?s := signals w ?s - 1)\<rparr>"]
        by (auto simp: select_end_def Let_def)
    qed (simp add: True select_end_def)
  next
    case False
    have "tidy (w\<lparr>keys := (keys w)(?s := default_key sel)\<rparr>)" using t by (simp add: tidy_def)
    with False drop [of w] drop [of "w\<lparr>keys := (keys w)(?s := default_key sel)\<rparr>"] t show ?thesis
      by (auto simp: select_end_def Let_def)
  qed
qed

theorem select_end_leaves_channels_witness:
  "\<exists>sel' w'. select_end (\<lparr>sel_id = 30, default_key = INT_MIN, sel_msgs = [5, 6], listeners = []\<rparr>) select_demo
     = Some (11, sel', w') \<and> unqueued w' 6"
proof -
  let ?sel = "\<lparr>sel_id = 30, default_key = INT_MIN, sel_msgs = [5, 6], listeners = []\<rparr> :: select"
  have "\<forall>m \<in> set (sel_msgs ?sel). msg_chan select_demo m \<noteq> None" "signals select_demo 30 = 1"
    by (simp_all add: select_demo_def chan_defs new_world_def)
  with select_end_leaves_channels [OF select_demo_reach this(1)] select_demo_fired show ?thesis
    by (auto split: option.splits)
qed

section \<open>Which key\<close>

text \<open>The key of a select changes only to the key of one of its messages.\<close>

definition picks_leq :: "nat \<Rightarrow> int set \<Rightarrow> 'd world \<Rightarrow> 'd world \<Rightarrow> bool" where
  "picks_leq s K w w' \<longleftrightarrow> msg w' = msg w \<and>
     ((\<forall>m d k. msg w m = Multiplex d s k \<longrightarrow> k \<in> K) \<longrightarrow> keys w s \<in> K \<longrightarrow> keys w' s \<in> K)"

interpretation picks: transfer_order UNIV home "picks_leq s K" for s K home
  by unfold_locales
    (auto simp: picks_leq_def buffer_push_def buffer_pop_def set_senders_def set_recvers_def)

lemma run_listener_picks:
  assumes "run_listener s l w = (r, w')" "l_key l \<in> K" "keys w s \<in> K"
    "\<And>m d k. msg w m = Multiplex d s k \<Longrightarrow> k \<in> K"
  shows "keys w' s \<in> K \<and> (\<forall>m d k. msg w' m = Multiplex d s k \<longrightarrow> k \<in> K)"
proof -
  define v where "v = new_msg (l_msg l) (Multiplex (Some (l_data l)) s (l_key l)) w"
  have v: "keys v s \<in> K" "\<forall>m d k. msg v m = Multiplex d s k \<longrightarrow> k \<in> K"
    using assms(2-4) by (auto simp: v_def new_msg_def)
  have ops: "keys u s \<in> K \<and> (\<forall>m d k. msg u m = Multiplex d s k \<longrightarrow> k \<in> K)"
    if "picks_leq s K (v\<lparr>msg_chan := f\<rparr>) u" for f u
    using that v by (auto simp: picks_leq_def)
  show ?thesis
  proof (cases "l_dir l")
    case CaseSend
    with assms(1) have "chan_recv_from (l_chan l) (l_msg l) False v = (r, w')" by (simp add: run_listener_def v_def)
    from picks.chan_recv_from_leq [OF this, where s = s and K = K] obtain w1 where
      w1: "picks_leq s K (v\<lparr>msg_chan := (msg_chan v)(l_msg l := Some (l_chan l))\<rparr>) w1"
      "w' = (if r = Inr CInprocess then set_senders (l_chan l) (senders (chans w1 (l_chan l)) @ [l_msg l]) w1 else w1)" by auto
    from ops [OF w1(1)] w1(2) show ?thesis by (auto simp: set_senders_def)
  next
    case CaseReceive
    with assms(1) have "chan_send_to (l_chan l) (l_msg l) False v = (r, w')" by (simp add: run_listener_def v_def)
    from picks.chan_send_to_leq [OF this, where s = s and K = K] obtain w1 where
      w1: "picks_leq s K (v\<lparr>msg_chan := (msg_chan v)(l_msg l := Some (l_chan l))\<rparr>) w1"
      "w' = (if r = Inr CInprocess then set_recvers (l_chan l) (recvers (chans w1 (l_chan l)) @ [l_msg l]) w1 else w1)" by auto
    from ops [OF w1(1)] w1(2) show ?thesis by (auto simp: set_recvers_def)
  qed
qed

lemma run_listeners_picks:
  assumes "run_listeners s ls ms w = (e, ms', w')" "l_key ` set ls \<subseteq> K" "keys w s \<in> K"
    "\<And>m d k. msg w m = Multiplex d s k \<Longrightarrow> k \<in> K"
  shows "keys w' s \<in> K"
  using assms
proof (induction ls arbitrary: ms w)
  case (Cons l ls)
  obtain r w1 where r: "run_listener s l w = (r, w1)" by fastforce
  have "l_key l \<in> K" using Cons.prems(2) by simp
  note p = run_listener_picks [OF r this Cons.prems(3,4)]
  from Cons.prems(1) r p Cons.IH [of "ms @ [l_msg l]" w1] Cons.prems(2) show ?case
    by (auto split: sum.splits if_splits)
qed simp

text \<open>
  C31: A select with a default case never blocks: whatever the shuffle, if registering its cases
  raises no error then it returns at once with the key of one of its cases or the default's,
  and none of its messages stays in a queue. (\<open>order\<close> is the shuffled list; the messages are
  fresh, and no other message belongs to the select.)
\<close>

theorem select_with_default_returns:
  fixes w :: "('d :: zero) world"
  assumes "chan_reach caps w" "distinct (map l_msg order)" "\<forall>l \<in> set order. unqueued w (l_msg l)"
    "\<forall>m d k. msg w m \<noteq> Multiplex d (sel_id sel) k" "keys w (sel_id sel) = INT_MIN"
    "sel_msgs sel = []" "default_key sel \<noteq> INT_MIN" "select_start sel order w = (None, sel1, w1)"
  shows "\<exists>k sel2 w2. select_end sel1 w1 = Some (k, sel2, w2) \<and> k \<in> insert (default_key sel) (l_key ` set order) \<and>
    (\<forall>l \<in> set order. unqueued w2 (l_msg l))"
proof -
  let ?s = "sel_id sel"
  obtain ms where r: "run_listeners ?s order [] w = (None, ms, w1)" and
    sel1: "sel1 = sel\<lparr>sel_msgs := ms, listeners := order\<rparr>"
    using assms(6,8) by (auto simp: select_start_def split: prod.splits)
  have t: "tidy w1" "\<forall>m \<in> set ms. msg_chan w1 m \<noteq> None" "\<forall>l \<in> set order. l_msg l \<in> set ms \<or> unqueued w1 (l_msg l)"
    using run_listeners_tidy [OF reach_tidy [OF assms(1)] assms(2,3) _ _ r] by auto
  have k: "keys w1 ?s \<in> insert INT_MIN (l_key ` set order)"
    using run_listeners_picks [OF r, of "insert INT_MIN (l_key ` set order)"] assms(4,5) by auto
  let ?v = "if keys w1 ?s = INT_MIN then w1\<lparr>keys := (keys w1)(?s := default_key sel)\<rparr> else w1"
  have v: "tidy ?v" "\<forall>m \<in> set ms. msg_chan ?v m \<noteq> None" "\<forall>l \<in> set order. l_msg l \<in> set ms \<or> unqueued ?v (l_msg l)"
    using t by (auto simp: tidy_def unqueued_def)
  obtain w2 where w2: "drop_all ms ?v = Some w2" "\<forall>m. m \<in> set ms \<or> unqueued ?v m \<longrightarrow> unqueued w2 m"
    using drop_all_unqueued [OF v(1,2)] by blast
  have e: "select_end sel1 w1 = Some (keys ?v ?s, sel1\<lparr>sel_msgs := [], listeners := []\<rparr>, w2)"
    using w2(1) assms(7)
    by (cases "keys w1 ?s = INT_MIN") (simp_all add: sel1 select_end_def select_drop_def Let_def)
  have "keys ?v ?s \<in> insert (default_key sel) (l_key ` set order)" using k by auto
  moreover have "\<forall>l \<in> set order. unqueued w2 (l_msg l)" using w2(2) v(3) by blast
  ultimately show ?thesis using e by blast
qed

theorem select_with_default_returns_witness:
  "let l = \<lparr>l_msg = 5, l_chan = 0, l_dir = CaseReceive, l_data = 25, l_key = 11\<rparr>;
       sel = (new_select 30)\<lparr>default_key := 19, listeners := [l]\<rparr>
   in \<exists>sel1 w1 k sel2 w2. select_start sel [l] (new_world id (\<lambda>_. 0) :: int world) = (None, sel1, w1) \<and>
        select_end sel1 w1 = Some (k, sel2, w2) \<and> k \<in> {19, 11} \<and> unqueued w2 5"
proof -
  let ?l = "\<lparr>l_msg = 5, l_chan = 0, l_dir = CaseReceive, l_data = 25, l_key = 11\<rparr> :: listener"
  let ?sel = "(new_select 30)\<lparr>default_key := 19, listeners := [?l]\<rparr>"
  obtain sel1 w1 where w1: "select_start ?sel [?l] (new_world id (\<lambda>_. 0) :: int world) = (None, sel1, w1)"
    by (auto simp: select_start_def new_select_def run_listener_def chan_defs new_world_def)
  show ?thesis using select_with_default_returns [OF reach_new _ _ _ _ _ _ w1] w1
    by (auto simp: Let_def new_select_def unqueued_def new_world_def new_chan_def)
qed

section \<open>A ready case is taken\<close>

text \<open>
  A receive case is ready if a value is buffered or a plain sender is first in the queue, a
  send case if there is room or a plain receiver is first.
\<close>

definition ready :: "'d world \<Rightarrow> listener \<Rightarrow> bool" where
  "ready w l =
     (let ch = chans w (l_chan l);
          first_plain = (\<lambda>q. case q of [] \<Rightarrow> False | m # _ \<Rightarrow> plain_msg (msg w m))
      in case l_dir l of
           CaseReceive \<Rightarrow> buffer ch \<noteq> [] \<or> first_plain (senders ch)
         | CaseSend \<Rightarrow> length (buffer ch) < capacity ch \<or> first_plain (recvers ch))"

lemma fires_keeps: "fires_leq w w' \<Longrightarrow> keys_ok w \<Longrightarrow> keys w s \<noteq> INT_MIN \<Longrightarrow> keys w' s = keys w s"
  by (simp add: fires_leq_def)

lemma receive_fires_select:
  fixes w :: "('d :: zero) world"
  assumes "buffer (chans w c) \<noteq> [] \<or> (\<exists>a q. senders (chans w c) = a # q \<and> plain_msg (msg w a))"
    "msg w m = Multiplex d s k" "keys w s = INT_MIN" "k \<noteq> INT_MIN" "keys_ok w"
  shows "keys (snd (chan_send_to c m False w)) s = k"
proof -
  let ?w = "w\<lparr>msg_chan := (msg_chan w)(m := Some c)\<rparr>"
  show ?thesis
  proof (cases "buffer (chans w c)")
    case Nil
    with assms(1) obtain a q da ga where a: "senders (chans w c) = a # q" "msg w a = Simplex da ga"
      by (auto elim: plain_msgE)
    with Nil assms(2,3) show ?thesis by (simp add: chan_defs split: option.split)
  next
    case (Cons x xs)
    define w1 where "w1 = snd (buffer_send_to c m ?w)"
    have b: "buffer_send_to c m ?w = (True, w1)" "keys w1 s = k" "keys_ok w1"
      using Cons assms(2,3,5) by (auto simp: w1_def chan_defs keys_ok_payload split: option.split)
    have "fires_leq w1 (refill_buffer c (senders (chans w1 c)) w1)"
      by (rule fires.refill_buffer_leq) auto
    from fires_keeps [OF this b(3)] b assms(4) show ?thesis by (simp add: chan_send_to_def)
  qed
qed

lemma send_fires_select:
  fixes w :: "('d :: zero) world"
  assumes "length (buffer (chans w c)) < capacity (chans w c) \<or> (\<exists>a q. recvers (chans w c) = a # q \<and> plain_msg (msg w a))"
    "msg w m = Multiplex d s k" "keys w s = INT_MIN" "k \<noteq> INT_MIN" "keys_ok w"
  shows "keys (snd (chan_recv_from c m False w)) s = k"
proof -
  let ?w = "w\<lparr>msg_chan := (msg_chan w)(m := Some c)\<rparr>"
  show ?thesis
  proof (cases "length (buffer (chans w c)) = capacity (chans w c)")
    case True
    with assms(1) obtain a q da ga where a: "recvers (chans w c) = a # q" "msg w a = Simplex da ga"
      by (auto elim: plain_msgE)
    with True assms(2,3) show ?thesis by (simp add: chan_defs split: option.split)
  next
    case False
    define w1 where "w1 = snd (buffer_recv_from c m ?w)"
    have b: "buffer_recv_from c m ?w = (True, w1)" "keys w1 s = k" "keys_ok w1"
      using False assms(2,3,5) by (auto simp: w1_def chan_defs keys_ok_payload split: option.split)
    have "fires_leq w1 (drain_buffer c (recvers (chans w1 c)) w1)"
      by (rule fires.drain_buffer_leq) auto
    from fires_keeps [OF this b(3)] b assms(4) show ?thesis by (simp add: chan_recv_from_def)
  qed
qed

lemma run_listener_ready:
  fixes w :: "('d :: zero) world"
  assumes "ready w l" "unqueued w (l_msg l)" "keys w s = INT_MIN" "l_key l \<noteq> INT_MIN" "keys_ok w"
    "run_listener s l w = (r, w')"
  shows "keys w' s = l_key l"
proof -
  define v where "v = new_msg (l_msg l) (Multiplex (Some (l_data l)) s (l_key l)) w"
  have v: "chans v = chans w" "keys v = keys w" "msg v (l_msg l) = Multiplex (Some (l_data l)) s (l_key l)" "keys_ok v"
    using assms(4,5) by (simp_all add: v_def new_msg_def keys_ok_payload)
  have other: "msg v a = msg w a" if "a \<noteq> l_msg l" for a using that by (simp add: v_def new_msg_def)
  have head: "recvers (chans w (l_chan l)) = a # q \<Longrightarrow> msg v a = msg w a"
    "senders (chans w (l_chan l)) = a # q \<Longrightarrow> msg v a = msg w a" for a q
    using assms(2) unfolding unqueued_def by (metis list.set_intros(1) other)+
  show ?thesis
  proof (cases "l_dir l")
    case CaseSend
    then have "length (buffer (chans v (l_chan l))) < capacity (chans v (l_chan l)) \<or>
        (\<exists>a q. recvers (chans v (l_chan l)) = a # q \<and> plain_msg (msg v a))"
      using assms(1) head by (auto simp: ready_def Let_def v(1) split: list.splits)
    from send_fires_select [OF this v(3) _ assms(4) v(4)] show ?thesis
      using assms(3,6) CaseSend by (simp add: run_listener_def v_def [symmetric] v(2))
  next
    case CaseReceive
    then have "buffer (chans v (l_chan l)) \<noteq> [] \<or>
        (\<exists>a q. senders (chans v (l_chan l)) = a # q \<and> plain_msg (msg v a))"
      using assms(1) head by (auto simp: ready_def Let_def v(1) split: list.splits)
    from receive_fires_select [OF this v(3) _ assms(4) v(4)] show ?thesis
      using assms(3,6) CaseReceive by (simp add: run_listener_def v_def [symmetric] v(2))
  qed
qed

lemma run_listener_msg:
  "run_listener s l w = (r, w') \<Longrightarrow>
     msg w' = (msg w)(l_msg l := Multiplex (Some (l_data l)) s (l_key l)) \<and> (\<forall>c. c \<noteq> l_chan l \<longrightarrow> chans w' c = chans w c)"
proof -
  assume r: "run_listener s l w = (r, w')"
  let ?v = "new_msg (l_msg l) (Multiplex (Some (l_data l)) s (l_key l)) w"
  have "w' = snd (chan_recv_from (l_chan l) (l_msg l) False ?v) \<or> w' = snd (chan_send_to (l_chan l) (l_msg l) False ?v)"
    using r by (cases "l_dir l") (simp_all add: run_listener_def)
  with operation_frame [of ?v "l_chan l" "l_msg l" False] show ?thesis
    by (auto simp: frame_leq_def) (auto simp: new_msg_def)
qed

lemma ready_frame:
  assumes "ready w l" "run_listener s l' w = (r, w')" "l_chan l' \<noteq> l_chan l" "unqueued w (l_msg l')"
  shows "ready w' l"
proof -
  have ch: "chans w' (l_chan l) = chans w (l_chan l)" using run_listener_msg [OF assms(2)] assms(3) by simp
  have m: "msg w' a = msg w a" if "a \<in> set (senders (chans w (l_chan l))) \<union> set (recvers (chans w (l_chan l)))" for a
    using run_listener_msg [OF assms(2)] assms(4) that by (auto simp: unqueued_def)
  show ?thesis using assms(1) m
    by (auto simp: ready_def Let_def ch split: direction.splits list.splits)
qed

lemma run_listeners_ready:
  fixes w :: "('d :: zero) world"
  assumes "tidy w" "keys_ok w" "distinct (map l_msg ls)" "distinct (map l_chan ls)" "\<forall>l \<in> set ls. unqueued w (l_msg l) \<and> l_key l \<noteq> INT_MIN"
    "l \<in> set ls" "ready w l" "keys w s = INT_MIN" "run_listeners s ls ms w = (None, ms', w')"
  shows "keys w' s \<noteq> INT_MIN"
  using assms
proof (induction ls arbitrary: w ms)
  case Nil
  then show ?case by simp
next
  case (Cons l' ls)
  obtain r w1 where r: "run_listener s l' w = (r, w1)" by fastforce
  have u: "unqueued w (l_msg l')" "l_key l' \<noteq> INT_MIN" using Cons.prems(5) by simp_all
  show ?case
  proof (cases "keys w1 s = INT_MIN")
    case False
    then show ?thesis using Cons.prems(9) r by (auto split: sum.splits)
  next
    case True
    then have "l \<noteq> l'"
      using run_listener_ready [OF _ u(1) Cons.prems(8) u(2) Cons.prems(2) r] Cons.prems(7) u(2) by auto
    with Cons.prems(4,6) have l: "l \<in> set ls" "l_chan l' \<noteq> l_chan l" by auto
    note t = run_listener_tidy [OF Cons.prems(1) u(1) r]
    have "keys_ok w1" using run_listener_msg [OF r] Cons.prems(2) u(2) by (simp add: keys_ok_payload)
    moreover have "\<forall>x \<in> set ls. unqueued w1 (l_msg x) \<and> l_key x \<noteq> INT_MIN"
      using t Cons.prems(3,5) by (metis distinct.simps(2) image_eqI list.set_intros(2) list.set_map list.simps(9))
    moreover have "run_listeners s ls (ms @ [l_msg l']) w1 = (None, ms', w')"
      using Cons.prems(9) r True by (auto split: sum.splits)
    ultimately show ?thesis
      using Cons.IH [of w1 "ms @ [l_msg l']"] t Cons.prems(3,4) l True ready_frame [OF Cons.prems(7) r l(2) u(1)] by simp
  qed
qed

text \<open>
  A ready case is taken: for a select with cases on different channels, whatever the shuffle, if
  any case is ready when it runs then it is decided by a case, without blocking and without
  falling back to the default.
\<close>

theorem select_takes_ready_case:
  fixes w :: "('d :: zero) world"
  assumes "chan_reach caps w" "distinct (map l_msg order)" "distinct (map l_chan order)"
    "\<forall>l \<in> set order. unqueued w (l_msg l) \<and> l_key l \<noteq> INT_MIN" "keys w (sel_id sel) = INT_MIN"
    "l \<in> set order" "ready w l" "select_start sel order w = (None, sel1, w1)"
  shows "keys w1 (sel_id sel) \<noteq> INT_MIN"
proof -
  obtain ms where "run_listeners (sel_id sel) order (sel_msgs sel) w = (None, ms, w1)"
    using assms(8) by (auto simp: select_start_def split: prod.splits)
  moreover have "keys_ok w" using reach_fired_once [OF assms(1)] by (simp add: fired_once_def)
  ultimately show ?thesis
    using run_listeners_ready [OF reach_tidy [OF assms(1)] _ assms(2-4,6,7,5)] by blast
qed

theorem select_takes_ready_case_witness:
  "let l = \<lparr>l_msg = 5, l_chan = 0, l_dir = CaseReceive, l_data = 25, l_key = 11\<rparr>;
       l' = \<lparr>l_msg = 6, l_chan = 1, l_dir = CaseSend, l_data = 26, l_key = 12\<rparr>
   in \<exists>sel1 w1. select_start (new_select 30) [l, l'] (new_world id (\<lambda>_. 1) :: int world) = (None, sel1, w1) \<and>
        keys w1 30 \<noteq> INT_MIN"
proof -
  let ?l = "\<lparr>l_msg = 5, l_chan = 0, l_dir = CaseReceive, l_data = 25, l_key = 11\<rparr> :: listener"
  let ?r = "\<lparr>l_msg = 6, l_chan = 1, l_dir = CaseSend, l_data = 26, l_key = 12\<rparr> :: listener"
  obtain sel1 w1 where w1: "select_start (new_select 30) [?l, ?r] (new_world id (\<lambda>_. 1) :: int world) = (None, sel1, w1)"
    by (auto simp: select_start_def new_select_def run_listener_def chan_defs new_world_def)
  have "ready (new_world id (\<lambda>_. 1) :: int world) ?r" by (simp add: ready_def new_world_def new_chan_def)
  from select_takes_ready_case [OF reach_new _ _ _ _ _ this w1] w1 show ?thesis
    by (auto simp: Let_def new_select_def unqueued_def new_world_def new_chan_def)
qed

end
