(* ===== verification/SelectRaces.thy ===== *)
theory SelectRaces
  imports Selects
begin

text \<open>
  What a select that has fired, but whose coroutine has not yet run to drop its messages, does
  to the channels it still waits on: a plain sender that meets such a message first is given
  up without being queued, and a receive case that comes too late throws away waiting senders.
\<close>

section \<open>Stranded senders\<close>

text \<open>The semaphore \<open>g\<close> has no permit, and no message waiting anywhere would release it.\<close>

definition waiting :: "'d world \<Rightarrow> nat \<Rightarrow> nat set" where
  "waiting w c = set (senders (chans w c)) \<union> set (recvers (chans w c))"

definition stranded :: "nat \<Rightarrow> 'd world \<Rightarrow> bool" where
  "stranded g w \<longleftrightarrow> sems w g = 0 \<and>
     (\<forall>c. \<forall>m \<in> waiting w c. signal_of (msg w m) \<noteq> Some g)"

text \<open>Every step by anybody else: operations whose own message does not release \<open>g\<close>.\<close>

definition others :: "nat \<Rightarrow> payload \<Rightarrow> bool" where
  "others g p \<longleftrightarrow> payload_ok p \<and> signal_of p \<noteq> Some g"

lemma stranded_operation:
  assumes "stranded g w" "signal_of (msg w m) \<noteq> Some g" "frame_leq (takes_part w c m) c w w'"
    "\<And>x. waiting w' x \<subseteq> insert m (waiting w x)"
  shows "stranded g w'"
proof -
  have msg: "msg w' = msg w" using assms(3) by (simp add: frame_leq_def)
  have "\<forall>x \<in> takes_part w c m. signal_of (msg w x) \<noteq> Some g"
    using assms(1,2) by (auto simp: takes_part_def stranded_def waiting_def)
  then have "\<forall>x \<in> takes_part w c m. \<forall>d. msg w x \<noteq> Simplex d (Some g)" by fastforce
  then have "sems w' g = sems w g" using assms(3) by (simp add: frame_leq_def)
  moreover have "signal_of (msg w' y) \<noteq> Some g"
    if "y \<in> waiting w' x" for x y
  proof (cases "y = m")
    case True
    with assms(2) msg show ?thesis by simp
  next
    case False
    with assms(4) [of x] that have "y \<in> waiting w x" by blast
    with assms(1) msg show ?thesis by (simp add: stranded_def)
  qed
  ultimately show ?thesis using assms(1) by (simp add: stranded_def)
qed

lemma link_queues:
  "waiting (set_senders c (senders (chans w c) @ [m]) w) x \<subseteq> insert m (waiting w x)"
  "waiting (set_recvers c (recvers (chans w c) @ [m]) w) x \<subseteq> insert m (waiting w x)"
  by (auto simp: waiting_def set_senders_def set_recvers_def)

lemma send_queues:
  assumes "chan_recv_from c m oneshot w = (r, w')"
  shows "waiting w' x \<subseteq> insert m (waiting w x)"
proof -
  from send_shrinks [OF assms] obtain w1 where
    w1: "shrink_leq (w\<lparr>msg_chan := (msg_chan w)(m := Some c)\<rparr>) w1"
    "w' = (if r = Inr CInprocess then set_senders c (senders (chans w1 c) @ [m]) w1 else w1)" by blast
  from shrink_set [OF w1(1), of x] link_queues(1) [of c w1 m x] w1(2) show ?thesis
    by (auto simp: waiting_def split: if_splits)
qed

lemma receive_queues:
  assumes "chan_send_to c m oneshot w = (r, w')"
  shows "waiting w' x \<subseteq> insert m (waiting w x)"
proof -
  from receive_shrinks [OF assms] obtain w1 where
    w1: "shrink_leq (w\<lparr>msg_chan := (msg_chan w)(m := Some c)\<rparr>) w1"
    "w' = (if r = Inr CInprocess then set_recvers c (recvers (chans w1 c) @ [m]) w1 else w1)" by blast
  from shrink_set [OF w1(1), of x] link_queues(2) [of c w1 m x] w1(2) show ?thesis
    by (auto simp: waiting_def split: if_splits)
qed

lemma stranded_step:
  assumes "chan_step (others g) w w'" "stranded g w"
  shows "stranded g w'"
  using assms(1)
proof cases
  case (step_send m c oneshot r)
  have "frame_leq (takes_part w c m) c w w'" using operation_frame [of w c m oneshot] step_send(3) by simp
  with step_send(2) show ?thesis
    by (intro stranded_operation [OF assms(2) _ _ send_queues [OF step_send(3)]]) (simp_all add: others_def)
next
  case (step_receive m c oneshot r)
  have "frame_leq (takes_part w c m) c w w'" using operation_frame [of w c m oneshot] step_receive(3) by simp
  with step_receive(2) show ?thesis
    by (intro stranded_operation [OF assms(2) _ _ receive_queues [OF step_receive(3)]]) (simp_all add: others_def)
next
  case (step_new m p)
  with assms(2) show ?thesis by (auto simp: stranded_def waiting_def new_msg_def unqueued_def)
next
  case (step_drop m)
  then obtain c where c: "w' = upd_chan c (\<lambda>ch. ch\<lparr>senders := remove1 m (senders ch), recvers := remove1 m (recvers ch)\<rparr>) w"
    by (auto simp: drop_msg_def split: option.splits)
  have "waiting w' x \<subseteq> waiting w x" for x
    using set_remove1_subset [of m] by (auto simp: c waiting_def)
  moreover have "msg w' = msg w" "sems w' = sems w" by (simp_all add: c)
  ultimately show ?thesis using assms(2) unfolding stranded_def by (metis subsetD)
qed (use assms(2) in \<open>auto simp: stranded_def waiting_def\<close>)

section \<open>A sender that meets a fired select\<close>

lemma send_meets_fired_select:
  assumes "capacity (chans w c) = 0" "buffer (chans w c) = []" "recvers (chans w c) = r # q"
    "msg w r = Multiplex d s k" "keys w s \<noteq> INT_MIN" "r \<noteq> m"
  shows "channel_send c m x g w =
    (Inr CInvalidSrc, (new_msg m (Simplex (Some x) (Some g)) (fresh_sem g w))\<lparr>msg_chan := (msg_chan w)(m := Some c)\<rparr>)"
  using assms by (simp add: channel_send_def chan_defs)

text \<open>
  C40: A plain sender that finds the message of an already fired select first in the receivers'
  queue of an unbuffered channel is given up: \<open>recv_from\<close> answers \<open>InvalidSrc\<close>, the sender is in
  no queue, and whatever all other coroutines do from then on, its semaphore never gets a
  permit, so its \<open>co_await (chan << x)\<close> never returns.
\<close>

theorem sender_lost_on_fired_select:
  fixes w :: "('d :: zero) world"
  assumes "capacity (chans w c) = 0" "buffer (chans w c) = []" "recvers (chans w c) = r # q"
    "msg w r = Multiplex d s k" "keys w s \<noteq> INT_MIN" "unqueued w m"
    "\<forall>c. \<forall>y \<in> waiting w c. signal_of (msg w y) \<noteq> Some g"
    "channel_send c m x g w = (res, w')" "(chan_step (others g))\<^sup>*\<^sup>* w' w''"
  shows "res = Inr CInvalidSrc \<and> unqueued w' m \<and> sems w'' g = 0"
proof -
  have "r \<noteq> m" using assms(3,6) by (metis list.set_intros(1) unqueued_def)
  note w' = send_meets_fired_select [OF assms(1-5) this, of x g]
  have "stranded g w'" "unqueued w' m"
    using w' assms(6-8) by (auto simp: stranded_def waiting_def unqueued_def new_msg_def fresh_sem_def)
  moreover from assms(9) this(1) have "stranded g w''"
    by (induction rule: rtranclp_induct) (auto intro: stranded_step)
  ultimately show ?thesis using w' assms(8) by (simp add: stranded_def)
qed

theorem sender_lost_on_fired_select_witness:
  "chan_reach (\<lambda>_. 0) select_demo \<and> fst (channel_send 1 8 28 38 select_demo) = Inr CInvalidSrc \<and>
   sems (snd (channel_send 1 8 28 38 select_demo)) 38 = 0"
proof -
  obtain res w' where w': "channel_send 1 8 28 38 select_demo = (res, w')" by fastforce
  have "capacity (chans select_demo 1) = 0" "buffer (chans select_demo 1) = []" "recvers (chans select_demo 1) = 6 # []"
      "msg select_demo 6 = Multiplex (Some 26) 30 12" "keys select_demo 30 \<noteq> INT_MIN" "unqueued select_demo 8"
      "\<forall>c. \<forall>y \<in> waiting select_demo c. signal_of (msg select_demo y) \<noteq> Some 38"
    by (simp_all add: waiting_def select_demo_def chan_defs new_world_def unqueued_def)
  from sender_lost_on_fired_select [OF this w' rtranclp.rtrancl_refl] w' select_demo_reach show ?thesis by simp
qed

section \<open>A receive case that comes too late\<close>

text \<open>
  A receive case registered after its select has fired (the loop of \<open>Select::operator()\<close> tests
  the key only after each listener) empties the senders' queue: every plain sender waiting on
  the unbuffered channel is unlinked without its value being taken and without being woken,
  and the dead message is queued instead.
\<close>

theorem fired_select_drops_senders:
  fixes w :: "('d :: zero) world"
  assumes "buffer (chans w c) = []" "\<forall>a \<in> set (senders (chans w c)). plain_msg (msg w a)"
    "msg w m = Multiplex d s k" "keys w s \<noteq> INT_MIN"
  shows "\<exists>w'. chan_send_to c m False w = (Inr CInprocess, w') \<and> senders (chans w' c) = [] \<and>
    recvers (chans w' c) = recvers (chans w c) @ [m] \<and> sems w' = sems w \<and> mem w' = mem w"
proof -
  have loop: "\<exists>v'. take_from_senders c m q v = (Inr None, v') \<and> senders (chans v' c) = [] \<and>
      recvers (chans v' c) = recvers (chans v c) \<and> sems v' = sems v \<and> mem v' = mem v"
    if "senders (chans v c) = q" "\<forall>a \<in> set q. plain_msg (msg v a)" "msg v m = Multiplex d s k" "keys v s \<noteq> INT_MIN"
    for q and v :: "'d world"
    using that
  proof (induction q arbitrary: v)
    case Nil
    then show ?case by simp
  next
    case (Cons a q)
    then obtain da ga where "msg v a = Simplex da ga" by (auto elim: plain_msgE)
    with Cons.prems have "send_to_msg a m v = (Inr InvalidSrc, v)"
      by (simp add: send_to_msg_def recv_from_ptr_def)
    moreover have "\<exists>v'. take_from_senders c m q (set_senders c q v) = (Inr None, v') \<and> senders (chans v' c) = [] \<and>
        recvers (chans v' c) = recvers (chans (set_senders c q v) c) \<and> sems v' = sems (set_senders c q v) \<and>
        mem v' = mem (set_senders c q v)"
      using Cons.prems by (intro Cons.IH) (simp_all add: set_senders_def)
    ultimately show ?case by (simp add: set_senders_def)
  qed
  let ?w = "w\<lparr>msg_chan := (msg_chan w)(m := Some c)\<rparr>"
  from loop [of ?w "senders (chans w c)"] assms obtain v where
    v: "take_from_senders c m (senders (chans w c)) ?w = (Inr None, v)" "senders (chans v c) = []"
    "recvers (chans v c) = recvers (chans w c)" "sems v = sems w" "mem v = mem w" by auto
  with assms(1) show ?thesis
    by (simp add: chan_send_to_def buffer_send_to_def set_recvers_def)
qed

theorem fired_select_drops_senders_witness:
  "\<exists>w :: int world. senders (chans w 0) = [5] \<and> keys w 30 = 11 \<and>
     (\<exists>w'. chan_send_to 0 6 False w = (Inr CInprocess, w') \<and> senders (chans w' 0) = [] \<and> sems w' 35 = 0)"
proof -
  define w :: "int world" where
    "w = (snd (channel_send 0 5 25 35 (new_msg 6 (Multiplex (Some 26) 30 12) (new_world id (\<lambda>_. 0)))))\<lparr>keys := (\<lambda>_. INT_MIN)(30 := 11)\<rparr>"
  have w: "senders (chans w 0) = [5]" "buffer (chans w 0) = []" "sems w 35 = 0" "keys w 30 = 11"
      "msg w 6 = Multiplex (Some 26) 30 12" "msg w 5 = Simplex (Some 25) (Some 35)"
    by (simp_all add: w_def channel_send_def chan_defs new_world_def)
  have "\<forall>a \<in> set (senders (chans w 0)). plain_msg (msg w a)" "keys w 30 \<noteq> INT_MIN" using w by simp_all
  from fired_select_drops_senders [OF w(2) this(1) w(5) this(2)] w show ?thesis by metis
qed

section \<open>Both ends in one select\<close>

text \<open>
  A select that waits to send and to receive on the same unbuffered channel raises the
  deadlock error, in either order of its listeners, before its guard is set up: the message
  registered first stays in the queue of the channel until the select object is destroyed.
\<close>

theorem same_channel_select_throws:
  fixes w :: "('d :: zero) world"
  assumes "capacity (chans w c) = 0" "buffer (chans w c) = []" "senders (chans w c) = []" "recvers (chans w c) = []"
    "keys w s = INT_MIN" "a \<noteq> b"
    "order = [\<lparr>l_msg = a, l_chan = c, l_dir = dir, l_data = x, l_key = k\<rparr>,
      \<lparr>l_msg = b, l_chan = c, l_dir = (if dir = CaseSend then CaseReceive else CaseSend), l_data = y, l_key = k'\<rparr>]"
  shows "\<exists>w'. run_listeners s order [] w = (Some same_select_error, [a, b], w') \<and> \<not> unqueued w' a"
proof (cases dir)
  case CaseSend
  with assms show ?thesis
    by (auto simp: run_listener_def chan_defs unqueued_def split: if_splits)
next
  case CaseReceive
  with assms show ?thesis
    by (auto simp: run_listener_def chan_defs unqueued_def split: if_splits)
qed

theorem same_channel_select_throws_witness:
  "\<exists>w'. run_listeners 30 [\<lparr>l_msg = 5, l_chan = 0, l_dir = CaseSend, l_data = 25, l_key = 11\<rparr>,
      \<lparr>l_msg = 6, l_chan = 0, l_dir = CaseReceive, l_data = 26, l_key = 12\<rparr>] [] (new_world id (\<lambda>_. 0) :: int world)
      = (Some same_select_error, [5, 6], w')"
  using same_channel_select_throws [of "new_world id (\<lambda>_. 0) :: int world" 0 30 5 6 _ CaseSend 25 11 26 12]
  by (auto simp: new_world_def new_chan_def)

end
