(* ===== verification/Timers.thy ===== *)
theory Timers
  imports Batch "HOL-Library.Multiset" Complex_Main
begin

text \<open>
  \<open>TimedContext\<close> (\<open>src/include/core/timed.h\<close>, \<open>src/core/timed.cpp\<close>): one priority queue of
  timers per partition, creating a timer, firing the due ones in batches, and the time the
  next one is due. \<open>std::priority_queue\<close> is an interface with its documented contract; the
  clock is any monotone function of how often it has been read.
\<close>

section \<open>Time\<close>

text \<open>
  \<open>steady_clock\<close> counts nanoseconds in a signed 64-bit integer; \<open>duration_cast\<close> from
  milliseconds truncates toward zero.
\<close>

definition time_max :: int where
  "time_max = 2 ^ 63 - 1"

definition to_ns :: "rat \<Rightarrow> int" where
  "to_ns ms = (if ms \<ge> 0 then \<lfloor>ms * 1000000\<rfloor> else \<lceil>ms * 1000000\<rceil>)"

lemma to_ns_mono: "a \<le> b \<Longrightarrow> to_ns a \<le> to_ns b"
proof -
  assume ab: "a \<le> b"
  then have m: "a * 1000000 \<le> b * 1000000" by simp
  show ?thesis
  proof (cases "a \<ge> 0")
    case True
    with ab m show ?thesis by (simp add: to_ns_def floor_mono)
  next
    case False
    show ?thesis
    proof (cases "b \<ge> 0")
      case True
      from False have "\<lceil>a * 1000000\<rceil> \<le> 0" by (simp add: ceiling_le_iff)
      moreover from True have "0 \<le> \<lfloor>b * 1000000\<rfloor>" by simp
      ultimately have "\<lceil>a * 1000000\<rceil> \<le> \<lfloor>b * 1000000\<rfloor>" by linarith
      then show ?thesis using False True by (simp add: to_ns_def)
    next
      case b: False
      with False m show ?thesis by (simp add: to_ns_def ceiling_mono)
    qed
  qed
qed

section \<open>Timers and their queue\<close>

text \<open>\<open>TimedContext::Task\<close>; tasks compare by their expiry only, so the order is a preorder.\<close>

record 'f timer =
  timer_id :: nat
  timer_fn :: 'f
  timer_ex :: int

definition task_less :: "('f, 'b) timer_scheme \<Rightarrow> ('f, 'b) timer_scheme \<Rightarrow> bool" where
  "task_less t u \<longleftrightarrow> timer_ex t < timer_ex u"

instantiation timer_ext :: (type, type) preorder
begin

definition less_eq_timer_ext :: "('a, 'b) timer_scheme \<Rightarrow> ('a, 'b) timer_scheme \<Rightarrow> bool" where
  "less_eq_timer_ext t u \<longleftrightarrow> timer_ex t \<le> timer_ex u"

definition less_timer_ext :: "('a, 'b) timer_scheme \<Rightarrow> ('a, 'b) timer_scheme \<Rightarrow> bool" where
  "less_timer_ext t u \<longleftrightarrow> task_less t u"

instance by standard (auto simp: less_eq_timer_ext_def less_timer_ext_def task_less_def)

end

lemma timer_order [simp]:
  "t \<le> u \<longleftrightarrow> timer_ex t \<le> timer_ex u" "t < u \<longleftrightarrow> timer_ex t < timer_ex (u :: 'f timer)"
  by (simp_all add: less_eq_timer_ext_def less_timer_ext_def task_less_def)

text \<open>
  What \<open>std::priority_queue<Task, vector<Task>, greater<Task>>\<close> promises: a multiset of which
  \<open>top\<close> is some element with least expiry.
\<close>

locale timer_queue =
  fixes ok :: "'q \<Rightarrow> bool" and elems :: "'q \<Rightarrow> 'f timer multiset" and none :: 'q
    and put :: "'f timer \<Rightarrow> 'q \<Rightarrow> 'q" and top :: "'q \<Rightarrow> 'f timer option" and rest :: "'q \<Rightarrow> 'q"
  assumes ok_none: "ok none" and elems_none: "elems none = {#}"
    and ok_put: "ok q \<Longrightarrow> ok (put t q)" and elems_put: "ok q \<Longrightarrow> elems (put t q) = add_mset t (elems q)"
    and top_None: "ok q \<Longrightarrow> top q = None \<longleftrightarrow> elems q = {#}"
    and top_least: "ok q \<Longrightarrow> top q = Some t \<Longrightarrow> t \<in># elems q \<and> (\<forall>u \<in># elems q. t \<le> u)"
    and ok_rest: "ok q \<Longrightarrow> ok (rest q)"
    and elems_rest: "ok q \<Longrightarrow> top q = Some t \<Longrightarrow> elems (rest q) = elems q - {#t#}"
begin

text \<open>Taking the top while it is due, at one reading of the clock each.\<close>

fun take_due :: "int list \<Rightarrow> 'q \<Rightarrow> 'f timer list \<times> 'q" where
  "take_due [] q = ([], q)"
| "take_due (now # ts) q =
     (case top q of
        None \<Rightarrow> ([], q)
      | Some t \<Rightarrow> if now \<ge> timer_ex t then (let (xs, q') = take_due ts (rest q) in (t # xs, q')) else ([], q))"

lemma elems_split: "ok q \<Longrightarrow> top q = Some t \<Longrightarrow> elems q = add_mset t (elems (rest q))"
  using top_least [of q t] elems_rest [of q t] by simp

lemma take_due_mset: "ok q \<Longrightarrow> take_due ts q = (xs, q') \<Longrightarrow> elems q = mset xs + elems q' \<and> ok q'"
proof (induction ts arbitrary: q xs q')
  case (Cons now ts)
  show ?case
  proof (cases "top q")
    case (Some t)
    obtain ys r where y: "take_due ts (rest q) = (ys, r)" by fastforce
    from Cons.IH [OF ok_rest y] Cons.prems Some y elems_split [OF Cons.prems(1) Some] show ?thesis
      by (auto split: if_splits)
  qed (use Cons in simp)
qed simp

text \<open>They come out in the order of their expiry, and what stays expires no earlier.\<close>

lemma take_due_sorted:
  "ok q \<Longrightarrow> take_due ts q = (xs, q') \<Longrightarrow>
     sorted (map timer_ex xs) \<and> (\<forall>t \<in> set xs. \<forall>u \<in># elems q'. timer_ex t \<le> timer_ex u)"
proof (induction ts arbitrary: q xs q')
  case (Cons now ts)
  show ?case
  proof (cases "top q")
    case (Some t)
    obtain ys r where y: "take_due ts (rest q) = (ys, r)" by fastforce
    have m: "elems (rest q) = mset ys + elems r" using take_due_mset [OF ok_rest y] Cons.prems(1) by simp
    have le: "\<forall>u \<in># elems q. timer_ex t \<le> timer_ex u" using top_least [OF Cons.prems(1) Some] by simp
    have sub: "u \<in># elems q" if "u \<in> set ys \<or> u \<in># elems r" for u
      using that m elems_split [OF Cons.prems(1) Some] by auto
    from Cons.IH [OF ok_rest y] Cons.prems Some y le sub show ?thesis by (auto split: if_splits)
  qed (use Cons in simp)
qed simp

text \<open>A timer is due if the clock has reached its expiry; if the top is not due, nothing is.\<close>

lemma none_due:
  assumes "ok q" "u \<in># elems q" "\<And>t. top q = Some t \<Longrightarrow> now < timer_ex t"
  shows "now < timer_ex u"
proof (cases "top q")
  case None
  with top_None assms(1,2) show ?thesis by simp
next
  case (Some t)
  with top_least [OF assms(1) Some] assms(2,3) show ?thesis by force
qed

end

text \<open>The queue of the model: a list in order of expiry.\<close>

definition pq_ok :: "'f timer list \<Rightarrow> bool" where
  "pq_ok q \<longleftrightarrow> sorted (map timer_ex q)"

definition pq_push :: "'f timer \<Rightarrow> 'f timer list \<Rightarrow> 'f timer list" where
  "pq_push t q = insort_key timer_ex t q"

definition pq_top :: "'f timer list \<Rightarrow> 'f timer option" where
  "pq_top q = (case q of [] \<Rightarrow> None | t # _ \<Rightarrow> Some t)"

definition pq_pop :: "'f timer list \<Rightarrow> 'f timer list" where
  "pq_pop q = tl q"

interpretation pq: timer_queue pq_ok mset "[]" pq_push pq_top pq_pop
  by unfold_locales
    (auto simp: pq_ok_def pq_push_def pq_top_def pq_pop_def sorted_insort_key map_tl sorted_tl split: list.splits)

section \<open>TimedContext\<close>

text \<open>
  The id counter, the slots, which of them have a \<open>_signal\<close>, how often the clock has been
  read, and what has happened: timers fired, with the time read, and signals emitted.
\<close>

record 'f timed =
  next_id :: nat
  slots :: "'f timer list list"
  has_signal :: "nat \<Rightarrow> bool"
  reads :: nat
  fired :: "('f timer \<times> int) list"
  emits :: "nat list"

definition timed_init :: "nat \<Rightarrow> 'f timed" where
  "timed_init n = \<lparr>next_id = 0, slots = replicate n [], has_signal = (\<lambda>_. False), reads = 0, fired = [], emits = []\<rparr>"

text \<open>\<open>id % _schedulers.size()\<close> is undefined without schedulers.\<close>

datatype timed_fault = NoSlots

definition timer_slot :: "nat \<Rightarrow> 'f timed \<Rightarrow> timed_fault + nat" where
  "timer_slot i s = (if slots s = [] then Inl NoSlots else Inr (i mod length (slots s)))"

definition on_timeout :: "nat \<Rightarrow> 'f timed \<Rightarrow> 'f timed" where
  "on_timeout p s = s\<lparr>has_signal := (has_signal s)(p := True)\<rparr>"

text \<open>\<open>Scheduler::push\<close>: the worker is signalled if the new timer is due before all others.\<close>

definition timer_push :: "nat \<Rightarrow> 'f timer \<Rightarrow> 'f timed \<Rightarrow> 'f timed" where
  "timer_push p t s =
     (let q = slots s ! p;
          first = (case pq_top q of None \<Rightarrow> True | Some u \<Rightarrow> t < u);
          s1 = (if first \<and> has_signal s p then s\<lparr>emits := emits s @ [p]\<rparr> else s)
      in s1\<lparr>slots := (slots s1)[p := pq_push t q]\<rparr>)"

definition create_timeout :: "(nat \<Rightarrow> int) \<Rightarrow> 'f \<Rightarrow> rat \<Rightarrow> 'f timed \<Rightarrow> timed_fault + 'f timed" where
  "create_timeout clock f ms s =
     (let i = next_id s; s1 = s\<lparr>next_id := Suc i\<rparr>
      in and_then (timer_slot i s1) (\<lambda>p.
           let now = clock (reads s1)
           in Inr (timer_push p \<lparr>timer_id = i, timer_fn = f, timer_ex = now + to_ns ms\<rparr> (s1\<lparr>reads := Suc (reads s1)\<rparr>))))"

text \<open>
  The code adds 64-bit counts. For timeouts of up to a century either way and a clock within as much of
  its epoch the sum is the one of integers.
\<close>

lemma to_ns_century: "\<bar>ms\<bar> \<le> 4 * 10 ^ 12 \<Longrightarrow> \<bar>to_ns ms\<bar> \<le> 4 * 10 ^ 18"
  using to_ns_mono [of "- (4 * 10 ^ 12)" ms] to_ns_mono [of ms "4 * 10 ^ 12"] by (simp add: to_ns_def abs_le_iff)

lemma expiry_exact:
  assumes "\<bar>now\<bar> < 2 ^ 62" "\<bar>ms\<bar> \<le> 4 * 10 ^ 12"
  shows "sint (word_of_int now + word_of_int (to_ns ms) :: 64 word) = now + to_ns ms"
proof -
  have "- (2 ^ 63) \<le> now + to_ns ms" "now + to_ns ms < 2 ^ 63"
    using assms(1) to_ns_century [OF assms(2)] by (simp_all add: abs_le_iff abs_less_iff)
  then have "signed_take_bit 63 (now + to_ns ms) = now + to_ns ms" by (simp add: signed_take_bit_int_eq_self)
  moreover have "(word_of_int now + word_of_int (to_ns ms) :: 64 word) = word_of_int (now + to_ns ms)" by simp
  ultimately show ?thesis by (simp only: sint_sbintrunc') simp
qed

text \<open>\<open>Scheduler::pop\<close>; the clock is read only if there is a timer.\<close>

definition timer_pop :: "(nat \<Rightarrow> int) \<Rightarrow> nat \<Rightarrow> 'f timed \<Rightarrow> ('f timer \<times> int) option \<times> 'f timed" where
  "timer_pop clock p s =
     (case pq_top (slots s ! p) of
        None \<Rightarrow> (None, s)
      | Some t \<Rightarrow>
          let now = clock (reads s); s1 = s\<lparr>reads := Suc (reads s)\<rparr>
          in if now \<ge> timer_ex t then (Some (t, now), s1\<lparr>slots := (slots s1)[p := pq_pop (slots s1 ! p)]\<rparr>)
             else (None, s1))"

text \<open>One turn of the loops of \<open>run_timeout\<close>: pop, and call the callback.\<close>

definition try_timer :: "(nat \<Rightarrow> int) \<Rightarrow> nat \<Rightarrow> 'f timed \<Rightarrow> timed_fault + (bool \<times> 'f timed)" where
  "try_timer clock i s = and_then (timer_slot i s) (\<lambda>p.
     case timer_pop clock p s of
       (None, s1) \<Rightarrow> Inr (False, s1)
     | (Some r, s1) \<Rightarrow> Inr (True, s1\<lparr>fired := fired s1 @ [r]\<rparr>))"

definition run_timeout :: "(nat \<Rightarrow> int) \<Rightarrow> nat \<Rightarrow> nat \<Rightarrow> 'f timed \<Rightarrow> timed_fault + (nat \<times> 'f timed)" where
  "run_timeout clock pindex batch_size s =
     batch_loop (length (slots s)) batch_size pindex (try_timer clock) s"

definition next_schedule_time :: "nat \<Rightarrow> 'f timed \<Rightarrow> timed_fault + int" where
  "next_schedule_time pindex s = and_then (timer_slot pindex s) (\<lambda>p.
     Inr (case pq_top (slots s ! p) of None \<Rightarrow> time_max | Some t \<Rightarrow> timer_ex t))"

section \<open>Invariant\<close>

definition pending :: "'f timed \<Rightarrow> 'f timer multiset" where
  "pending s = mset (concat (slots s))"

definition timed_inv :: "'f timed \<Rightarrow> bool" where
  "timed_inv s \<longleftrightarrow> (\<forall>q \<in> set (slots s). pq_ok q) \<and>
     image_mset timer_id (pending s + mset (map fst (fired s))) = mset [0..<next_id s] \<and>
     (\<forall>(t, now) \<in> set (fired s). timer_ex t \<le> now)"

lemma mset_concat_update:
  "p < length qs \<Longrightarrow> mset (concat (qs[p := q])) + mset (qs ! p) = mset (concat qs) + mset q"
proof (induction qs arbitrary: p)
  case (Cons a qs)
  then show ?case by (cases p) (auto simp: ac_simps)
qed simp

lemma timer_slot_Inr: "timer_slot i s = Inr p \<longleftrightarrow> slots s \<noteq> [] \<and> p = i mod length (slots s)"
  by (auto simp: timer_slot_def)

lemma slot_lt: "slots s \<noteq> [] \<Longrightarrow> i mod length (slots s) < length (slots s)"
  by simp

lemma timer_push_fields:
  "slots (timer_push p t s) = (slots s)[p := pq_push t (slots s ! p)]" "next_id (timer_push p t s) = next_id s"
  "fired (timer_push p t s) = fired s" "reads (timer_push p t s) = reads s" "has_signal (timer_push p t s) = has_signal s"
  "emits (timer_push p t s) = emits s @ (if (case pq_top (slots s ! p) of None \<Rightarrow> True | Some u \<Rightarrow> timer_ex t < timer_ex u) \<and>
     has_signal s p then [p] else [])"
  by (simp_all add: timer_push_def Let_def split: option.split)

lemma create_timeout_Inr:
  assumes "create_timeout clock f ms s = Inr s'"
  obtains p where "p < length (slots s)" "p = next_id s mod length (slots s)"
    "s' = timer_push p \<lparr>timer_id = next_id s, timer_fn = f, timer_ex = clock (reads s) + to_ns ms\<rparr>
       (s\<lparr>next_id := Suc (next_id s), reads := Suc (reads s)\<rparr>)"
  using assms by (auto simp: create_timeout_def Let_def and_then_Inr timer_slot_Inr)

lemma create_timeout_inv:
  assumes "timed_inv s" "create_timeout clock f ms s = Inr s'"
  shows "timed_inv s'"
  using assms(2)
proof (rule create_timeout_Inr)
  fix p
  let ?t = "\<lparr>timer_id = next_id s, timer_fn = f, timer_ex = clock (reads s) + to_ns ms\<rparr>"
  assume p: "p < length (slots s)" and s': "s' = timer_push p ?t (s\<lparr>next_id := Suc (next_id s), reads := Suc (reads s)\<rparr>)"
  have "pending s' = add_mset ?t (pending s)"
    using mset_concat_update [OF p, of "pq_push ?t (slots s ! p)"]
    by (simp add: pending_def s' timer_push_fields pq_push_def)
  moreover have "pq_ok (pq_push ?t (slots s ! p))" using assms(1) p by (auto simp: timed_inv_def intro: pq.ok_put)
  ultimately show ?thesis using assms(1)
    by (auto simp: timed_inv_def s' timer_push_fields dest!: set_update_subset_insert [THEN subsetD])
qed

lemma try_timer_Inr:
  assumes "try_timer clock i s = Inr (ok, s')"
  obtains (empty) p where "\<not> ok" "p = i mod length (slots s)" "p < length (slots s)" "slots s ! p = []" "s' = s"
  | (waiting) p t q where "\<not> ok" "p = i mod length (slots s)" "p < length (slots s)" "slots s ! p = t # q"
      "clock (reads s) < timer_ex t" "s' = s\<lparr>reads := Suc (reads s)\<rparr>"
  | (due) p t q where "ok" "p = i mod length (slots s)" "p < length (slots s)" "slots s ! p = t # q"
      "timer_ex t \<le> clock (reads s)"
      "s' = s\<lparr>reads := Suc (reads s), slots := (slots s)[p := q], fired := fired s @ [(t, clock (reads s))]\<rparr>"
proof -
  from assms obtain p where p: "p = i mod length (slots s)" "slots s \<noteq> []"
    "(case timer_pop clock p s of (None, s1) \<Rightarrow> Inr (False, s1)
      | (Some r, s1) \<Rightarrow> Inr (True, s1\<lparr>fired := fired s1 @ [r]\<rparr>)) = (Inr (ok, s') :: timed_fault + _)"
    by (auto simp: try_timer_def and_then_Inr timer_slot_Inr)
  then have lt: "p < length (slots s)" by simp
  show ?thesis
  proof (cases "slots s ! p")
    case Nil
    with p(3) show ?thesis by (intro empty [OF _ p(1) lt Nil]) (simp_all add: timer_pop_def pq_top_def)
  next
    case (Cons t q)
    show ?thesis
    proof (cases "timer_ex t \<le> clock (reads s)")
      case True
      with p(3) Cons show ?thesis
        by (intro due [OF _ p(1) lt Cons True]) (auto simp: timer_pop_def pq_top_def pq_pop_def Let_def)
    next
      case False
      with p(3) Cons show ?thesis
        by (intro waiting [OF _ p(1) lt Cons]) (simp_all add: timer_pop_def pq_top_def Let_def)
    qed
  qed
qed

lemma try_timer_inv:
  assumes "timed_inv s" "try_timer clock i s = Inr (ok, s')"
  shows "timed_inv s'"
  using assms(2)
proof (cases rule: try_timer_Inr)
  case (due p t q)
  have "pending s = add_mset t (pending s')"
    using mset_concat_update [OF due(3), of q] by (simp add: pending_def due(4,6))
  moreover have "pq_ok q" using assms(1) due(3,4) nth_mem [OF due(3)] by (auto simp: timed_inv_def pq_ok_def)
  ultimately show ?thesis using assms(1) due(5)
    by (auto simp: timed_inv_def due(6) dest!: set_update_subset_insert [THEN subsetD])
qed (use assms in \<open>auto simp: timed_inv_def pending_def\<close>)

text \<open>A miss only reads the clock.\<close>

definition only_reads :: "'f timed \<Rightarrow> 'f timed \<Rightarrow> bool" where
  "only_reads s s' \<longleftrightarrow> (\<exists>k \<ge> reads s. s' = s\<lparr>reads := k\<rparr>)"

lemma only_reads_refl: "only_reads s s"
  unfolding only_reads_def by (rule exI [of _ "reads s"]) simp

lemma only_reads_Suc: "only_reads s (s\<lparr>reads := Suc (reads s)\<rparr>)"
  unfolding only_reads_def by (rule exI [of _ "Suc (reads s)"]) simp

lemma only_reads_trans: "only_reads s t \<Longrightarrow> only_reads t u \<Longrightarrow> only_reads s u"
proof -
  assume "only_reads s t" "only_reads t u"
  then obtain j k where "reads s \<le> j" "t = s\<lparr>reads := j\<rparr>" "reads t \<le> k" "u = t\<lparr>reads := k\<rparr>"
    by (auto simp: only_reads_def)
  then show ?thesis unfolding only_reads_def by (intro exI [of _ k]) simp
qed

lemma only_readsD: "only_reads s s' \<Longrightarrow> slots s' = slots s \<and> fired s' = fired s \<and> reads s \<le> reads s'"
  by (auto simp: only_reads_def)

interpretation expiry: batch_invariant "try_timer clock" only_reads timed_inv for clock
proof (unfold_locales, goal_cases)
  case (1 i s s')
  then show ?case by (cases rule: try_timer_Inr) (simp_all add: only_reads_refl only_reads_Suc)
next
  case (2 s)
  show ?case by (rule only_reads_refl)
next
  case (3 s t u)
  then show ?case by (rule only_reads_trans)
next
  case (4 s i ok s')
  then show ?case by (rule try_timer_inv)
qed

inductive timed_reach :: "(nat \<Rightarrow> int) \<Rightarrow> nat \<Rightarrow> 'f timed \<Rightarrow> bool" for clock n where
  timed_start: "timed_reach clock n (timed_init n)"
| timed_create: "timed_reach clock n s \<Longrightarrow> create_timeout clock f ms s = Inr s' \<Longrightarrow> timed_reach clock n s'"
| timed_signal: "timed_reach clock n s \<Longrightarrow> timed_reach clock n (on_timeout p s)"
| timed_try: "timed_reach clock n s \<Longrightarrow> try_timer clock i s = Inr (ok, s') \<Longrightarrow> timed_reach clock n s'"
| timed_read: "timed_reach clock n s \<Longrightarrow> timed_reach clock n (s\<lparr>reads := Suc (reads s)\<rparr>)"

lemma timed_reach_inv: "timed_reach clock n s \<Longrightarrow> timed_inv s"
proof (induction rule: timed_reach.induct)
  case timed_start
  then show ?case by (auto simp: timed_inv_def timed_init_def pending_def pq_ok_def)
next
  case (timed_create s f ms s')
  show ?case by (rule create_timeout_inv [OF timed_create.IH timed_create.hyps(2)])
next
  case (timed_try s i ok s')
  show ?case by (rule try_timer_inv [OF timed_try.IH timed_try.hyps(2)])
qed (simp_all add: on_timeout_def timed_inv_def pending_def)

text \<open>
  C16: Every timer fires at most once, is never lost, and never fires early: in every reachable state,
  whatever the order in which any number of workers create and fire timers, the timers that
  are pending and those that have fired are together exactly those created, each once, and
  each was fired at a reading of the clock at or after its expiry.
\<close>

theorem timers_fire_once_not_early:
  assumes "timed_reach clock n s"
  shows "image_mset timer_id (pending s + mset (map fst (fired s))) = mset [0..<next_id s] \<and>
    (\<forall>(t, now) \<in> set (fired s). timer_ex t \<le> now)"
  using timed_reach_inv [OF assms] by (simp add: timed_inv_def)

text \<open>A context with two partitions: two timers, the second of which is due at once.\<close>

definition timed_demo :: "string timed" where
  "timed_demo = (case create_timeout (\<lambda>k. int k) ''late'' 5 (timed_init 2) of
     Inr s \<Rightarrow> (case create_timeout (\<lambda>k. int k) ''soon'' 0 s of Inr t \<Rightarrow> t | Inl _ \<Rightarrow> s)
   | Inl _ \<Rightarrow> timed_init 2)"

lemma timed_demo_eq:
  "timed_demo = \<lparr>next_id = 2, slots = [[\<lparr>timer_id = 0, timer_fn = ''late'', timer_ex = 5000000\<rparr>],
     [\<lparr>timer_id = 1, timer_fn = ''soon'', timer_ex = 1\<rparr>]], has_signal = (\<lambda>_. False), reads = 2, fired = [], emits = []\<rparr>"
  by (simp add: timed_demo_def create_timeout_def timed_init_def timer_slot_def Let_def timer_push_def pq_push_def
      pq_top_def to_ns_def numeral_2_eq_2)

lemma timed_demo_reach: "timed_reach int 2 timed_demo"
proof -
  obtain s where s: "create_timeout int ''late'' 5 (timed_init 2) = Inr s"
    by (simp add: create_timeout_def timed_init_def timer_slot_def Let_def numeral_2_eq_2)
  have n: "slots s \<noteq> []" using s by (auto elim!: create_timeout_Inr simp: timer_push_fields timed_init_def)
  then obtain t where t: "create_timeout int ''soon'' 0 s = Inr t"
    by (simp add: create_timeout_def timer_slot_def Let_def)
  from s t have "timed_demo = t" by (simp add: timed_demo_def)
  with timed_create [OF timed_create [OF timed_start s] t] show ?thesis by simp
qed

lemma timed_demo_fire:
  "try_timer int 1 timed_demo = Inr (True, timed_demo\<lparr>slots := [[\<lparr>timer_id = 0, timer_fn = ''late'', timer_ex = 5000000\<rparr>], []],
     reads := 3, fired := [(\<lparr>timer_id = 1, timer_fn = ''soon'', timer_ex = 1\<rparr>, 2)]\<rparr>)"
  by (simp add: timed_demo_eq try_timer_def timer_slot_def timer_pop_def pq_top_def pq_pop_def Let_def)

theorem timers_fire_once_not_early_witness:
  "\<exists>s. try_timer int 1 timed_demo = Inr (True, s) \<and> image_mset timer_id (pending s) = {#0#}"
proof -
  obtain s where s: "try_timer int 1 timed_demo = Inr (True, s)" "map fst (fired s) = [\<lparr>timer_id = 1, timer_fn = ''soon'', timer_ex = 1\<rparr>]"
    "next_id s = 2"
    unfolding timed_demo_fire by (simp add: timed_demo_eq)
  have "image_mset timer_id (pending s) + {#1#} = mset [0..<2]"
    using timers_fire_once_not_early [OF timed_try [OF timed_demo_reach s(1)]] s(2,3) by simp
  also have "\<dots> = {#0#} + {#1#}" by (simp add: numeral_2_eq_2)
  finally have "image_mset timer_id (pending s) = {#0#}" by (rule add_right_imp_eq)
  with s(1) show ?thesis by blast
qed

section \<open>A batch of timers\<close>

lemma try_timer_slots:
  "try_timer clock i s = Inr (ok, s') \<Longrightarrow>
     length (slots s') = length (slots s) \<and> reads s \<le> reads s' \<and>
     (\<forall>p < length (slots s). set (slots s' ! p) \<subseteq> set (slots s ! p))"
  by (erule try_timer_Inr) (auto simp: nth_list_update)

text \<open>Along a batch timers only go away and the clock only goes on.\<close>

definition timed_leq :: "'f timed \<Rightarrow> 'f timed \<Rightarrow> bool" where
  "timed_leq s t \<longleftrightarrow> length (slots t) = length (slots s) \<and> reads s \<le> reads t \<and>
     (\<forall>p < length (slots s). set (slots t ! p) \<subseteq> set (slots s ! p))"

interpretation decrease: batch_order "try_timer clock" only_reads timed_leq for clock
proof (unfold_locales, goal_cases)
  case (1 s)
  show ?case by (simp add: timed_leq_def)
next
  case (2 s t u)
  from 2 have "length (slots u) = length (slots s)" "reads s \<le> reads u" by (simp_all add: timed_leq_def)
  moreover have "set (slots u ! p) \<subseteq> set (slots s ! p)" if "p < length (slots s)" for p
  proof (rule subset_trans)
    show "set (slots u ! p) \<subseteq> set (slots t ! p)" using 2 that by (simp add: timed_leq_def)
    show "set (slots t ! p) \<subseteq> set (slots s ! p)" using 2(1) that by (simp add: timed_leq_def)
  qed
  ultimately show ?case by (simp add: timed_leq_def)
next
  case (3 i s ok s')
  from try_timer_slots [OF 3] show ?case by (simp add: timed_leq_def)
qed

lemma try_timer_total:
  assumes "slots s \<noteq> []"
  obtains ok s' where "try_timer clock i s = Inr (ok, s')" "slots s' \<noteq> []"
proof -
  let ?p = "i mod length (slots s)"
  obtain r s1 where r: "timer_pop clock ?p s = (r, s1)" by fastforce
  then have "try_timer clock i s = Inr (case r of None \<Rightarrow> (False, s1) | Some x \<Rightarrow> (True, s1\<lparr>fired := fired s1 @ [x]\<rparr>))"
    using assms by (simp add: try_timer_def timer_slot_def split: option.split)
  moreover from this try_timer_slots have "length (slots (snd (case r of None \<Rightarrow> (False, s1)
      | Some x \<Rightarrow> (True, s1\<lparr>fired := fired s1 @ [x]\<rparr>)))) = length (slots s)"
    by (metis prod.collapse)
  ultimately show ?thesis using that assms by (metis length_0_conv prod.collapse)
qed

lemma own_loop_total: "slots s \<noteq> [] \<Longrightarrow> \<exists>r. own_loop n (try_timer clock i) s = Inr r \<and> slots (snd r) \<noteq> []"
proof (induction n arbitrary: s)
  case (Suc n)
  obtain ok s' where s': "try_timer clock i s = Inr (ok, s')" "slots s' \<noteq> []"
    by (rule try_timer_total [OF Suc.prems])
  from Suc.IH [OF s'(2)] s' show ?case by (auto split: prod.splits)
qed simp

lemma steal_loop_total: "slots s \<noteq> [] \<Longrightarrow> \<exists>r. steal_loop is batch cnt (try_timer clock) s = Inr r"
proof (induction "is" arbitrary: s cnt)
  case (Cons i "is")
  obtain ok s' where s': "try_timer clock i s = Inr (ok, s')" "slots s' \<noteq> []"
    by (rule try_timer_total [OF Cons.prems])
  with Cons.IH [OF s'(2)] show ?case by simp
qed simp

lemma run_timeout_total: "slots s \<noteq> [] \<Longrightarrow> \<exists>r. run_timeout clock w batch s = Inr r"
  using own_loop_total [of s batch clock w] steal_loop_total
  by (fastforce simp: run_timeout_def batch_loop_def)

text \<open>If the clock has not reached the first timer of a slot, no timer of that slot is due.\<close>

lemma missed_slot_not_due:
  assumes "try_timer clock i s = Inr (False, s')" "timed_inv s" "mono clock" "r \<le> reads s"
    "t \<in> set (slots s' ! (i mod length (slots s)))"
  shows "clock r < timer_ex t"
  using assms(1)
proof (cases rule: try_timer_Inr)
  case (waiting p u q)
  have "pq_ok (slots s ! p)" using assms(2) waiting(3) by (auto simp: timed_inv_def)
  then have "timer_ex u \<le> timer_ex t" using waiting assms(5) by (auto simp: pq_ok_def)
  moreover have "clock r \<le> clock (reads s)" using assms(3,4) by (rule monoD)
  ultimately show ?thesis using waiting(5) by linarith
qed (use assms(5) in auto)

lemma missed_not_due:
  assumes "expiry.missed clock i s s'" "timed_inv s" "mono clock" "t \<in> set (slots s ! (i mod length (slots s)))"
  shows "clock (reads s) < timer_ex t"
proof -
  obtain s1 s2 where m: "only_reads s s1" "try_timer clock i s1 = Inr (False, s2)"
    using assms(1) by (auto simp: expiry.missed_def)
  have "timed_inv s1" using m(1) assms(2) by (auto simp: only_reads_def timed_inv_def pending_def)
  moreover have "slots s2 = slots s1" using m(2) by (cases rule: try_timer_Inr) auto
  ultimately show ?thesis
    using missed_slot_not_due [OF m(2) _ assms(3), of "reads s" t] only_readsD [OF m(1)] assms(4) by simp
qed

text \<open>The first loop ends short of the batch only when nothing that was due is left.\<close>

lemma own_loop_not_due:
  assumes "own_loop n (try_timer clock w) s = Inr (j, s1)" "j < n" "timed_inv s" "mono clock" "slots s \<noteq> []"
    "t \<in> set (slots s1 ! (w mod length (slots s)))"
  shows "clock (reads s) < timer_ex t"
  using assms
proof (induction n arbitrary: s j)
  case (Suc n)
  then obtain ok s2 where s2: "try_timer clock w s = Inr (ok, s2)"
    "(if ok then and_then (own_loop n (try_timer clock w) s2) (\<lambda>(k, s''). Inr (Suc k, s'')) else Inr (0, s2)) = Inr (j, s1)"
    by (auto simp: and_then_Inr)
  note sl = try_timer_slots [OF s2(1)]
  show ?case
  proof (cases ok)
    case True
    with s2(2) obtain k where k: "own_loop n (try_timer clock w) s2 = Inr (k, s1)" "j = Suc k"
      by (auto simp: and_then_Inr)
    have "slots s2 \<noteq> []" using sl Suc.prems(5) by auto
    with Suc.IH [OF k(1) _ try_timer_inv [OF Suc.prems(3) s2(1)] Suc.prems(4)] k(2) Suc.prems(2,6) sl
    have "clock (reads s2) < timer_ex t" by simp
    moreover have "clock (reads s) \<le> clock (reads s2)" using Suc.prems(4) sl by (auto dest: monoD)
    ultimately show ?thesis by linarith
  next
    case False
    with s2 missed_slot_not_due [of clock w s s1 "reads s" t] Suc.prems(3,4,6) show ?thesis by simp
  qed
qed simp

lemma run_timeout_result:
  assumes "timed_inv s" "mono clock" "slots s \<noteq> []" "batch > 0"
  shows "\<exists>cnt s'. run_timeout clock w batch s = Inr (cnt, s') \<and> cnt \<le> batch \<and> timed_inv s' \<and>
    (cnt < batch \<longrightarrow> (\<forall>t \<in> set (slots s' ! (w mod length (slots s))). clock (reads s) < timer_ex t)) \<and>
    (cnt = 0 \<longrightarrow> (\<forall>q \<in> set (slots s). \<forall>t \<in> set q. clock (reads s) < timer_ex t))"
proof -
  obtain cnt s' where r: "batch_loop (length (slots s)) batch w (try_timer clock) s = Inr (cnt, s')"
    using run_timeout_total [OF assms(3), of clock w batch] by (auto simp: run_timeout_def)
  let ?n = "length (slots s)" and ?p = "w mod length (slots s)"
  have own: "clock (reads s) < timer_ex t" if lt: "cnt < batch" and t: "t \<in> set (slots s' ! ?p)" for t
  proof -
    obtain j s1 where j: "own_loop batch (try_timer clock w) s = Inr (j, s1)" "j < batch"
      "steal_loop (map (\<lambda>i. w + i) [0..<?n]) batch j (try_timer clock) s1 = Inr (cnt, s')"
      using expiry.batch_short [OF r lt] by blast
    have "?p < ?n" using assms(3) by simp
    moreover have "timed_leq s s1" by (rule decrease.own_loop_leq [OF j(1)])
    moreover have "timed_leq s1 s'" by (rule decrease.steal_loop_leq [OF j(3)])
    ultimately have "set (slots s' ! ?p) \<subseteq> set (slots s1 ! ?p)" by (simp add: timed_leq_def)
    with t show ?thesis using own_loop_not_due [OF j(1,2) assms(1-3)] by blast
  qed
  have none: "clock (reads s) < timer_ex t" if c: "cnt = 0" and q: "q \<in> set (slots s)" "t \<in> set q" for q t
  proof -
    obtain p where p: "p < ?n" "slots s ! p = q" using q(1) by (auto simp: in_set_conv_nth)
    obtain i where i: "i < ?n" "(w + i) mod ?n = p" using rotate_index [OF p(1)] by blast
    from missed_not_due [OF _ assms(1,2), of "w + i" s' t] expiry.batch_none [OF r [unfolded c] assms(4) i(1)] p i q(2)
    show ?thesis by simp
  qed
  show ?thesis
    using r expiry.batch_le [OF r] expiry.batch_good [OF assms(1) r] own none by (auto simp: run_timeout_def)
qed

text \<open>
  C33: One call of \<open>run_timeout\<close> always returns in a context with partitions, fires at most a batch
  of timers, leaves no timer in the worker's own slot that was due when it started unless it
  has fired a full batch, and reports zero only if no timer of any slot was due.
\<close>

theorem run_timeout_correct:
  assumes "timed_inv s" "mono clock" "slots s \<noteq> []" "batch > 0"
  shows "\<exists>cnt s'. run_timeout clock w batch s = Inr (cnt, s') \<and> cnt \<le> batch \<and> timed_inv s' \<and>
    (cnt < batch \<longrightarrow> (\<forall>t \<in> set (slots s' ! (w mod length (slots s))). clock (reads s) < timer_ex t)) \<and>
    (cnt = 0 \<longrightarrow> (\<forall>q \<in> set (slots s). \<forall>t \<in> set q. clock (reads s) < timer_ex t))"
  by (rule run_timeout_result [OF assms])

text \<open>
  A context in which the timer of the first partition is not due and that of the second is.
\<close>

lemma timed_demo_inv: "timed_inv timed_demo"
  by (rule timed_reach_inv [OF timed_demo_reach])

theorem run_timeout_correct_witness:
  "\<exists>cnt s'. run_timeout int 0 3 timed_demo = Inr (cnt, s') \<and> cnt = 1 \<and>
     (\<forall>t \<in> set (slots s' ! 0). 2 < timer_ex t)"
proof -
  have m: "mono int" by (simp add: mono_def)
  obtain cnt s' where r: "run_timeout int 0 3 timed_demo = Inr (cnt, s')"
    "cnt < 3 \<longrightarrow> (\<forall>t \<in> set (slots s' ! (0 mod length (slots timed_demo))). int (reads timed_demo) < timer_ex t)"
    using run_timeout_correct [OF timed_demo_inv m, of 3 0] by (auto simp: timed_demo_eq)
  moreover from r(1) have "cnt = 1"
    by (simp add: run_timeout_def batch_loop_def timed_demo_eq numeral_3_eq_3 try_timer_def timer_slot_def
        timer_pop_def pq_top_def pq_pop_def Let_def upt_rec)
  ultimately show ?thesis by (simp add: timed_demo_eq)
qed

section \<open>Order, and the time of the next timer\<close>

text \<open>The first loop takes what the queue gives up at the successive readings of the clock.\<close>

lemma own_loop_take_due:
  "slots s \<noteq> [] \<Longrightarrow> p = w mod length (slots s) \<Longrightarrow>
     pq.take_due (map (\<lambda>k. clock (reads s + k)) [0..<n]) (slots s ! p) = (xs, q') \<Longrightarrow>
     \<exists>s'. own_loop n (try_timer clock w) s = Inr (length xs, s') \<and>
       map fst (fired s') = map fst (fired s) @ xs \<and> slots s' = (slots s)[p := q']"
proof (induction n arbitrary: s xs)
  case 0
  then have "xs = []" "q' = slots s ! p" by auto
  then show ?case by simp
next
  case (Suc n)
  have ts: "map (\<lambda>k. clock (reads s + k)) [0..<Suc n] =
      clock (reads s) # map (\<lambda>k. clock (Suc (reads s) + k)) [0..<n]"
    by (simp add: upt_conv_Cons map_Suc_upt [symmetric] del: upt_Suc)
  have slot: "timer_slot w s = Inr p" and lt: "p < length (slots s)" using Suc.prems(1,2) by (simp_all add: timer_slot_Inr)
  show ?case
  proof (cases "pq_top (slots s ! p)")
    case None
    with Suc.prems(3) ts slot show ?thesis by (auto simp: try_timer_def timer_pop_def)
  next
    case (Some t)
    show ?thesis
    proof (cases "clock (reads s) \<ge> timer_ex t")
      case True
      let ?s1 = "s\<lparr>reads := Suc (reads s), slots := (slots s)[p := pq_pop (slots s ! p)],
        fired := fired s @ [(t, clock (reads s))]\<rparr>"
      have try1: "try_timer clock w s = Inr (True, ?s1)"
        using slot Some True by (simp add: try_timer_def timer_pop_def Let_def)
      obtain ys where ys: "pq.take_due (map (\<lambda>k. clock (Suc (reads s) + k)) [0..<n]) (pq_pop (slots s ! p)) = (ys, q')"
        "xs = t # ys"
        using Suc.prems(3) Some True unfolding ts by (auto split: prod.splits)
      have "\<exists>s'. own_loop n (try_timer clock w) ?s1 = Inr (length ys, s') \<and>
          map fst (fired s') = map fst (fired ?s1) @ ys \<and> slots s' = (slots ?s1)[p := q']"
        by (rule Suc.IH) (use Suc.prems(1,2) lt ys(1) in simp_all)
      with try1 ys(2) show ?thesis by auto
    next
      case False
      with Suc.prems(3) Some ts slot show ?thesis by (auto simp: try_timer_def timer_pop_def Let_def)
    qed
  qed
qed

text \<open>
  C34: A worker fires the timers of its own slot in the order of their expiry: the first loop of
  \<open>run_timeout\<close> ends, what it fires and what stays in the slot are together what the slot held,
  the timers fired come in order of expiry, and none that stays expires before one that fired.
\<close>

theorem own_timers_fire_in_order:
  assumes "timed_inv s" "slots s \<noteq> []"
  shows "\<exists>xs s'. own_loop n (try_timer clock w) s = Inr (length xs, s') \<and>
    map fst (fired s') = map fst (fired s) @ xs \<and> sorted (map timer_ex xs) \<and>
    mset (slots s ! (w mod length (slots s))) = mset xs + mset (slots s' ! (w mod length (slots s))) \<and>
    (\<forall>t \<in> set xs. \<forall>u \<in> set (slots s' ! (w mod length (slots s))). timer_ex t \<le> timer_ex u)"
proof -
  let ?p = "w mod length (slots s)"
  have lt: "?p < length (slots s)" using assms(2) by simp
  then have ok: "pq_ok (slots s ! ?p)" using assms(1) by (auto simp: timed_inv_def)
  obtain xs q' where q: "pq.take_due (map (\<lambda>k. clock (reads s + k)) [0..<n]) (slots s ! ?p) = (xs, q')" by fastforce
  then obtain s' where "own_loop n (try_timer clock w) s = Inr (length xs, s')"
    "map fst (fired s') = map fst (fired s) @ xs" "slots s' = (slots s)[?p := q']"
    using own_loop_take_due [OF assms(2) refl q] by blast
  then show ?thesis using pq.take_due_mset [OF ok q] pq.take_due_sorted [OF ok q] lt by force
qed

theorem own_timers_fire_in_order_witness:
  "\<exists>xs s'. own_loop 3 (try_timer int 1) timed_demo = Inr (length xs, s') \<and> map fst (fired s') = xs \<and>
     sorted (map timer_ex xs)"
proof -
  have "slots timed_demo \<noteq> []" "fired timed_demo = []" by (simp_all add: timed_demo_eq)
  then show ?thesis using own_timers_fire_in_order [OF timed_demo_inv, of 3 int 1] by force
qed

text \<open>The time of the next timer of a slot, given the slot.\<close>

definition next_in :: "'f timer list \<Rightarrow> int" where
  "next_in q = (case pq_top q of None \<Rightarrow> time_max | Some t \<Rightarrow> timer_ex t)"

lemma next_schedule_time_slot:
  "slots s \<noteq> [] \<Longrightarrow> next_schedule_time w s = Inr (next_in (slots s ! (w mod length (slots s))))"
  by (simp add: next_schedule_time_def timer_slot_def next_in_def)

lemma next_in_le: "pq_ok q \<Longrightarrow> t \<in> set q \<Longrightarrow> next_in q \<le> timer_ex t"
  using pq.top_least [of q] pq.top_None [of q] by (fastforce simp: next_in_def split: option.split)

lemma next_in_push:
  assumes "pq_ok q" "timer_ex t < time_max"
  shows "next_in (pq_push t q) = min (timer_ex t) (next_in q)"
proof -
  have ok: "pq_ok (pq_push t q)" by (rule pq.ok_put [OF assms(1)])
  have el: "mset (pq_push t q) = add_mset t (mset q)" by (rule pq.elems_put [OF assms(1)])
  obtain u where u: "pq_top (pq_push t q) = Some u" using pq.top_None [OF ok] el by (cases "pq_top (pq_push t q)") auto
  have least: "u \<in> insert t (set q)" "\<forall>v \<in> insert t (set q). timer_ex u \<le> timer_ex v"
    using pq.top_least [OF ok u] unfolding el by auto
  show ?thesis
  proof (cases "pq_top q")
    case None
    then have "q = []" using pq.top_None [OF assms(1)] by simp
    with least u assms(2) show ?thesis by (simp add: next_in_def pq_top_def)
  next
    case (Some v)
    then have "v \<in> set q" "\<forall>x \<in> set q. timer_ex v \<le> timer_ex x" using pq.top_least [OF assms(1)] by auto
    with least u Some show ?thesis by (fastforce simp: next_in_def)
  qed
qed

text \<open>
  Creating a timer wakes the worker of its slot exactly when that worker would otherwise sleep too
  long: the next time of the slot becomes the least of the old one and the new expiry, and the
  slot's signal, if it has one, is emitted if and only if the next time has become earlier.
\<close>

theorem create_timeout_wakes_worker:
  assumes "timed_inv s" "create_timeout clock f ms s = Inr s'" "clock (reads s) + to_ns ms < time_max"
    and "p = next_id s mod length (slots s)"
    and "next_schedule_time p s = Inr old" "next_schedule_time p s' = Inr new"
  shows "new = min (clock (reads s) + to_ns ms) old \<and>
    emits s' = emits s @ (if has_signal s p \<and> new < old then [p] else [])"
  using assms(2)
proof (rule create_timeout_Inr)
  fix p'
  let ?t = "\<lparr>timer_id = next_id s, timer_fn = f, timer_ex = clock (reads s) + to_ns ms\<rparr>"
  assume lt: "p' < length (slots s)" and p': "p' = next_id s mod length (slots s)"
    and s': "s' = timer_push p' ?t (s\<lparr>next_id := Suc (next_id s), reads := Suc (reads s)\<rparr>)"
  have p: "p' = p" using p' assms(4) by simp
  have ne: "slots s \<noteq> []" "slots s' \<noteq> []" using lt by (auto simp: s' timer_push_fields)
  have len: "length (slots s') = length (slots s)" by (simp add: s' timer_push_fields)
  have q: "pq_ok (slots s ! p)" using assms(1) lt p by (auto simp: timed_inv_def)
  have old: "old = next_in (slots s ! p)" and new: "new = next_in (slots s' ! p)"
    using assms(5,6) next_schedule_time_slot [OF ne(1), of p] next_schedule_time_slot [OF ne(2), of p] lt p len by simp_all
  have at_p: "slots s' ! p = pq_push ?t (slots s ! p)" using lt p by (simp add: s' timer_push_fields)
  have least: "new = min (clock (reads s) + to_ns ms) old"
    unfolding old new at_p using next_in_push [OF q, of ?t] assms(3) by simp
  moreover have "(case pq_top (slots s ! p) of None \<Rightarrow> True | Some u \<Rightarrow> timer_ex ?t < timer_ex u) = (new < old)"
    unfolding least old using assms(3) by (auto simp: next_in_def split: option.split)
  ultimately show ?thesis using p by (simp add: s' timer_push_fields)
qed

theorem create_timeout_wakes_worker_witness:
  "\<exists>s'. create_timeout int ''sooner'' (1 / 1000000) (on_timeout 0 timed_demo) = Inr s' \<and>
     next_schedule_time 0 (on_timeout 0 timed_demo) = Inr 5000000 \<and> next_schedule_time 0 s' = Inr 3 \<and> emits s' = [0]"
proof -
  let ?s = "on_timeout 0 timed_demo"
  have inv: "timed_inv ?s" by (rule timed_reach_inv [OF timed_signal [OF timed_demo_reach]])
  have f: "slots ?s = slots timed_demo" "length (slots timed_demo) = 2" "reads ?s = 2" "next_id ?s = 2" "emits ?s = []" "has_signal ?s 0"
    by (simp_all add: on_timeout_def timed_demo_eq)
  obtain s' where s': "create_timeout int ''sooner'' (1 / 1000000) ?s = Inr s'"
    by (auto simp: create_timeout_def timer_slot_def Let_def on_timeout_def timed_demo_eq)
  have len: "length (slots s') = 2" using s' by (rule create_timeout_Inr) (simp add: timer_push_fields f)
  then obtain new where new: "next_schedule_time 0 s' = Inr new"
    using next_schedule_time_slot [of s' 0] by (cases "slots s'") auto
  have old: "next_schedule_time 0 ?s = Inr 5000000"
    by (simp add: on_timeout_def timed_demo_eq next_schedule_time_def timer_slot_def pq_top_def)
  have ns: "to_ns (1 / 1000000) = 1" by (simp add: to_ns_def)
  show ?thesis
    using create_timeout_wakes_worker [OF inv s' _ _ old new] s' old new f ns by (simp add: time_max_def)
qed

end
