(* ===== verification/Timeouts.thy ===== *)
theory Timeouts
  imports Timers ChannelSafety
begin

text \<open>
  \<open>timeout\<close> and \<open>sleep\<close> (\<open>src/core/timed.cpp\<close>): the two clients of \<open>TimedContext\<close>. A timer's
  callback either sends \<open>Nil\<close> to a channel without waiting, or releases the semaphore of a
  sleeping coroutine.
\<close>

section \<open>The callbacks\<close>

datatype callback = SendNil nat | ReleasePermit nat

text \<open>
  The timers, the world of the channels, and the heap of semaphores that \<open>sleep\<close> allocates,
  by their permits. Two ghost fields: the expiry each sleeper asked for, and the sleepers
  that have returned.
\<close>

record 'd clocked =
  timers :: "callback timed"
  channels :: "'d world"
  naps :: "nat list"
  asked :: "int list"
  woken :: "nat list"

definition timeout :: "(nat \<Rightarrow> int) \<Rightarrow> nat \<Rightarrow> rat \<Rightarrow> 'd clocked \<Rightarrow> timed_fault + 'd clocked" where
  "timeout clock c ms s =
     (let w = (channels s)\<lparr>chans := (chans (channels s))(c := new_chan 1)\<rparr>
      in and_then (create_timeout clock (SendNil c) ms (timers s)) (\<lambda>t. Inr (s\<lparr>timers := t, channels := w\<rparr>)))"

text \<open>\<open>sleep\<close> up to \<open>aquire\<close>, and the return from \<open>aquire\<close>, which needs a permit.\<close>

definition sleep_start :: "(nat \<Rightarrow> int) \<Rightarrow> rat \<Rightarrow> 'd clocked \<Rightarrow> timed_fault + 'd clocked" where
  "sleep_start clock ms s =
     and_then (create_timeout clock (ReleasePermit (length (naps s))) ms (timers s)) (\<lambda>t.
       Inr (s\<lparr>timers := t, naps := naps s @ [0], asked := asked s @ [clock (reads (timers s)) + to_ns ms]\<rparr>))"

definition sleep_return :: "nat \<Rightarrow> 'd clocked \<Rightarrow> 'd clocked option" where
  "sleep_return g s =
     (if g < length (naps s) \<and> naps s ! g > 0
      then Some (s\<lparr>naps := (naps s)[g := naps s ! g - 1], woken := woken s @ [g]\<rparr>) else None)"

text \<open>The call of a callback, with the message and the variable it puts on the stack.\<close>

definition run_callback :: "nat \<Rightarrow> nat \<Rightarrow> callback \<Rightarrow> ('d :: zero) clocked \<Rightarrow> 'd clocked" where
  "run_callback m x f s =
     (case f of
        SendNil c \<Rightarrow>
          let w = (channels s)\<lparr>mem := (mem (channels s))(x := 0)\<rparr>
          in s\<lparr>channels := snd (channel_nowait_send c m x w)\<rparr>
      | ReleasePermit g \<Rightarrow> s\<lparr>naps := (naps s)[g := Suc (naps s ! g)]\<rparr>)"

definition fire :: "(nat \<Rightarrow> int) \<Rightarrow> nat \<Rightarrow> nat \<Rightarrow> nat \<Rightarrow> ('d :: zero) clocked \<Rightarrow> timed_fault + (bool \<times> 'd clocked)" where
  "fire clock i m x s =
     and_then (try_timer clock i (timers s)) (\<lambda>(ok, t).
       Inr (ok, (if ok then run_callback m x (timer_fn (fst (last (fired t)))) (s\<lparr>timers := t\<rparr>) else s\<lparr>timers := t\<rparr>)))"

section \<open>The channel of a timeout\<close>

text \<open>A waiting receiver that still takes a value: plain, or a case of a select that has not fired.\<close>

definition live :: "'d world \<Rightarrow> nat \<Rightarrow> bool" where
  "live w m \<longleftrightarrow> (case msg w m of Simplex _ _ \<Rightarrow> True | Multiplex _ s _ \<Rightarrow> keys w s = INT_MIN)"

definition deliver_to :: "nat \<Rightarrow> 'd \<Rightarrow> 'd world \<Rightarrow> 'd world" where
  "deliver_to r v w = snd (recv_from_ptr r (Local v) w)"

lemma deliver_chans [simp]: "chans (deliver_to r v w) = chans w"
  by (simp add: deliver_to_def recv_from_ptr_def split: payload.splits)

lemma recv_live: "live w r \<Longrightarrow> recv_from_ptr r v w = (Ok, snd (recv_from_ptr r v w))"
  by (auto simp: live_def recv_from_ptr_def split: payload.splits)

lemma recv_dead: "\<not> live w r \<Longrightarrow> recv_from_ptr r v w = (InvalidSrc, w)"
  by (auto simp: live_def recv_from_ptr_def split: payload.splits)

lemma live_queue [simp]: "live (set_recvers c q w) = live w"
  by (auto simp: fun_eq_iff live_def set_recvers_def upd_chan_def split: payload.splits)

lemma set_recvers_same: "recvers (chans w c) = q \<Longrightarrow> set_recvers c q w = w"
  by (simp add: set_recvers_def upd_chan_def fun_upd_idem)

lemma set_recvers_twice [simp]: "set_recvers c q (set_recvers c q' w) = set_recvers c q w"
  by (simp add: set_recvers_def upd_chan_def)

text \<open>Draining skips the dead receivers and gives the front of the buffer to the first live one.\<close>

lemma drain_buffer_first_live:
  assumes "buffer (chans w c) = x # b" "recvers (chans w c) = q"
  shows "drain_buffer c q w =
    (case dropWhile (\<lambda>r. \<not> live w r) q of
       [] \<Rightarrow> set_recvers c [] w
     | r # rs \<Rightarrow> upd_chan c (\<lambda>ch. ch\<lparr>buffer := b\<rparr>) (deliver_to r x (set_recvers c rs w)))"
  using assms
proof (induction q arbitrary: w)
  case Nil
  then show ?case by (simp add: set_recvers_same)
next
  case (Cons r q)
  have buf: "buffer (chans (set_recvers c q w) c) = x # b" using Cons.prems(1) by (simp add: set_recvers_def)
  show ?case
  proof (cases "live w r")
    case True
    then have "recv_from_ptr r (Local x) (set_recvers c q w) = (Ok, deliver_to r x (set_recvers c q w))"
      using recv_live [of "set_recvers c q w" r] by (simp add: deliver_to_def)
    with True buf show ?thesis by (simp add: buffer_send_to_def upd_chan_def)
  next
    case False
    then have "buffer_send_to c r (set_recvers c q w) = (False, set_recvers c q w)"
      using buf recv_dead [of "set_recvers c q w" r "Local x"] by (simp add: buffer_send_to_def)
    moreover have "recvers (chans (set_recvers c q w) c) = q" by (simp add: set_recvers_def)
    ultimately show ?thesis using False Cons.IH [OF buf]
      by (cases "dropWhile (\<lambda>r. \<not> live w r) q") (simp_all del: dropWhile_eq_Nil_conv)
  qed
qed

text \<open>What the callback of \<open>timeout\<close> does to a channel that nobody else sends to.\<close>

definition delivered :: "nat \<Rightarrow> 'd \<Rightarrow> nat list \<Rightarrow> 'd world \<Rightarrow> 'd world" where
  "delivered c v q w =
    (case dropWhile (\<lambda>r. \<not> live w r) q of
       [] \<Rightarrow> upd_chan c (\<lambda>ch. ch\<lparr>buffer := [v], recvers := []\<rparr>) w
     | r # rs \<Rightarrow> deliver_to r v (set_recvers c rs w))"

lemma live_frame: "msg w' r = msg w r \<Longrightarrow> keys w' = keys w \<Longrightarrow> live w' r = live w r"
  by (simp add: live_def split: payload.split)

lemma deliver_upd_chan: "deliver_to r v (upd_chan c f w) = upd_chan c f (deliver_to r v w)"
  by (auto simp: deliver_to_def recv_from_ptr_def upd_chan_def msg_move.simps store_def commit_simplex_def commit_multiplex_def
      split: payload.splits option.splits)

lemma nowait_send_empty:
  assumes "capacity (chans w c) = 1" "buffer (chans w c) = []" "mem w x = v"
  shows "channel_nowait_send c m x w =
    (True, delivered c v (recvers (chans w c)) 
      (w\<lparr>msg := (msg w)(m := Simplex (Some x) None), msg_chan := (msg_chan w)(m := Some c), mem := (mem w)(x := moved_from w v)\<rparr>))"
proof -
  let ?q = "recvers (chans w c)"
  let ?start = "w\<lparr>msg := (msg w)(m := Simplex (Some x) None), msg_chan := (msg_chan w)(m := Some c)\<rparr>"
  let ?w = "?start\<lparr>mem := (mem w)(x := moved_from w v)\<rparr>"
  let ?w1 = "upd_chan c (\<lambda>ch. ch\<lparr>buffer := [v]\<rparr>) ?w"
  have b: "buffer_recv_from c m ?start = (True, ?w1)"
    using assms by (simp add: buffer_recv_from_def send_to_ptr_def msg_move.simps leave_def store_def commit_simplex_def upd_chan_def)
  moreover have "drain_buffer c ?q ?w1 =
    (case dropWhile (\<lambda>r. \<not> live ?w1 r) ?q of
       [] \<Rightarrow> set_recvers c [] ?w1
     | r # rs \<Rightarrow> upd_chan c (\<lambda>ch. ch\<lparr>buffer := []\<rparr>) (deliver_to r v (set_recvers c rs ?w1)))"
    by (rule drain_buffer_first_live) simp_all
  moreover have "live ?w1 = live ?w" by (rule ext) (rule live_frame, simp_all)
  moreover have "upd_chan c (\<lambda>ch. ch\<lparr>buffer := []\<rparr>) (deliver_to r v (set_recvers c rs ?w1)) =
      deliver_to r v (set_recvers c rs ?w)" for r rs
  proof -
    have "upd_chan c (\<lambda>ch. ch\<lparr>buffer := []\<rparr>) (set_recvers c rs ?w1) = set_recvers c rs ?w"
      using assms(2) by (cases "chans w c") (simp add: set_recvers_def upd_chan_def)
    then show ?thesis by (simp only: deliver_upd_chan [symmetric])
  qed
  moreover have "set_recvers c [] ?w1 = upd_chan c (\<lambda>ch. ch\<lparr>buffer := [v], recvers := []\<rparr>) ?w"
    by (simp add: set_recvers_def upd_chan_def)
  ultimately have "drain_buffer c ?q ?w1 = delivered c v ?q ?w"
    by (cases "dropWhile (\<lambda>r. \<not> live ?w r) ?q") (simp_all add: delivered_def del: dropWhile_eq_Nil_conv)
  moreover have "chan_recv_from c m True (new_msg m (Simplex (Some x) None) w) = (Inr CReady, drain_buffer c ?q ?w1)"
    using b by (simp add: chan_recv_from_def new_msg_def Let_def)
  ultimately show ?thesis by (simp add: channel_nowait_send_def Let_def)
qed

text \<open>
  The channel that \<open>timeout\<close> returns always gets its \<open>Nil\<close>, as long as nobody else sends to it:
  with an empty buffer of capacity one the callback's send succeeds without waiting, whoever
  waits to receive; it passes over the selects that have fired, the first receiver still
  live gets the value and its commit, and if there is none the value stays in the buffer.
\<close>

theorem timeout_callback_delivers:
  assumes "capacity (chans (channels s) c) = 1" "buffer (chans (channels s) c) = []"
  shows "channels (run_callback m x (SendNil c) s) =
    delivered c 0 (recvers (chans (channels s) c))
      ((channels s)\<lparr>msg := (msg (channels s))(m := Simplex (Some x) None), msg_chan := (msg_chan (channels s))(m := Some c),
         mem := (mem (channels s))(x := moved_from (channels s) 0)\<rparr>)"
  using nowait_send_empty [of "(channels s)\<lparr>mem := (mem (channels s))(x := 0)\<rparr>" c x 0 m] assms
  by (simp add: run_callback_def Let_def)

text \<open>
  Channel 7 of a timeout, waited on by a case of the select 30, which has fired, and by a
  plain receiver.
\<close>

definition timeout_demo :: "nat clocked" where
  "timeout_demo = \<lparr>timers = timed_init 1,
     channels = \<lparr>mem = (\<lambda>_. 5), msg = (\<lambda>m. if m = 1 then Multiplex None 30 2 else Simplex (Some 4) (Some 20)),
       msg_chan = (\<lambda>_. Some 7), sems = (\<lambda>_. 0), keys = (\<lambda>_. 3), signals = (\<lambda>_. 1),
       chans = (\<lambda>_. (new_chan 1)\<lparr>recvers := [1, 2]\<rparr>), moved_from = id\<rparr>,
     naps = [], asked = [], woken = []\<rparr>"

theorem timeout_callback_delivers_witness:
  "let w = channels (run_callback 3 6 (SendNil 7) timeout_demo)
   in mem w 4 = 0 \<and> sems w 20 = 1 \<and> recvers (chans w 7) = [] \<and> buffer (chans w 7) = []"
proof -
  have "channels (run_callback 3 6 (SendNil 7) timeout_demo) =
    delivered 7 0 [1, 2] ((channels timeout_demo)\<lparr>msg := (msg (channels timeout_demo))(3 := Simplex (Some 6) None),
      msg_chan := (msg_chan (channels timeout_demo))(3 := Some 7),
      mem := (mem (channels timeout_demo))(6 := moved_from (channels timeout_demo) 0)\<rparr>)"
    using timeout_callback_delivers [of timeout_demo 7 3 6] by (simp add: timeout_demo_def new_chan_def)
  then show ?thesis
    by (simp add: delivered_def live_def timeout_demo_def new_chan_def deliver_to_def recv_from_ptr_def commit_simplex_def
        msg_move.simps store_def set_recvers_def upd_chan_def Let_def)
qed

section \<open>Sleeping\<close>

text \<open>Any number of workers and coroutines; the channels may change in any way in between.\<close>

inductive clock_reach :: "(nat \<Rightarrow> int) \<Rightarrow> nat \<Rightarrow> ('d :: zero) clocked \<Rightarrow> bool" for clock n where
  clock_init: "clock_reach clock n \<lparr>timers = timed_init n, channels = w, naps = [], asked = [], woken = []\<rparr>"
| clock_timeout: "clock_reach clock n s \<Longrightarrow> timeout clock c ms s = Inr t \<Longrightarrow> clock_reach clock n t"
| clock_sleep: "clock_reach clock n s \<Longrightarrow> sleep_start clock ms s = Inr t \<Longrightarrow> clock_reach clock n t"
| clock_return: "clock_reach clock n s \<Longrightarrow> sleep_return g s = Some t \<Longrightarrow> clock_reach clock n t"
| clock_fire: "clock_reach clock n s \<Longrightarrow> fire clock i m x s = Inr (ok, t) \<Longrightarrow> clock_reach clock n t"
| clock_others: "clock_reach clock n s \<Longrightarrow> clock_reach clock n (s\<lparr>channels := w\<rparr>)"

text \<open>All timers ever created, and how many of some of them would wake a sleeper.\<close>

definition all_timers :: "'f timed \<Rightarrow> 'f timer multiset" where
  "all_timers t = pending t + mset (map fst (fired t))"

definition wakers :: "nat \<Rightarrow> callback timer multiset \<Rightarrow> nat" where
  "wakers g M = size {#t \<in># M. timer_fn t = ReleasePermit g#}"

definition sleep_inv :: "'d clocked \<Rightarrow> bool" where
  "sleep_inv s \<longleftrightarrow> timed_inv (timers s) \<and> length (asked s) = length (naps s) \<and>
     (\<forall>g < length (naps s). wakers g (all_timers (timers s)) = 1 \<and>
        naps s ! g + count_list (woken s) g = wakers g (mset (map fst (fired (timers s))))) \<and>
     (\<forall>g \<ge> length (naps s). wakers g (all_timers (timers s)) = 0 \<and> g \<notin> set (woken s)) \<and>
     (\<forall>t \<in># all_timers (timers s). \<forall>g. timer_fn t = ReleasePermit g \<longrightarrow> timer_ex t = asked s ! g)"

lemma wakers_simps [simp]:
  "wakers g {#} = 0" "wakers g (M + N) = wakers g M + wakers g N"
  "wakers g (add_mset t M) = wakers g M + (if timer_fn t = ReleasePermit g then 1 else 0)"
  by (simp_all add: wakers_def)

lemma wakers_pos: "wakers g (mset ts) > 0 \<longleftrightarrow> (\<exists>t \<in> set ts. timer_fn t = ReleasePermit g)"
  by (induction ts) auto

lemma create_timeout_all:
  assumes "create_timeout clock f ms s = Inr s'"
  shows "all_timers s' = add_mset \<lparr>timer_id = next_id s, timer_fn = f, timer_ex = clock (reads s) + to_ns ms\<rparr> (all_timers s) \<and>
    fired s' = fired s"
  using assms
proof (rule create_timeout_Inr)
  fix p
  let ?t = "\<lparr>timer_id = next_id s, timer_fn = f, timer_ex = clock (reads s) + to_ns ms\<rparr>"
  assume p: "p < length (slots s)" and s': "s' = timer_push p ?t (s\<lparr>next_id := Suc (next_id s), reads := Suc (reads s)\<rparr>)"
  show ?thesis
    using mset_concat_update [OF p, of "pq_push ?t (slots s ! p)"]
    by (simp add: all_timers_def pending_def s' timer_push_fields pq_push_def)
qed

lemma try_timer_all:
  assumes "try_timer clock i s = Inr (ok, s')"
  shows "all_timers s' = all_timers s \<and> (if ok then \<exists>r. fired s' = fired s @ [r] else fired s' = fired s)"
  using assms
proof (cases rule: try_timer_Inr)
  case (due p t q)
  then show ?thesis using mset_concat_update [OF due(3), of q] by (simp add: all_timers_def pending_def)
qed (auto simp: all_timers_def pending_def)

lemma sleep_inv_start:
  assumes "sleep_inv s" "sleep_start clock ms s = Inr t"
  shows "sleep_inv t"
proof -
  let ?g = "length (naps s)" and ?ex = "clock (reads (timers s)) + to_ns ms"
  obtain tm where tm: "create_timeout clock (ReleasePermit ?g) ms (timers s) = Inr tm"
    "t = s\<lparr>timers := tm, naps := naps s @ [0], asked := asked s @ [?ex]\<rparr>"
    using assms(2) by (auto simp: sleep_start_def and_then_Inr)
  note all = create_timeout_all [OF tm(1)]
  have "timed_inv tm" using create_timeout_inv [OF _ tm(1)] assms(1) by (simp add: sleep_inv_def)
  moreover have "wakers ?g (mset (map fst (fired (timers s)))) = 0"
    using assms(1) by (auto simp: sleep_inv_def all_timers_def)
  moreover have "\<And>u g. u \<in># all_timers (timers s) \<Longrightarrow> timer_fn u = ReleasePermit g \<Longrightarrow> g < ?g"
    using assms(1) by (fastforce simp: sleep_inv_def wakers_def not_less [symmetric])
  ultimately show ?thesis using assms(1) all unfolding tm(2) sleep_inv_def
    by (auto simp: nth_append less_Suc_eq count_list_0_iff)
qed

lemma sleep_inv_return:
  assumes "sleep_inv s" "sleep_return g s = Some t"
  shows "sleep_inv t"
proof -
  have g: "g < length (naps s)" "naps s ! g > 0" "t = s\<lparr>naps := (naps s)[g := naps s ! g - 1], woken := woken s @ [g]\<rparr>"
    using assms(2) by (auto simp: sleep_return_def split: if_splits)
  have "naps t ! h + count_list (woken t) h = naps s ! h + count_list (woken s) h" if "h < length (naps s)" for h
    using g by (cases "g = h") simp_all
  with assms(1) g show ?thesis unfolding sleep_inv_def by auto
qed

lemma sleep_inv_timeout:
  assumes "sleep_inv s" "timeout clock c ms s = Inr t"
  shows "sleep_inv t"
proof -
  obtain tm w where tm: "create_timeout clock (SendNil c) ms (timers s) = Inr tm" "t = s\<lparr>timers := tm, channels := w\<rparr>"
    using assms(2) by (auto simp: timeout_def and_then_Inr Let_def)
  have "timed_inv tm" using create_timeout_inv [OF _ tm(1)] assms(1) by (simp add: sleep_inv_def)
  with assms(1) create_timeout_all [OF tm(1)] show ?thesis unfolding tm(2) sleep_inv_def by auto
qed

lemma sleep_inv_fire:
  assumes "sleep_inv s" "fire clock i m x s = Inr (ok, t)"
  shows "sleep_inv t"
proof -
  obtain tm where tm: "try_timer clock i (timers s) = Inr (ok, tm)"
    "t = (if ok then run_callback m x (timer_fn (fst (last (fired tm)))) (s\<lparr>timers := tm\<rparr>) else s\<lparr>timers := tm\<rparr>)"
    using assms(2) by (auto simp: fire_def and_then_Inr)
  have inv: "timed_inv tm" using try_timer_inv [OF _ tm(1)] assms(1) by (simp add: sleep_inv_def)
  note all = try_timer_all [OF tm(1)]
  show ?thesis
  proof (cases ok)
    case False
    with assms(1) tm(2) all inv show ?thesis by (simp add: sleep_inv_def)
  next
    case True
    then obtain u now where u: "fired tm = fired (timers s) @ [(u, now)]" using all by auto
    have t: "t = run_callback m x (timer_fn u) (s\<lparr>timers := tm\<rparr>)" using tm(2) True u by simp
    show ?thesis
    proof (cases "timer_fn u")
      case (SendNil c)
      with assms(1) all inv u show ?thesis
        unfolding t sleep_inv_def by (auto simp: run_callback_def Let_def)
    next
      case (ReleasePermit g)
      have "u \<in># all_timers tm" using u by (simp add: all_timers_def)
      then have "u \<in># all_timers (timers s)" using all by simp
      then have "wakers g (all_timers (timers s)) \<noteq> 0"
        using ReleasePermit by (auto simp: wakers_def filter_mset_eq_conv)
      then have g: "g < length (naps s)" using assms(1) by (auto simp: sleep_inv_def not_less [symmetric])
      with assms(1) all inv u ReleasePermit show ?thesis
        unfolding t sleep_inv_def by (auto simp: run_callback_def nth_list_update)
    qed
  qed
qed

lemma clock_reach_inv: "clock_reach clock n s \<Longrightarrow> sleep_inv s"
proof (induction rule: clock_reach.induct)
  case (clock_init w)
  have "timed_inv (timed_init n :: callback timed)" by (rule timed_reach_inv [OF timed_start])
  then show ?case by (simp add: sleep_inv_def all_timers_def pending_def timed_init_def)
next
  case (clock_timeout s c ms t)
  show ?case by (rule sleep_inv_timeout [OF clock_timeout.IH clock_timeout.hyps(2)])
next
  case (clock_sleep s ms t)
  show ?case by (rule sleep_inv_start [OF clock_sleep.IH clock_sleep.hyps(2)])
next
  case (clock_return s g t)
  show ?case by (rule sleep_inv_return [OF clock_return.IH clock_return.hyps(2)])
next
  case (clock_fire s i m x ok t)
  show ?case by (rule sleep_inv_fire [OF clock_fire.IH clock_fire.hyps(2)])
next
  case (clock_others s w)
  then show ?case by (simp add: sleep_inv_def)
qed

text \<open>
  C35: A coroutine that sleeps wakes up once, and not before its time: in every reachable state each
  sleeper has exactly one timer, pending or fired; it has returned at most once; it has a
  permit or has returned exactly if that timer has fired, and then the clock was read at or
  after the expiry the sleeper asked for.
\<close>

theorem sleeper_wakes_once_not_early:
  assumes "clock_reach clock n s" "g < length (naps s)"
  shows "count_list (woken s) g \<le> 1 \<and>
    (naps s ! g > 0 \<or> g \<in> set (woken s) \<longleftrightarrow>
      (\<exists>(t, now) \<in> set (fired (timers s)). timer_fn t = ReleasePermit g \<and> timer_ex t = asked s ! g \<and> asked s ! g \<le> now)) \<and>
    wakers g (all_timers (timers s)) = 1"
proof -
  have inv: "sleep_inv s" by (rule clock_reach_inv [OF assms(1)])
  then have one: "wakers g (all_timers (timers s)) = 1"
    and sum: "naps s ! g + count_list (woken s) g = wakers g (mset (map fst (fired (timers s))))"
    using assms(2) by (simp_all add: sleep_inv_def)
  have late: "timer_ex t = asked s ! g \<and> asked s ! g \<le> now"
    if "(t, now) \<in> set (fired (timers s))" "timer_fn t = ReleasePermit g" for t now
  proof -
    have "t \<in># all_timers (timers s)" using that(1) by (force simp: all_timers_def)
    then have "timer_ex t = asked s ! g" using inv that(2) by (simp add: sleep_inv_def)
    moreover have "timer_ex t \<le> now" using inv that(1) by (auto simp: sleep_inv_def timed_inv_def)
    ultimately show ?thesis by simp
  qed
  have le: "wakers g (mset (map fst (fired (timers s)))) \<le> 1"
    using one by (simp add: all_timers_def)
  have "wakers g (mset (map fst (fired (timers s)))) > 0 \<longleftrightarrow>
      (\<exists>(t, now) \<in> set (fired (timers s)). timer_fn t = ReleasePermit g)"
    unfolding wakers_pos by force
  also have "\<dots> \<longleftrightarrow> (\<exists>(t, now) \<in> set (fired (timers s)). timer_fn t = ReleasePermit g \<and>
      timer_ex t = asked s ! g \<and> asked s ! g \<le> now)"
    using late by blast
  finally show ?thesis using sum le one count_list_0_iff [of "woken s" g] by auto
qed

text \<open>One sleeper, whose timer has fired.\<close>

definition nap_start :: "nat clocked" where
  "nap_start = \<lparr>timers = timed_init 1, channels = channels timeout_demo, naps = [], asked = [], woken = []\<rparr>"

definition nap_demo :: "nat clocked" where
  "nap_demo = nap_start\<lparr>timers := \<lparr>next_id = 1, slots = [[\<lparr>timer_id = 0, timer_fn = ReleasePermit 0, timer_ex = 0\<rparr>]],
     has_signal = (\<lambda>_. False), reads = 1, fired = [], emits = []\<rparr>, naps := [0], asked := [0]\<rparr>"

lemma nap_demo_start: "sleep_start int 0 nap_start = Inr nap_demo"
  by (simp add: nap_start_def nap_demo_def sleep_start_def create_timeout_def timer_slot_def timed_init_def timer_push_def
      pq_top_def pq_push_def Let_def to_ns_def)

theorem sleeper_wakes_once_not_early_witness:
  "\<exists>t u. fire int 0 3 6 nap_demo = Inr (True, t) \<and> sleep_return 0 t = Some u \<and> woken u = [0] \<and>
     (\<exists>(x, now) \<in> set (fired (timers u)). timer_fn x = ReleasePermit 0 \<and> asked u ! 0 \<le> now)"
proof -
  obtain t where t: "fire int 0 3 6 nap_demo = Inr (True, t)" "naps t = [1]" "woken t = []"
    by (simp add: fire_def nap_demo_def nap_start_def try_timer_def timer_slot_def timer_pop_def pq_top_def pq_pop_def
        Let_def run_callback_def)
  obtain u where u: "sleep_return 0 t = Some u" "woken u = [0]" "naps u = [0]"
    using t(2,3) by (simp add: sleep_return_def)
  have "clock_reach int 1 nap_start" unfolding nap_start_def by (rule clock_init)
  from clock_return [OF clock_fire [OF clock_sleep [OF this nap_demo_start] t(1)] u(1)]
  have "clock_reach int 1 u" .
  from sleeper_wakes_once_not_early [OF this, of 0] u(2,3)
  have "\<exists>(x, now) \<in> set (fired (timers u)). timer_fn x = ReleasePermit 0 \<and> timer_ex x = asked u ! 0 \<and> asked u ! 0 \<le> now"
    by simp
  with t u show ?thesis by fast
qed

end
