(* ===== verification/Events.thy ===== *)
theory Events
  imports Prelude
begin

text \<open>
  Events (\<open>src/include/core/event.h\<close>, \<open>src/core/event.cpp\<close>): the event bits and their Linux
  encoding, the handler of one partition with its two maps, the context of all partitions,
  and the signal that wakes a worker through an \<open>eventfd\<close>. What the kernel answers is an
  argument: the success of \<open>epoll_ctl\<close>, the events of \<open>epoll_wait\<close>.
\<close>

unbundle bit_operations_syntax

section \<open>Event bits\<close>

type_synonym event = size_t

definition ev_in :: event where "ev_in = 0x1"
definition ev_out :: event where "ev_out = 0x2"
definition ev_err :: event where "ev_err = 0x4"
definition ev_oneshot :: event where "ev_oneshot = 0x8"

text \<open>The constants of \<open><sys/epoll.h>\<close>.\<close>

definition EPOLLIN :: size_t where "EPOLLIN = 0x1"
definition EPOLLOUT :: size_t where "EPOLLOUT = 0x4"
definition EPOLLERR :: size_t where "EPOLLERR = 0x8"
definition EPOLLHUP :: size_t where "EPOLLHUP = 0x10"
definition EPOLLONESHOT :: size_t where "EPOLLONESHOT = 0x40000000"
definition EPOLLET :: size_t where "EPOLLET = 0x80000000"

lemmas event_consts = ev_in_def ev_out_def ev_err_def ev_oneshot_def
  EPOLLIN_def EPOLLOUT_def EPOLLERR_def EPOLLHUP_def EPOLLONESHOT_def EPOLLET_def

definition add_flag :: "bool \<Rightarrow> size_t \<Rightarrow> size_t \<Rightarrow> size_t" where
  "add_flag c b x = (if c then x OR b else x)"

definition from_linux :: "size_t \<Rightarrow> event" where
  "from_linux e =
     add_flag (e AND EPOLLONESHOT \<noteq> 0) ev_oneshot
       (add_flag (e AND EPOLLERR \<noteq> 0 \<or> e AND EPOLLHUP \<noteq> 0) ev_err
         (add_flag (e AND EPOLLOUT \<noteq> 0) ev_out
           (add_flag (e AND EPOLLIN \<noteq> 0) ev_in 0)))"

definition to_linux :: "event \<Rightarrow> size_t" where
  "to_linux e =
     add_flag (e AND ev_oneshot \<noteq> 0) EPOLLONESHOT
       (add_flag (e AND ev_err \<noteq> 0) EPOLLERR
         (add_flag (e AND ev_out \<noteq> 0) EPOLLOUT
           (add_flag (e AND ev_in \<noteq> 0) EPOLLIN 0)))"

text \<open>Testing one flag is testing one bit.\<close>

lemma and_flag: "(e :: size_t) AND push_bit n 1 \<noteq> 0 \<longleftrightarrow> bit e n"
  by (simp add: bit_iff_and_push_bit_not_eq_0)

lemma flag_bits:
  "ev_in = push_bit 0 1" "ev_out = push_bit 1 1" "ev_err = push_bit 2 1" "ev_oneshot = push_bit 3 1"
  "EPOLLIN = push_bit 0 1" "EPOLLOUT = push_bit 2 1" "EPOLLERR = push_bit 3 1" "EPOLLHUP = push_bit 4 1"
  "EPOLLONESHOT = push_bit 30 1" "EPOLLET = push_bit 31 1"
  by (simp_all add: event_consts push_bit_eq_mult)

lemma bit_add_flag: "bit (add_flag c (push_bit n 1) x) k \<longleftrightarrow> bit x k \<or> (c \<and> k = n \<and> n < 64)"
  by (auto simp: add_flag_def bit_or_iff bit_push_bit_iff bit_1_iff simp del: push_bit_of_1)

lemma bit_flags:
  "bit ev_in k \<longleftrightarrow> k = 0" "bit ev_out k \<longleftrightarrow> k = 1" "bit ev_err k \<longleftrightarrow> k = 2" "bit ev_oneshot k \<longleftrightarrow> k = 3"
  "bit EPOLLET k \<longleftrightarrow> k = 31"
  unfolding flag_bits bit_push_bit_iff bit_1_iff by auto

lemma bit_from_linux:
  "bit (from_linux e) k \<longleftrightarrow> (k = 0 \<and> bit e 0) \<or> (k = 1 \<and> bit e 2) \<or> (k = 2 \<and> (bit e 3 \<or> bit e 4)) \<or> (k = 3 \<and> bit e 30)"
  unfolding from_linux_def flag_bits and_flag bit_add_flag by auto

lemma bit_to_linux:
  "bit (to_linux e) k \<longleftrightarrow> (k = 0 \<and> bit e 0) \<or> (k = 2 \<and> bit e 1) \<or> (k = 3 \<and> bit e 2) \<or> (k = 30 \<and> bit e 3)"
  unfolding to_linux_def flag_bits and_flag bit_add_flag by auto

lemma bit_15: "bit (15 :: size_t) k \<longleftrightarrow> k = 0 \<or> k = 1 \<or> k = 2 \<or> k = 3"
proof -
  have "(15 :: size_t) = mask 4" by (simp add: mask_eq_exp_minus_1)
  then have "bit (15 :: size_t) k \<longleftrightarrow> bit (mask 4 :: size_t) k" by simp
  moreover have "k < 4 \<longleftrightarrow> k = 0 \<or> k = 1 \<or> k = 2 \<or> k = 3" by auto
  ultimately show ?thesis by (auto simp: bit_mask_iff)
qed

text \<open>
  C38: The Linux encoding of events loses nothing: decoding an encoded event gives back its four flags,
  encoding keeps the edge-triggered flag free for the caller to add, and a hang-up is
  reported to the program as an error.
\<close>

theorem event_round_trip:
  "from_linux (to_linux e OR EPOLLET) = e AND 15 \<and> to_linux e AND EPOLLET = 0 \<and>
   (x AND EPOLLERR \<noteq> 0 \<or> x AND EPOLLHUP \<noteq> 0 \<longrightarrow> from_linux x AND ev_err \<noteq> 0)"
proof (intro conjI impI)
  show "from_linux (to_linux e OR EPOLLET) = e AND 15"
    by (rule bit_eqI, unfold bit_from_linux bit_or_iff bit_and_iff bit_to_linux bit_15 bit_flags) auto
  show "to_linux e AND EPOLLET = 0"
    by (rule bit_eqI) (auto simp: bit_and_iff bit_to_linux bit_flags)
  assume "x AND EPOLLERR \<noteq> 0 \<or> x AND EPOLLHUP \<noteq> 0"
  then show "from_linux x AND ev_err \<noteq> 0"
    unfolding flag_bits and_flag bit_from_linux by simp
qed

theorem event_round_trip_witness: "from_linux 0x10 AND ev_err \<noteq> 0"
proof -
  have "(0x10 :: size_t) AND EPOLLHUP \<noteq> 0" by (simp add: EPOLLHUP_def)
  then show ?thesis using event_round_trip [of 0 "0x10"] by simp
qed

section \<open>The handler of a partition\<close>

text \<open>
  \<open>EventContext::Task\<close>, and \<open>Handler\<close> with its two maps and the counter of task ids, a
  32-bit \<open>int\<close>. An \<open>unordered_map\<close> adds the default value for a key that \<open>operator[]\<close> does
  not find.
\<close>

record 'f etask =
  task_fd :: int32
  task_on :: event
  task_fn :: 'f

record 'f handler =
  tid_calls :: "int32 \<rightharpoonup> 'f etask"
  fd_tids :: "int32 \<rightharpoonup> int32"
  gid :: int32

definition new_handler :: "'f handler" where
  "new_handler = \<lparr>tid_calls = Map.empty, fd_tids = Map.empty, gid = 0\<rparr>"

definition read_default :: "'k \<Rightarrow> ('k \<rightharpoonup> 'v :: zero) \<Rightarrow> 'v" where
  "read_default k m = (case m k of None \<Rightarrow> 0 | Some v \<Rightarrow> v)"

text \<open>
  What \<open>epoll_ctl\<close> is asked to do: with the events and the 64 bits of user data. Its answer
  is the argument \<open>ok\<close>; an operation that throws has changed the maps before.
\<close>

datatype ctl = CtlAdd int32 size_t size_t | CtlMod int32 size_t size_t | CtlDel int32

definition ctl_error :: "string \<Rightarrow> string" where
  "ctl_error op = ''epoll_ctl '' @ op @ '' failed''"

definition tid_data :: "int32 \<Rightarrow> size_t" where
  "tid_data t = scast t"

definition data_tid :: "size_t \<Rightarrow> int32" where
  "data_tid d = ucast d"

definition handler_add ::
    "(ctl \<Rightarrow> bool) \<Rightarrow> int32 \<Rightarrow> event \<Rightarrow> 'f \<Rightarrow> 'f handler \<Rightarrow> (string + unit) \<times> 'f handler" where
  "handler_add ok fd on f h =
     (let tid = gid h;
          h' = \<lparr>tid_calls = (tid_calls h)(tid \<mapsto> \<lparr>task_fd = fd, task_on = on, task_fn = f\<rparr>),
                fd_tids = (fd_tids h)(fd \<mapsto> tid), gid = gid h + 1\<rparr>
      in (if ok (CtlAdd fd (to_linux on OR EPOLLET) (tid_data tid)) then Inr () else Inl (ctl_error ''add''), h'))"

definition handler_mod ::
    "(ctl \<Rightarrow> bool) \<Rightarrow> int32 \<Rightarrow> event \<Rightarrow> 'f \<Rightarrow> 'f handler \<Rightarrow> (string + unit) \<times> 'f handler" where
  "handler_mod ok fd on f h =
     (let tid = gid h;
          calls = (tid_calls h)(tid \<mapsto> \<lparr>task_fd = fd, task_on = on, task_fn = f\<rparr>);
          h' = \<lparr>tid_calls = calls(read_default fd (fd_tids h) := None),
                fd_tids = (fd_tids h)(fd \<mapsto> tid), gid = gid h + 1\<rparr>
      in (if ok (CtlMod fd (to_linux on OR EPOLLET) (tid_data tid)) then Inr () else Inl (ctl_error ''mod''), h'))"

definition handler_del :: "int32 \<Rightarrow> 'f handler \<Rightarrow> 'f handler" where
  "handler_del fd h =
     h\<lparr>tid_calls := (tid_calls h)(read_default fd (fd_tids h) := None), fd_tids := (fd_tids h)(fd := None)\<rparr>"

text \<open>One turn of the loop of \<open>handle\<close>: which function is called, with which event.\<close>

definition dispatch :: "size_t \<times> size_t \<Rightarrow> 'f handler \<Rightarrow> ('f \<times> event) option" where
  "dispatch e h =
     (let tid = data_tid (snd e); ev = from_linux (fst e)
      in case tid_calls h tid of
           None \<Rightarrow> None
         | Some t \<Rightarrow> if task_on t AND ev \<noteq> 0 then Some (task_fn t, ev) else None)"

text \<open>\<open>handle\<close> on what \<open>epoll_wait\<close> has answered: a failure, or at most a batch of events.\<close>

definition handle :: "nat \<Rightarrow> (size_t \<times> size_t) list option \<Rightarrow> 'f handler \<Rightarrow> nat \<times> ('f \<times> event) list" where
  "handle batch es h =
     (case es of
        None \<Rightarrow> (0, [])
      | Some xs \<Rightarrow> (length (take batch xs), List.map_filter (\<lambda>e. dispatch e h) (take batch xs)))"

text \<open>The user data carries the task id unchanged, whatever its sign.\<close>

lemma data_tid [simp]: "data_tid (tid_data t) = t"
proof (rule bit_word_eqI)
  fix n :: nat
  assume n: "n < LENGTH(32)"
  then have "min 31 n = n" by simp
  with n show "bit (data_tid (tid_data t)) n = bit t n" by (simp add: data_tid_def tid_data_def bit_simps)
qed

section \<open>Registrations\<close>

text \<open>
  What a handler promises: tasks are numbered in the order they are given, and each
  descriptor has at most one current task, that of its last \<open>add\<close> or \<open>mod\<close>, until \<open>del\<close>.
  The kernel reports an event with the number of the task it was armed with.
\<close>

datatype 'f handler_op = AddOp int32 event 'f | ModOp int32 event 'f | DelOp int32

record 'f registry =
  given :: "'f etask list"
  current :: "int32 \<rightharpoonup> nat"

definition register :: "'f etask \<Rightarrow> 'f registry \<Rightarrow> 'f registry" where
  "register e r = \<lparr>given = given r @ [e], current = (current r)(task_fd e \<mapsto> length (given r))\<rparr>"

definition spec_op :: "'f handler_op \<Rightarrow> 'f registry \<Rightarrow> 'f registry" where
  "spec_op p r =
     (case p of
        AddOp fd on f \<Rightarrow> register \<lparr>task_fd = fd, task_on = on, task_fn = f\<rparr> r
      | ModOp fd on f \<Rightarrow> register \<lparr>task_fd = fd, task_on = on, task_fn = f\<rparr> r
      | DelOp fd \<Rightarrow> r\<lparr>current := (current r)(fd := None)\<rparr>)"

definition spec_event :: "size_t \<Rightarrow> nat \<Rightarrow> 'f registry \<Rightarrow> ('f \<times> event) option" where
  "spec_event evs k r =
     (let e = given r ! k
      in if current r (task_fd e) = Some k \<and> task_on e AND from_linux evs \<noteq> 0
         then Some (task_fn e, from_linux evs) else None)"

text \<open>
  The discipline of \<open>epoll\<close>: only descriptors that are not registered are added, and only
  those that are registered are changed or deleted.
\<close>

definition disciplined :: "'f handler_op \<Rightarrow> 'f registry \<Rightarrow> bool" where
  "disciplined p r =
     (case p of
        AddOp fd _ _ \<Rightarrow> current r fd = None
      | ModOp fd _ _ \<Rightarrow> current r fd \<noteq> None
      | DelOp fd \<Rightarrow> current r fd \<noteq> None)"

definition handler_op :: "(ctl \<Rightarrow> bool) \<Rightarrow> 'f handler_op \<Rightarrow> 'f handler \<Rightarrow> 'f handler" where
  "handler_op ok p h =
     (case p of
        AddOp fd on f \<Rightarrow> snd (handler_add ok fd on f h)
      | ModOp fd on f \<Rightarrow> snd (handler_mod ok fd on f h)
      | DelOp fd \<Rightarrow> handler_del fd h)"

text \<open>A handler and its registry after any operations, as long as the ids have not wrapped.\<close>

inductive handler_reach :: "'f handler \<Rightarrow> 'f registry \<Rightarrow> bool" where
  handler_start: "handler_reach new_handler \<lparr>given = [], current = Map.empty\<rparr>"
| handler_step: "handler_reach h r \<Longrightarrow> disciplined p r \<Longrightarrow> length (given r) < 2 ^ 32 \<Longrightarrow>
     handler_reach (handler_op ok p h) (spec_op p r)"

definition calls_of :: "'f registry \<Rightarrow> int32 \<Rightarrow> 'f etask option" where
  "calls_of r t =
     (let k = unat t
      in if k < length (given r) \<and> current r (task_fd (given r ! k)) = Some k then Some (given r ! k) else None)"

definition handler_rel :: "'f handler \<Rightarrow> 'f registry \<Rightarrow> bool" where
  "handler_rel h r \<longleftrightarrow> length (given r) \<le> 2 ^ 32 \<and> gid h = of_nat (length (given r)) \<and>
     tid_calls h = calls_of r \<and> fd_tids h = map_option of_nat \<circ> current r \<and>
     (\<forall>fd k. current r fd = Some k \<longrightarrow> k < length (given r) \<and> task_fd (given r ! k) = fd)"

lemma unat_tid: "k < 2 ^ 32 \<Longrightarrow> unat (of_nat k :: int32) = k"
  by (simp add: unat_of_nat)

lemma tid_unat: "(t :: int32) \<noteq> of_nat k \<Longrightarrow> k < 2 ^ 32 \<Longrightarrow> unat t \<noteq> k"
  by auto

lemma handler_rel_current:
  "handler_rel h r \<Longrightarrow> current r fd = Some k \<Longrightarrow> k < length (given r) \<and> task_fd (given r ! k) = fd \<and> length (given r) \<le> 2 ^ 32"
  by (simp add: handler_rel_def)

lemma handler_add_rel:
  assumes "handler_rel h r" "current r fd = None" "length (given r) < 2 ^ 32"
  shows "handler_rel (snd (handler_add ok fd on f h)) (register \<lparr>task_fd = fd, task_on = on, task_fn = f\<rparr> r)"
proof -
  let ?e = "\<lparr>task_fd = fd, task_on = on, task_fn = f\<rparr>" and ?n = "length (given r)"
  let ?r = "register ?e r"
  have cur: "k < ?n \<and> task_fd (given r ! k) = fd'" if "current r fd' = Some k" for fd' k
    using handler_rel_current [OF assms(1) that] by simp
  have "calls_of ?r t = (if t = of_nat ?n then Some ?e else calls_of r t)" for t
  proof (cases "t = of_nat ?n")
    case True
    then show ?thesis by (simp add: calls_of_def register_def unat_tid [OF assms(3)] Let_def)
  next
    case False
    define m where "m = unat t"
    have m: "m \<noteq> ?n" using tid_unat [OF False assms(3)] by (simp add: m_def)
    show ?thesis
    proof (cases "m < ?n")
      case True
      then have "given ?r ! m = given r ! m" by (simp add: register_def nth_append)
      with True m False assms(2) show ?thesis
        by (simp add: calls_of_def Let_def m_def [symmetric]) (simp add: register_def)
    next
      case lt: False
      with m False show ?thesis by (simp add: calls_of_def Let_def m_def [symmetric]) (simp add: register_def)
    qed
  qed
  then have "calls_of ?r = (calls_of r)(of_nat ?n \<mapsto> ?e)" by (simp add: fun_eq_iff)
  moreover have "k < length (given ?r) \<and> task_fd (given ?r ! k) = fd'" if "current ?r fd' = Some k" for fd' k
    using that cur [of fd' k] by (auto simp: register_def nth_append split: if_splits)
  ultimately show ?thesis using assms(1,3)
    by (auto simp: handler_rel_def handler_add_def Let_def register_def fun_eq_iff)
qed

lemma handler_del_rel:
  assumes "handler_rel h r" "current r fd = Some k"
  shows "handler_rel (handler_del fd h) (r\<lparr>current := (current r)(fd := None)\<rparr>)"
proof -
  let ?r = "r\<lparr>current := (current r)(fd := None)\<rparr>"
  have k: "k < length (given r)" "task_fd (given r ! k) = fd" "length (given r) \<le> 2 ^ 32"
    using handler_rel_current [OF assms] by auto
  have tid: "read_default fd (fd_tids h) = of_nat k"
    using assms by (simp add: handler_rel_def read_default_def)
  have "calls_of ?r t = (if t = of_nat k then None else calls_of r t)" for t
  proof (cases "t = of_nat k")
    case True
    then have "unat t = k" using unat_tid [of k] k by simp
    then show ?thesis using True k(2) by (simp add: calls_of_def Let_def)
  next
    case False
    define m where "m = unat t"
    have m: "m \<noteq> k" using tid_unat [OF False] k by (simp add: m_def)
    then have "task_fd (given r ! m) = fd \<Longrightarrow> current r (task_fd (given r ! m)) \<noteq> Some m" using assms(2) by simp
    with False show ?thesis by (simp add: calls_of_def Let_def m_def [symmetric]) 
  qed
  then have "calls_of ?r = (calls_of r)(of_nat k := None)" by (simp add: fun_eq_iff)
  with assms(1) tid show ?thesis
    by (simp add: handler_rel_def handler_del_def fun_eq_iff)
qed

text \<open>Changing a registration is deleting it and adding the new one.\<close>

lemma handler_mod_del_add:
  assumes "handler_rel h r" "current r fd = Some k" "length (given r) < 2 ^ 32"
  shows "snd (handler_mod ok fd on f h) = snd (handler_add ok fd on f (handler_del fd h))"
proof -
  have "of_nat k \<noteq> gid h"
  proof
    assume "of_nat k = gid h"
    then have "unat (of_nat k :: int32) = unat (of_nat (length (given r)) :: int32)"
      using assms(1) by (simp add: handler_rel_def)
    with unat_tid [OF assms(3)] unat_tid [of k] handler_rel_current [OF assms(1,2)] assms(3) show False by linarith
  qed
  moreover have "read_default fd (fd_tids h) = of_nat k"
    using assms(1,2) by (simp add: handler_rel_def read_default_def)
  ultimately show ?thesis
    by (simp add: handler_mod_def handler_add_def handler_del_def Let_def fun_upd_twist)
qed

lemma handler_op_rel:
  assumes "handler_rel h r" "disciplined p r" "length (given r) < 2 ^ 32"
  shows "handler_rel (handler_op ok p h) (spec_op p r)"
proof (cases p)
  case (AddOp fd on f)
  with assms handler_add_rel [OF assms(1)] show ?thesis by (simp add: handler_op_def spec_op_def disciplined_def)
next
  case (ModOp fd on f)
  then obtain k where k: "current r fd = Some k" using assms(2) by (auto simp: disciplined_def)
  let ?r = "r\<lparr>current := (current r)(fd := None)\<rparr>"
  have "handler_rel (snd (handler_add ok fd on f (handler_del fd h))) (register \<lparr>task_fd = fd, task_on = on, task_fn = f\<rparr> ?r)"
    by (rule handler_add_rel [OF handler_del_rel [OF assms(1) k]]) (use assms(3) in simp_all)
  moreover have "register \<lparr>task_fd = fd, task_on = on, task_fn = f\<rparr> ?r = register \<lparr>task_fd = fd, task_on = on, task_fn = f\<rparr> r"
    by (simp add: register_def)
  ultimately show ?thesis
    using ModOp handler_mod_del_add [OF assms(1) k assms(3)] by (simp add: handler_op_def spec_op_def)
next
  case (DelOp fd)
  then obtain k where k: "current r fd = Some k" using assms(2) by (auto simp: disciplined_def)
  from handler_del_rel [OF assms(1) k] DelOp show ?thesis by (simp add: handler_op_def spec_op_def)
qed

lemma handler_reach_rel: "handler_reach h r \<Longrightarrow> handler_rel h r"
proof (induction rule: handler_reach.induct)
  case handler_start
  show ?case by (simp add: handler_rel_def new_handler_def calls_of_def fun_eq_iff)
next
  case (handler_step h r p ok)
  show ?case by (rule handler_op_rel [OF handler_step.IH handler_step.hyps(2,3)])
qed

lemma dispatch_spec:
  assumes "handler_rel h r" "k < length (given r)"
  shows "dispatch (evs, tid_data (of_nat k)) h = spec_event evs k r"
proof -
  have "unat (of_nat k :: int32) = k" using assms by (intro unat_tid) (simp add: handler_rel_def)
  then have "tid_calls h (of_nat k) = (if current r (task_fd (given r ! k)) = Some k then Some (given r ! k) else None)"
    using assms by (simp add: handler_rel_def calls_of_def)
  then show ?thesis by (simp add: dispatch_def spec_event_def Let_def)
qed

text \<open>
  C17: The handler implements its registry, and stale events are dropped: after any operations that
  keep to the discipline, whatever \<open>epoll_ctl\<close> answered, an event that the kernel reports for
  the \<open>k\<close>-th task calls that task's function exactly if the task is still the current one of
  its descriptor and waits for one of the events, and calls nothing otherwise.
\<close>

theorem handler_implements_registry:
  assumes "handler_reach h r" "k < length (given r)"
  shows "dispatch (evs, tid_data (of_nat k)) h = spec_event evs k r"
  by (rule dispatch_spec [OF handler_reach_rel [OF assms(1)] assms(2)])

text \<open>Descriptor 5 is added and then armed again; an event for its first task comes late.\<close>

theorem handler_implements_registry_witness:
  "\<exists>h r. handler_reach h r \<and> dispatch (EPOLLIN, tid_data 0) h = None \<and>
     dispatch (EPOLLIN, tid_data 1) h = Some (''second'', ev_in)"
proof -
  define r1 where "r1 = spec_op (AddOp 5 ev_in ''first'') \<lparr>given = [], current = Map.empty\<rparr>"
  define r where "r = spec_op (ModOp 5 ev_in ''second'') r1"
  have given: "given r = [\<lparr>task_fd = 5, task_on = ev_in, task_fn = ''first''\<rparr>, \<lparr>task_fd = 5, task_on = ev_in, task_fn = ''second''\<rparr>]"
    and cur: "current r 5 = Some 1"
    by (simp_all add: r_def r1_def spec_op_def register_def)
  have "handler_reach (handler_op (\<lambda>_. True) (AddOp 5 ev_in ''first'') new_handler) r1"
    unfolding r1_def by (rule handler_step [OF handler_start]) (simp_all add: disciplined_def)
  then have reach: "handler_reach (handler_op (\<lambda>_. True) (ModOp 5 ev_in ''second'')
      (handler_op (\<lambda>_. True) (AddOp 5 ev_in ''first'') new_handler)) r" (is "handler_reach ?h r")
    unfolding r_def by (rule handler_step) (simp_all add: disciplined_def r1_def spec_op_def register_def)
  have ev: "from_linux EPOLLIN = ev_in" by (simp add: from_linux_def add_flag_def event_consts)
  have "dispatch (EPOLLIN, tid_data (of_nat 0)) ?h = None"
    using handler_implements_registry [OF reach, of 0 EPOLLIN] by (simp add: given cur spec_event_def)
  moreover have "dispatch (EPOLLIN, tid_data (of_nat 1)) ?h = Some (''second'', ev_in)"
    using handler_implements_registry [OF reach, of 1 EPOLLIN]
    by (simp add: given cur spec_event_def ev) (simp add: event_consts)
  ultimately show ?thesis using reach by (intro exI [of _ ?h] exI [of _ r]) simp
qed

section \<open>Where the handler loses events\<close>

text \<open>
  Changing or deleting a descriptor that is not registered, such as closing a socket twice, takes
  away the task of another one: \<open>operator[]\<close> answers id 0 for the missing descriptor, so the
  function of the first task of the handler is erased and no event ever calls it again,
  although its registration still stands.
\<close>

theorem unregistered_descriptor_erases_first_task:
  assumes "handler_reach h r" "given r \<noteq> []" "current r fd = None"
  shows "dispatch (evs, tid_data 0) h = spec_event evs 0 r \<and>
    dispatch (evs, tid_data 0) (handler_del fd h) = None \<and>
    dispatch (evs, tid_data 0) (snd (handler_mod ok fd on f h)) = None"
proof -
  have rel: "handler_rel h r" by (rule handler_reach_rel [OF assms(1)])
  then have "read_default fd (fd_tids h) = 0" using assms(3) by (simp add: handler_rel_def read_default_def)
  then show ?thesis using dispatch_spec [OF rel, of 0 evs] assms(2)
    by (simp add: dispatch_def handler_del_def handler_mod_def Let_def)
qed

text \<open>The first task belongs to descriptor 5; descriptor 6 is closed twice.\<close>

theorem unregistered_descriptor_erases_first_task_witness:
  "\<exists>h r. handler_reach h r \<and> current r 5 = Some 0 \<and> dispatch (EPOLLIN, tid_data 0) h = Some (''worker'', ev_in) \<and>
     dispatch (EPOLLIN, tid_data 0) (handler_del 6 h) = None"
proof -
  define r1 where "r1 = spec_op (AddOp 5 ev_in ''worker'') \<lparr>given = [], current = Map.empty\<rparr>"
  define r2 where "r2 = spec_op (AddOp 6 ev_in ''socket'') r1"
  define r where "r = spec_op (DelOp 6) r2"
  have r1: "r1 = \<lparr>given = [\<lparr>task_fd = 5, task_on = ev_in, task_fn = ''worker''\<rparr>], current = Map.empty(5 \<mapsto> 0)\<rparr>"
    by (simp add: r1_def spec_op_def register_def)
  have r2: "r2 = \<lparr>given = given r1 @ [\<lparr>task_fd = 6, task_on = ev_in, task_fn = ''socket''\<rparr>], current = (current r1)(6 \<mapsto> 1)\<rparr>"
    by (simp add: r2_def spec_op_def register_def r1)
  have r: "current r 5 = Some 0" "current r 6 = None" "given r ! 0 = \<lparr>task_fd = 5, task_on = ev_in, task_fn = ''worker''\<rparr>"
    "given r \<noteq> []"
    by (simp_all add: r_def spec_op_def r2 r1)
  have "\<exists>h. handler_reach h r1"
    unfolding r1_def by (intro exI, rule handler_step [OF handler_start]) (simp_all add: disciplined_def)
  then have "\<exists>h. handler_reach h r2"
    unfolding r2_def by (elim exE) (intro exI, erule handler_step, simp_all add: disciplined_def r1)
  then obtain h where h: "handler_reach h r"
    unfolding r_def by (elim exE) (drule handler_step [of _ _ "DelOp 6"], simp_all add: disciplined_def r2 r1)
  have "from_linux EPOLLIN = ev_in" "ev_in AND ev_in \<noteq> 0" by (simp_all add: from_linux_def add_flag_def event_consts)
  then have "spec_event EPOLLIN 0 r = Some (''worker'', ev_in)" by (simp add: spec_event_def r)
  with unregistered_descriptor_erases_first_task [OF h r(4,2), of EPOLLIN] h r(1) show ?thesis by metis
qed

text \<open>
  A waiter for input or output is not told of an error that comes alone: the registration is armed
  for one shot, so reporting the event uses it up, but an event with nothing but error or
  hang-up bits is dropped by the test against the events that the waiter asked for.
\<close>

theorem error_only_event_is_dropped:
  assumes "handler_reach h r" "k < length (given r)" "task_on (given r ! k) = on"
    and "on = ev_in OR ev_oneshot \<or> on = ev_out OR ev_oneshot"
    and "evs AND (EPOLLIN OR EPOLLOUT OR EPOLLONESHOT) = 0"
  shows "dispatch (evs, tid_data (of_nat k)) h = None \<and> to_linux on AND EPOLLONESHOT \<noteq> 0"
proof -
  have b: "\<not> bit (evs AND (EPOLLIN OR EPOLLOUT OR EPOLLONESHOT)) n" for n using assms(5) by simp
  from b [of 0] b [of 2] b [of 30] have bits: "\<not> bit evs 0" "\<not> bit evs 2" "\<not> bit evs 30"
    by (simp_all add: bit_simps flag_bits)
  have on: "bit on n \<Longrightarrow> n = 0 \<or> n = 1 \<or> n = 3" "bit on 3" for n
    using assms(4) by (auto simp: bit_or_iff bit_flags)
  have "on AND from_linux evs = 0"
    by (rule bit_eqI) (use bits in \<open>auto simp: bit_and_iff bit_from_linux dest: on(1)\<close>)
  then have "dispatch (evs, tid_data (of_nat k)) h = None"
    using dispatch_spec [OF handler_reach_rel [OF assms(1)] assms(2)] assms(3) by (simp add: spec_event_def)
  moreover have "to_linux on AND EPOLLONESHOT \<noteq> 0"
    unfolding flag_bits and_flag bit_to_linux using on(2) by simp
  ultimately show ?thesis ..
qed

theorem error_only_event_is_dropped_witness:
  "\<exists>h r. handler_reach h r \<and> current r 5 = Some 0 \<and> task_fn (given r ! 0) = ''recv'' \<and> dispatch (EPOLLERR, tid_data 0) h = None"
proof -
  define r where "r = spec_op (AddOp 5 (ev_in OR ev_oneshot) ''recv'') \<lparr>given = [], current = Map.empty\<rparr>"
  have r: "r = \<lparr>given = [\<lparr>task_fd = 5, task_on = ev_in OR ev_oneshot, task_fn = ''recv''\<rparr>], current = Map.empty(5 \<mapsto> 0)\<rparr>"
    by (simp add: r_def spec_op_def register_def)
  have h: "handler_reach (handler_op (\<lambda>_. True) (AddOp 5 (ev_in OR ev_oneshot) ''recv'') new_handler) r"
    unfolding r_def by (rule handler_step [OF handler_start]) (simp_all add: disciplined_def)
  have "EPOLLERR AND (EPOLLIN OR EPOLLOUT OR EPOLLONESHOT) = 0" by (simp add: event_consts)
  then have "dispatch (EPOLLERR, tid_data (of_nat 0)) (handler_op (\<lambda>_. True) (AddOp 5 (ev_in OR ev_oneshot) ''recv'') new_handler) = None"
    using error_only_event_is_dropped [OF h, of 0 "ev_in OR ev_oneshot" EPOLLERR] by (simp add: r)
  with h r show ?thesis
    by (intro exI [of _ "handler_op (\<lambda>_. True) (AddOp 5 (ev_in OR ev_oneshot) ''recv'') new_handler"] exI [of _ r]) simp
qed

section \<open>The partitions\<close>

text \<open>
  \<open>EventContext\<close>: a handler for each partition; a descriptor belongs to the one that its value,
  as a \<open>size_t\<close>, has modulo their number, which is undefined if there are none.
\<close>

datatype event_fault = NoHandlers | EventThrows string

definition fd_index :: "int32 \<Rightarrow> nat" where
  "fd_index fd = unat (tid_data fd)"

definition at_handler ::
    "nat \<Rightarrow> ('f handler \<Rightarrow> (string + 'a) \<times> 'f handler) \<Rightarrow> 'f handler list \<Rightarrow> (event_fault + 'a) \<times> 'f handler list" where
  "at_handler i f hs =
     (if hs = [] then (Inl NoHandlers, hs)
      else (case f (hs ! (i mod length hs)) of
              (r, h) \<Rightarrow> (map_sum EventThrows id r, hs[i mod length hs := h])))"

definition event_add ::
    "(ctl \<Rightarrow> bool) \<Rightarrow> int32 \<Rightarrow> event \<Rightarrow> 'f \<Rightarrow> 'f handler list \<Rightarrow> (event_fault + unit) \<times> 'f handler list" where
  "event_add ok fd on f hs = at_handler (fd_index fd) (handler_add ok fd on f) hs"

definition event_mod ::
    "(ctl \<Rightarrow> bool) \<Rightarrow> int32 \<Rightarrow> event \<Rightarrow> 'f \<Rightarrow> 'f handler list \<Rightarrow> (event_fault + unit) \<times> 'f handler list" where
  "event_mod ok fd on f hs = at_handler (fd_index fd) (handler_mod ok fd on f) hs"

definition event_del :: "int32 \<Rightarrow> 'f handler list \<Rightarrow> (event_fault + unit) \<times> 'f handler list" where
  "event_del fd hs = at_handler (fd_index fd) (\<lambda>h. (Inr (), handler_del fd h)) hs"

definition run_handler ::
    "nat \<Rightarrow> nat \<Rightarrow> (size_t \<times> size_t) list option \<Rightarrow> 'f handler list \<Rightarrow>
      (event_fault + nat \<times> ('f \<times> event) list) \<times> 'f handler list" where
  "run_handler pindex batch es hs = at_handler pindex (\<lambda>h. (Inr (handle batch es h), h)) hs"

text \<open>A partition is touched by nothing but its own descriptors.\<close>

lemma at_handler_frame:
  "j \<noteq> i mod length hs \<Longrightarrow> snd (at_handler i f hs) ! j = hs ! j"
  "length (snd (at_handler i f hs)) = length hs"
  by (simp_all add: at_handler_def split: prod.splits)

section \<open>EventLazySignal\<close>

text \<open>
  The signal of a worker: an \<open>eventfd\<close>, registered with one handler. Its counter and the
  kernel's read and write are the caller's; a failing call changes nothing. \<open>sig_data\<close> is an
  \<open>int\<close> of four bytes, and \<open>notified\<close> counts the calls of \<open>_cond.notify_one\<close>.
\<close>

record lazy =
  sig_fd :: int32
  sig_pindex :: nat
  sig_nowait :: bool
  sig_data :: int
  counter :: nat
  notified :: nat

definition signal_new ::
    "(ctl \<Rightarrow> bool) \<Rightarrow> nat \<Rightarrow> bool \<Rightarrow> int32 \<Rightarrow> 'f \<Rightarrow> 'f handler list \<Rightarrow> (event_fault + lazy) \<times> 'f handler list" where
  "signal_new ok pindex nowait fd f hs =
     (case at_handler pindex (handler_add ok fd (ev_in OR ev_oneshot) f) hs of
        (Inl e, hs') \<Rightarrow> (Inl e, hs')
      | (Inr _, hs') \<Rightarrow>
          (Inr \<lparr>sig_fd = fd, sig_pindex = pindex, sig_nowait = nowait, sig_data = 0, counter = 0, notified = 0\<rparr>, hs'))"

definition signal_close :: "lazy \<Rightarrow> 'f handler list \<Rightarrow> (event_fault + unit) \<times> 'f handler list" where
  "signal_close s hs = at_handler (sig_pindex s) (\<lambda>h. (Inr (), handler_del (sig_fd s) h)) hs"

definition sizeof_int :: nat where
  "sizeof_int = 4"

text \<open>The kernel's \<open>eventfd\<close>: writing and reading so many bytes.\<close>

record efd =
  efd_write :: "nat \<Rightarrow> int \<Rightarrow> nat \<Rightarrow> nat option"
  efd_read :: "nat \<Rightarrow> nat \<Rightarrow> (int \<times> nat) option"

definition signal_emit_write :: "efd \<Rightarrow> lazy \<Rightarrow> lazy" where
  "signal_emit_write k s =
     (case efd_write k sizeof_int (sig_data s) (counter s) of None \<Rightarrow> s | Some c \<Rightarrow> s\<lparr>counter := c\<rparr>)"

definition signal_callback :: "efd \<Rightarrow> lazy \<Rightarrow> lazy" where
  "signal_callback k s =
     (let s1 = (case efd_read k sizeof_int (counter s) of None \<Rightarrow> s | Some (v, c) \<Rightarrow> s\<lparr>sig_data := v, counter := c\<rparr>)
      in if sig_nowait s1 then s1 else s1\<lparr>notified := Suc (notified s1)\<rparr>)"

text \<open>\<open>_wait\<close>: whether it blocks, and the registration it renews after waking up.\<close>

definition signal_wait ::
    "(ctl \<Rightarrow> bool) \<Rightarrow> 'f \<Rightarrow> lazy \<Rightarrow> 'f handler list \<Rightarrow> bool \<times> (event_fault + unit) \<times> 'f handler list" where
  "signal_wait ok f s hs =
     (if sig_nowait s then (False, Inr (), hs)
      else (True, at_handler (sig_pindex s) (handler_mod ok (sig_fd s) (ev_in OR ev_oneshot) f) hs))"

text \<open>
  Emitting a worker's signal never makes its descriptor readable: \<open>_emit\<close> writes four bytes, and an
  \<open>eventfd\<close> refuses to write fewer than eight; however often it is emitted and called back,
  the counter stays zero, so \<open>epoll_wait\<close> has no event to wake the worker with.
\<close>

theorem signal_emit_never_readable:
  assumes "\<And>n v c. n < 8 \<Longrightarrow> efd_write k n v c = None" "\<And>n c. n < 8 \<Longrightarrow> efd_read k n c = None"
    and "signal_new ok pindex nowait fd f hs = (Inr s, hs')"
  shows "counter (fold (\<lambda>e s. if e then signal_emit_write k s else signal_callback k s) es s) = 0"
proof -
  have "counter (fold (\<lambda>e s. if e then signal_emit_write k s else signal_callback k s) es s) = counter s" for s
    by (induction es arbitrary: s)
      (simp_all add: signal_emit_write_def signal_callback_def sizeof_int_def Let_def assms(1,2))
  moreover have "counter s = 0" using assms(3) by (auto simp: signal_new_def split: prod.splits sum.splits)
  ultimately show ?thesis by simp
qed

text \<open>An \<open>eventfd\<close> as documented, without its upper bound.\<close>

definition plain_efd :: efd where
  "plain_efd = \<lparr>efd_write = (\<lambda>n v c. if n < 8 then None else Some (c + nat v)),
     efd_read = (\<lambda>n c. if n < 8 \<or> c = 0 then None else Some (int c, 0))\<rparr>"

theorem signal_emit_never_readable_witness:
  "\<exists>s hs. signal_new (\<lambda>_. True) 1 False 9 ''wake'' [new_handler] = (Inr s, hs) \<and>
     counter (signal_emit_write plain_efd (signal_emit_write plain_efd s)) = 0"
proof -
  obtain s hs where s: "signal_new (\<lambda>_. True) 1 False 9 ''wake'' [new_handler] = (Inr s, hs)"
    by (simp add: signal_new_def at_handler_def handler_add_def Let_def)
  have "counter (fold (\<lambda>e s. if e then signal_emit_write plain_efd s else signal_callback plain_efd s) [True, True] s) = 0"
    by (rule signal_emit_never_readable [OF _ _ s]) (simp_all add: plain_efd_def)
  with s show ?thesis by simp
qed

end
