(* ===== verification/Sockets.thy ===== *)
theory Sockets
  imports Events Timers
begin

text \<open>
  Sockets (\<open>src/include/core/event.h\<close>, \<open>src/core/socket.cpp\<close>): the wait for an event with a
  timeout, and the operations that call the kernel and wait until it can go on. The answers
  of the system calls and the outcomes of the waits are arguments, in the order in which the
  code asks for them; \<open>strerror\<close> and \<open>inet_pton\<close> are functions.
\<close>

section \<open>Errors\<close>

datatype protocol = TCP | UDP | ICMP | SCTP

datatype family = IPv4 | IPv6

record sock_error =
  err_fd :: int
  err_code :: int
  err_msg :: string

text \<open>The Linux values of \<open>errno\<close> that the code compares with.\<close>

definition EPIPE :: int where "EPIPE = 32"
definition EAGAIN :: int where "EAGAIN = 11"
definition EWOULDBLOCK :: int where "EWOULDBLOCK = 11"
definition ECONNRESET :: int where "ECONNRESET = 104"
definition ETIMEDOUT :: int where "ETIMEDOUT = 110"
definition EINPROGRESS :: int where "EINPROGRESS = 115"

lemmas errnos = EPIPE_def EAGAIN_def EWOULDBLOCK_def ECONNRESET_def ETIMEDOUT_def EINPROGRESS_def

definition sock_err :: "int \<Rightarrow> int \<Rightarrow> string \<Rightarrow> sock_error" where
  "sock_err fd code msg = \<lparr>err_fd = fd, err_code = code, err_msg = msg\<rparr>"

record socket =
  sock_fd :: int
  sock_protocol :: protocol
  sock_family :: family

section \<open>Waiting for an event\<close>

text \<open>
  The shared \<open>Signal\<close> of \<open>_wait_sock_event\<close>: the atomic \<open>timeout\<close> and the permits of \<open>signal\<close>.
  The event's callback and the timer's each try to set it from 0, by a
  \<open>compare_exchange_weak\<close> that may fail spuriously.
\<close>

record wait_signal =
  wait_state :: int
  permits :: nat

definition new_wait :: wait_signal where
  "new_wait = \<lparr>wait_state = 0, permits = 0\<rparr>"

definition try_set :: "bool \<Rightarrow> int \<Rightarrow> wait_signal \<Rightarrow> wait_signal" where
  "try_set spurious v s =
     (if wait_state s = 0 \<and> \<not> spurious then s\<lparr>wait_state := v, permits := Suc (permits s)\<rparr> else s)"

definition on_event :: "bool \<Rightarrow> wait_signal \<Rightarrow> wait_signal" where
  "on_event spurious = try_set spurious 1"

definition on_expiry :: "bool \<Rightarrow> wait_signal \<Rightarrow> wait_signal" where
  "on_expiry spurious = try_set spurious (- 1)"

text \<open>After \<open>aquire\<close>, which needs a permit: whether the event came.\<close>

definition wait_result :: "wait_signal \<Rightarrow> bool option" where
  "wait_result s = (if permits s = 0 then None else Some (wait_state s = 1))"

datatype waker = EventCalls | TimerCalls

text \<open>Who calls back, in order, and whether the exchange fails spuriously.\<close>

definition call_back :: "waker \<times> bool \<Rightarrow> wait_signal \<Rightarrow> wait_signal" where
  "call_back c = (case fst c of EventCalls \<Rightarrow> on_event (snd c) | TimerCalls \<Rightarrow> on_expiry (snd c))"

lemma call_back_set: "wait_state s \<noteq> 0 \<Longrightarrow> fold call_back cs s = s"
  by (induction cs) (auto simp: call_back_def on_event_def on_expiry_def try_set_def split: waker.split)

text \<open>
  Event and timeout race safely: of all callbacks, in whatever order and number, the first whose
  exchange succeeds decides the result and releases the waiter, exactly once; as the exchange
  is the weak one and not repeated, the waiter is released only if some callback's exchange
  does not fail spuriously.
\<close>

theorem wait_is_decided_once:
  "fold call_back cs new_wait =
     (case dropWhile snd cs of
        [] \<Rightarrow> new_wait
      | (w, _) # _ \<Rightarrow> \<lparr>wait_state = (case w of EventCalls \<Rightarrow> 1 | TimerCalls \<Rightarrow> - 1), permits = 1\<rparr>)"
proof (induction cs)
  case (Cons c cs)
  obtain w sp where c: "c = (w, sp)" by fastforce
  show ?case
  proof (cases sp)
    case True
    then have "call_back c new_wait = new_wait"
      by (simp add: c call_back_def on_event_def on_expiry_def try_set_def split: waker.split)
    with Cons.IH True c show ?thesis by simp
  next
    case False
    then have s: "call_back c new_wait = \<lparr>wait_state = (case w of EventCalls \<Rightarrow> 1 | TimerCalls \<Rightarrow> - 1), permits = 1\<rparr>"
      by (simp add: c call_back_def on_event_def on_expiry_def try_set_def new_wait_def split: waker.split)
    then have "wait_state (call_back c new_wait) \<noteq> 0" by (simp split: waker.split)
    from call_back_set [OF this] s False c show ?thesis by simp
  qed
qed simp

section \<open>Receiving\<close>

text \<open>
  What a call of \<open>::recv\<close> answers: bytes (none at the end of a stream, or for an empty
  datagram), or an \<open>errno\<close>. One turn of the loop either ends it, or waits; the second
  component of the trace is what \<open>_wait_sock_event\<close> answers if it is called. \<open>None\<close> is the
  result of a trace that ends while the coroutine waits.
\<close>

datatype reply = Bytes string | Failed int

definition peer_closed :: "int \<Rightarrow> int \<Rightarrow> sock_error" where
  "peer_closed fd code = sock_err fd code ''close by other side''"

definition fatal :: "(int \<Rightarrow> string) \<Rightarrow> int \<Rightarrow> int \<Rightarrow> sock_error option" where
  "fatal strerror fd e =
     (if e = ECONNRESET \<or> e = EPIPE then Some (peer_closed fd e)
      else if e \<noteq> EAGAIN \<and> e \<noteq> EWOULDBLOCK then Some (sock_err fd e (strerror e))
      else None)"

definition recv_turn :: "(int \<Rightarrow> string) \<Rightarrow> socket \<Rightarrow> reply \<Rightarrow> (sock_error + string) option" where
  "recv_turn strerror s r =
     (case r of
        Bytes bs \<Rightarrow>
          if bs \<noteq> [] then Some (Inr bs)
          else if sock_protocol s = TCP then Some (Inl (peer_closed (sock_fd s) 0))
          else None
      | Failed e \<Rightarrow> map_option Inl (fatal strerror (sock_fd s) e))"

fun wait_loop :: "('r \<Rightarrow> (sock_error + 'a) option) \<Rightarrow> sock_error \<Rightarrow> ('r \<times> bool) list \<Rightarrow> (sock_error + 'a) option" where
  "wait_loop turn timeout [] = None"
| "wait_loop turn timeout ((r, woken) # rs) =
     (case turn r of
        Some x \<Rightarrow> Some x
      | None \<Rightarrow> if woken then wait_loop turn timeout rs else Some (Inl timeout))"

definition sock_recv :: "(int \<Rightarrow> string) \<Rightarrow> socket \<Rightarrow> (reply \<times> bool) list \<Rightarrow> (sock_error + string) option" where
  "sock_recv strerror s =
     wait_loop (recv_turn strerror s) (sock_err (sock_fd s) ETIMEDOUT ''recv timeout'')"

text \<open>The first turn that does not simply go on decides.\<close>

definition undecided :: "('r \<Rightarrow> (sock_error + 'a) option) \<Rightarrow> 'r \<times> bool \<Rightarrow> bool" where
  "undecided turn x \<longleftrightarrow> turn (fst x) = None \<and> snd x"

lemma wait_loop_first:
  "wait_loop turn timeout rs =
     (case dropWhile (undecided turn) rs of
        [] \<Rightarrow> None
      | (r, _) # _ \<Rightarrow> (case turn r of Some x \<Rightarrow> Some x | None \<Rightarrow> Some (Inl timeout)))"
  by (induction turn timeout rs rule: wait_loop.induct) (auto simp: undecided_def split: option.split)

lemma wait_loop_value:
  assumes "wait_loop turn timeout rs = Some (Inr x)"
  obtains pre r w post where "rs = pre @ (r, w) # post" "\<forall>y \<in> set pre. undecided turn y" "turn r = Some (Inr x)"
  using assms
proof (induction turn timeout rs arbitrary: thesis rule: wait_loop.induct)
  case (2 turn timeout r w rs)
  show ?case
  proof (cases "turn r")
    case (Some y)
    with "2.prems" show ?thesis by (intro "2.prems"(1) [of "[]" r w rs]) simp_all
  next
    case None
    with "2.prems"(2) have w: "w" "wait_loop turn timeout rs = Some (Inr x)" by (simp_all split: if_splits)
    obtain pre r' w' post where "rs = pre @ (r', w') # post" "\<forall>y \<in> set pre. undecided turn y" "turn r' = Some (Inr x)"
      by (rule "2.IH" [OF None w(1) _ w(2)])
    with None w(1) show ?thesis
      by (intro "2.prems"(1) [of "(r, w) # pre" r' w' post]) (simp_all add: undecided_def)
  qed
qed simp

text \<open>
  C37: \<open>recv\<close> returns data exactly as the kernel handed it over: if it returns bytes, they are those
  of the first successful call, never empty, and every call before it found nothing to read;
  on a stream socket none of those calls had met the end of the stream.
\<close>

theorem recv_returns_first_bytes:
  assumes "sock_recv strerror s rs = Some (Inr bs)"
  shows "\<exists>pre w post. rs = pre @ (Bytes bs, w) # post \<and> bs \<noteq> [] \<and>
    (\<forall>(r, woken) \<in> set pre. woken \<and>
      (r = Failed EAGAIN \<or> r = Failed EWOULDBLOCK \<or> (r = Bytes [] \<and> sock_protocol s \<noteq> TCP)))"
  using assms unfolding sock_recv_def
proof (rule wait_loop_value)
  fix pre r w post
  assume rs: "rs = pre @ (r, w) # post" and pre: "\<forall>y \<in> set pre. undecided (recv_turn strerror s) y"
    and r: "recv_turn strerror s r = Some (Inr bs)"
  have "r = Bytes bs" "bs \<noteq> []"
    using r by (auto simp: recv_turn_def split: reply.splits if_splits)
  moreover have "woken \<and> (r' = Failed EAGAIN \<or> r' = Failed EWOULDBLOCK \<or> (r' = Bytes [] \<and> sock_protocol s \<noteq> TCP))"
    if "(r', woken) \<in> set pre" for r' woken
    using pre that by (fastforce simp: undecided_def recv_turn_def fatal_def split: reply.splits if_splits)
  ultimately show ?thesis using rs by blast
qed

theorem recv_returns_first_bytes_witness:
  "sock_recv (\<lambda>_. []) \<lparr>sock_fd = 4, sock_protocol = TCP, sock_family = IPv4\<rparr>
     [(Failed EAGAIN, True), (Bytes ''ab'', False)] = Some (Inr ''ab'') \<and>
   (\<exists>pre w post. [(Failed EAGAIN, True), (Bytes ''ab'', False)] = pre @ (Bytes ''ab'', w) # post)"
proof -
  have r: "sock_recv (\<lambda>_. []) \<lparr>sock_fd = 4, sock_protocol = TCP, sock_family = IPv4\<rparr>
     [(Failed EAGAIN, True), (Bytes ''ab'', False)] = Some (Inr ''ab'')"
    by (simp add: sock_recv_def recv_turn_def fatal_def errnos)
  with recv_returns_first_bytes [OF r] show ?thesis by blast
qed

text \<open>
  An empty datagram is never delivered: \<open>recv\<close> on a UDP socket takes it from the kernel and waits
  for the next one, and times out if there is none.
\<close>

theorem empty_datagram_is_swallowed:
  assumes "sock_protocol s = UDP"
  shows "sock_recv strerror s ((Bytes [], woken) # rs) =
    (if woken then sock_recv strerror s rs else Some (Inl (sock_err (sock_fd s) ETIMEDOUT ''recv timeout'')))"
  using assms by (simp add: sock_recv_def recv_turn_def)

theorem empty_datagram_is_swallowed_witness:
  "sock_recv (\<lambda>_. []) \<lparr>sock_fd = 4, sock_protocol = UDP, sock_family = IPv4\<rparr> [(Bytes [], False)] =
     Some (Inl (sock_err 4 ETIMEDOUT ''recv timeout''))"
  using empty_datagram_is_swallowed [of "\<lparr>sock_fd = 4, sock_protocol = UDP, sock_family = IPv4\<rparr>" "\<lambda>_. []" False "[]"] by simp

section \<open>Sending\<close>

text \<open>
  \<open>send\<close>: the answers are the number of bytes taken or an \<open>errno\<close>. The loop returns its
  result, \<open>None\<close> while it waits, and with it the bytes the kernel has taken.
\<close>

datatype count_reply = Taken nat | SendFailed int

fun send_loop ::
    "(int \<Rightarrow> string) \<Rightarrow> socket \<Rightarrow> string \<Rightarrow> nat \<Rightarrow> (count_reply \<times> bool) list \<Rightarrow> (sock_error + unit) option \<times> string" where
  "send_loop strerror s data i rs =
     (if i < length data then
        (case rs of
           [] \<Rightarrow> (None, [])
         | (Taken n, woken) # rs' \<Rightarrow>
             if n > 0 then
               (case send_loop strerror s data (i + n) rs' of (x, bs) \<Rightarrow> (x, take n (drop i data) @ bs))
             else if woken then send_loop strerror s data i rs'
             else (Some (Inl (sock_err (sock_fd s) ETIMEDOUT ''send timeout'')), [])
         | (SendFailed e, woken) # rs' \<Rightarrow>
             (case fatal strerror (sock_fd s) e of
                Some err \<Rightarrow> (Some (Inl err), [])
              | None \<Rightarrow>
                  if woken then send_loop strerror s data i rs'
                  else (Some (Inl (sock_err (sock_fd s) ETIMEDOUT ''send timeout'')), [])))
      else (Some (Inr ()), []))"

declare send_loop.simps [simp del]

definition sock_send ::
    "(int \<Rightarrow> string) \<Rightarrow> socket \<Rightarrow> string \<Rightarrow> (count_reply \<times> bool) list \<Rightarrow> (sock_error + unit) option \<times> string" where
  "sock_send strerror s data rs = send_loop strerror s data 0 rs"

lemma send_loop_cases:
  assumes "send_loop strerror s data i rs = (x, bs)"
  obtains (full) "length data \<le> i" "x = Some (Inr ())" "bs = []"
  | (stop) "i < length data" "x \<noteq> Some (Inr ())" "bs = []"
  | (took) n w rs' bs' where "i < length data" "rs = (Taken n, w) # rs'" "n > 0"
      "send_loop strerror s data (i + n) rs' = (x, bs')" "bs = take n (drop i data) @ bs'"
  | (waited) a rs' where "i < length data" "rs = a # rs'" "send_loop strerror s data i rs' = (x, bs)"
proof (cases "i < length data")
  case False
  with assms show ?thesis by (intro full) (simp_all add: send_loop.simps)
next
  case lt: True
  show ?thesis
  proof (cases rs)
    case Nil
    with assms lt show ?thesis by (intro stop) (simp_all add: send_loop.simps)
  next
    case (Cons a rs')
    obtain c w where a: "a = (c, w)" by fastforce
    show ?thesis
    proof (cases c)
      case (Taken n)
      show ?thesis
      proof (cases "n > 0")
        case True
        obtain y bs' where y: "send_loop strerror s data (i + n) rs' = (y, bs')" by fastforce
        with True Taken a Cons lt assms have "x = y" "bs = take n (drop i data) @ bs'"
          by (auto simp: send_loop.simps [of _ _ _ i])
        with y True Taken a Cons lt show ?thesis by (intro took [of n w rs' bs']) simp_all
      next
        case False
        show ?thesis
        proof (cases w)
          case True
          with False Taken a Cons lt assms show ?thesis
            by (intro waited [of a rs']) (simp_all add: send_loop.simps [of _ _ _ _ "_ # _"])
        next
          case nw: False
          with False Taken a Cons lt assms show ?thesis
            by (intro stop) (auto simp: send_loop.simps [of _ _ _ _ "_ # _"])
        qed
      qed
    next
      case (SendFailed e)
      show ?thesis
      proof (cases "fatal strerror (sock_fd s) e = None \<and> w")
        case True
        with SendFailed a Cons lt assms show ?thesis
          by (intro waited [of a rs']) (simp_all add: send_loop.simps [of _ _ _ _ "_ # _"])
      next
        case False
        with SendFailed a Cons lt assms show ?thesis
          by (intro stop) (auto simp: send_loop.simps [of _ _ _ _ "_ # _"] split: option.splits if_splits)
      qed
    qed
  qed
qed

lemma send_loop_prefix:
  "send_loop strerror s data i rs = (x, bs) \<Longrightarrow>
     (\<exists>k. bs = take k (drop i data)) \<and> (x = Some (Inr ()) \<longleftrightarrow> bs = drop i data)"
proof (induction rs arbitrary: i bs rule: length_induct)
  case (1 rs)
  from "1.prems" show ?case
  proof (cases rule: send_loop_cases)
    case full
    then show ?thesis by simp
  next
    case stop
    then show ?thesis by auto
  next
    case (took n w rs' bs')
    have split: "drop i data = take n (drop i data) @ drop (i + n) data"
      by (metis append_take_drop_id drop_drop add.commute)
    from took "1.IH" obtain k where k: "bs' = take k (drop (i + n) data)" "x = Some (Inr ()) \<longleftrightarrow> bs' = drop (i + n) data"
      by fastforce
    have "bs = take (n + k) (drop i data)"
      by (simp only: took(5) k(1) take_add drop_drop add.commute [of i n])
    moreover have "bs = drop i data \<longleftrightarrow> bs' = drop (i + n) data"
      using took(5) split by (metis same_append_eq)
    ultimately show ?thesis using k(2) by blast
  next
    case (waited a rs')
    from waited(2) have "length rs' < length rs" by simp
    with "1.IH" waited(3) show ?thesis by blast
  qed
qed

text \<open>
  C21: \<open>send\<close> hands the data over completely and in order, or reports that it did not: what the kernel
  has taken is always a prefix of the data, whatever partial writes, interruptions and
  timeouts there were, and \<open>send\<close> returns success exactly if that prefix is all of it.
\<close>

theorem send_is_exact:
  assumes "sock_send strerror s data rs = (x, bs)"
  shows "(\<exists>k. bs = take k data) \<and> (x = Some (Inr ()) \<longleftrightarrow> bs = data)"
  using send_loop_prefix [of strerror s data 0 rs x bs] assms by (simp add: sock_send_def)

theorem send_is_exact_witness:
  "\<exists>x bs. sock_send (\<lambda>_. []) \<lparr>sock_fd = 4, sock_protocol = TCP, sock_family = IPv4\<rparr> ''abc''
     [(Taken 2, True), (SendFailed EAGAIN, True), (SendFailed EPIPE, True)] = (x, bs) \<and> bs = ''ab'' \<and> x \<noteq> Some (Inr ())"
proof -
  obtain x where r: "sock_send (\<lambda>_. []) \<lparr>sock_fd = 4, sock_protocol = TCP, sock_family = IPv4\<rparr> ''abc''
     [(Taken 2, True), (SendFailed EAGAIN, True), (SendFailed EPIPE, True)] = (x, ''ab'')"
    by (simp add: sock_send_def send_loop.simps fatal_def errnos)
  with send_is_exact [OF r] show ?thesis by simp
qed

fun taken_by :: "count_reply \<times> bool \<Rightarrow> nat" where
  "taken_by (Taken n, _) = n"
| "taken_by (SendFailed _, _) = 0"

lemma send_loop_completes:
  "\<forall>(c, w) \<in> set rs. w \<and> (\<forall>e. c = SendFailed e \<longrightarrow> e = EAGAIN \<or> e = EWOULDBLOCK) \<Longrightarrow>
     length data \<le> i + sum_list (map taken_by rs) \<Longrightarrow> fst (send_loop strerror s data i rs) = Some (Inr ())"
proof (induction rs arbitrary: i)
  case Nil
  then show ?case by (simp add: send_loop.simps)
next
  case (Cons a rs)
  obtain c w where a: "a = (c, w)" by fastforce
  have w: "w" "\<forall>e. c = SendFailed e \<longrightarrow> fatal strerror (sock_fd s) e = None"
    using Cons.prems(1) a by (auto simp: fatal_def errnos)
  show ?case
  proof (cases c)
    case (Taken n)
    with Cons.IH [of "i + n"] Cons.IH [of i] Cons.prems a w(1) show ?thesis
      by (auto simp: send_loop.simps [of _ _ _ _ "_ # _"] split: prod.splits)
  next
    case (SendFailed e)
    with Cons.IH [of i] Cons.prems a w show ?thesis
      by (auto simp: send_loop.simps [of _ _ _ _ "_ # _"])
  qed
qed

text \<open>
  \<open>send\<close> ends: as soon as the kernel has taken as many bytes as the data has, with any number of
  interruptions that were followed by a wake-up, it returns success.
\<close>

theorem send_completes:
  assumes "\<forall>(c, w) \<in> set rs. w \<and> (\<forall>e. c = SendFailed e \<longrightarrow> e = EAGAIN \<or> e = EWOULDBLOCK)"
    and "length data \<le> sum_list (map taken_by rs)"
  shows "fst (sock_send strerror s data rs) = Some (Inr ())"
  using send_loop_completes [OF assms(1), of data 0] assms(2) by (simp add: sock_send_def)

theorem send_completes_witness:
  "fst (sock_send (\<lambda>_. []) \<lparr>sock_fd = 4, sock_protocol = TCP, sock_family = IPv4\<rparr> ''abc''
     [(Taken 2, True), (SendFailed EAGAIN, True), (Taken 1, True)]) = Some (Inr ())"
  by (rule send_completes) auto

section \<open>Addresses\<close>

text \<open>
  \<open>htons\<close> and \<open>ntohs\<close> on a little-endian machine, and the addresses the code builds: the
  parsed host, or that of any interface where \<open>bind\<close> is given none.
\<close>

definition htons :: "16 word \<Rightarrow> 16 word" where
  "htons p = push_bit 8 p OR drop_bit 8 p"

definition ntohs :: "16 word \<Rightarrow> 16 word" where
  "ntohs p = htons p"

lemma ntohs_htons [simp]: "ntohs (htons p) = p"
  unfolding ntohs_def htons_def
  by (rule bit_word_eqI) (auto simp: bit_simps)

record 'a sockaddr =
  addr_family :: family
  addr_host :: 'a
  addr_port :: "16 word"

definition invalid_address :: "family \<Rightarrow> string" where
  "invalid_address f = (case f of IPv4 \<Rightarrow> ''Invalid IPv4 address'' | IPv6 \<Rightarrow> ''Invalid IPv6 address'')"

text \<open>The address of \<open>connect\<close> and \<open>sendto\<close>; \<open>e\<close> is \<open>errno\<close> as \<open>inet_pton\<close> leaves it.\<close>

definition peer_address ::
    "(family \<Rightarrow> string \<Rightarrow> 'a option) \<Rightarrow> int \<Rightarrow> socket \<Rightarrow> string \<Rightarrow> 16 word \<Rightarrow> sock_error + 'a sockaddr" where
  "peer_address pton e s ip port =
     (case pton (sock_family s) ip of
        None \<Rightarrow> Inl (sock_err (sock_fd s) e (invalid_address (sock_family s)))
      | Some h \<Rightarrow> Inr \<lparr>addr_family = sock_family s, addr_host = h, addr_port = htons port\<rparr>)"

definition bind_address ::
    "(family \<Rightarrow> string \<Rightarrow> 'a option) \<Rightarrow> (family \<Rightarrow> 'a) \<Rightarrow> int \<Rightarrow> socket \<Rightarrow> string \<Rightarrow> 16 word \<Rightarrow> sock_error + 'a sockaddr" where
  "bind_address pton any e s ip port =
     (if ip = [] \<or> (sock_family s = IPv4 \<and> ip = ''0.0.0.0'') \<or> (sock_family s = IPv6 \<and> ip = ''::'')
      then Inr \<lparr>addr_family = sock_family s, addr_host = any (sock_family s), addr_port = htons port\<rparr>
      else peer_address pton e s ip port)"

text \<open>A system call that answers 0, or fails with an \<open>errno\<close>.\<close>

definition sys_result :: "(int \<Rightarrow> string) \<Rightarrow> socket \<Rightarrow> int option \<Rightarrow> sock_error + unit" where
  "sys_result strerror s r =
     (case r of None \<Rightarrow> Inr () | Some e \<Rightarrow> Inl (sock_err (sock_fd s) e (strerror e)))"

definition sock_bind ::
    "(int \<Rightarrow> string) \<Rightarrow> (family \<Rightarrow> string \<Rightarrow> 'a option) \<Rightarrow> (family \<Rightarrow> 'a) \<Rightarrow> int \<Rightarrow>
      ('a sockaddr \<Rightarrow> int option) \<Rightarrow> socket \<Rightarrow> string \<Rightarrow> 16 word \<Rightarrow> sock_error + unit" where
  "sock_bind strerror pton any e kernel_bind s ip port =
     and_then (bind_address pton any e s ip port) (\<lambda>a. sys_result strerror s (kernel_bind a))"

definition sock_listen :: "(int \<Rightarrow> string) \<Rightarrow> (nat \<Rightarrow> int option) \<Rightarrow> socket \<Rightarrow> nat \<Rightarrow> sock_error + unit" where
  "sock_listen strerror kernel_listen s backlog =
     (if sock_protocol s \<noteq> TCP then Inl (sock_err (sock_fd s) 0 ''Listen only supported for TCP sockets'')
      else sys_result strerror s (kernel_listen backlog))"

section \<open>Datagrams\<close>

definition sendto_turn :: "(int \<Rightarrow> string) \<Rightarrow> socket \<Rightarrow> count_reply \<Rightarrow> (sock_error + nat) option" where
  "sendto_turn strerror s r =
     (case r of
        Taken n \<Rightarrow> Some (Inr n)
      | SendFailed e \<Rightarrow>
          if e \<noteq> EAGAIN \<and> e \<noteq> EWOULDBLOCK then Some (Inl (sock_err (sock_fd s) e (strerror e))) else None)"

text \<open>What \<open>sendto\<close> passes to the kernel, and its result on the kernel's answers.\<close>

definition sock_sendto ::
    "(int \<Rightarrow> string) \<Rightarrow> (family \<Rightarrow> string \<Rightarrow> 'a option) \<Rightarrow> int \<Rightarrow> socket \<Rightarrow> string \<Rightarrow> 16 word \<Rightarrow>
      (count_reply \<times> bool) list \<Rightarrow> (sock_error + nat \<times> 'a sockaddr) option" where
  "sock_sendto strerror pton e s ip port rs =
     (if sock_protocol s \<noteq> UDP then Some (Inl (sock_err (sock_fd s) 0 ''send_to only supported for UDP sockets''))
      else (case peer_address pton e s ip port of
              Inl err \<Rightarrow> Some (Inl err)
            | Inr a \<Rightarrow> map_option (map_sum id (\<lambda>n. (n, a)))
                (wait_loop (sendto_turn strerror s) (sock_err (sock_fd s) ETIMEDOUT ''send_to timeout'') rs)))"

datatype 'a from_reply = From string "'a sockaddr" | FromFailed int

definition recvfrom_turn ::
    "(int \<Rightarrow> string) \<Rightarrow> (family \<Rightarrow> 'a \<Rightarrow> string) \<Rightarrow> socket \<Rightarrow> 'a from_reply \<Rightarrow>
      (sock_error + string \<times> string \<times> 16 word) option" where
  "recvfrom_turn strerror ntop s r =
     (case r of
        From bs a \<Rightarrow> if bs \<noteq> [] then Some (Inr (bs, ntop (sock_family s) (addr_host a), ntohs (addr_port a))) else None
      | FromFailed e \<Rightarrow>
          if e \<noteq> EAGAIN \<and> e \<noteq> EWOULDBLOCK then Some (Inl (sock_err (sock_fd s) e (strerror e))) else None)"

definition sock_recvfrom ::
    "(int \<Rightarrow> string) \<Rightarrow> (family \<Rightarrow> 'a \<Rightarrow> string) \<Rightarrow> socket \<Rightarrow> ('a from_reply \<times> bool) list \<Rightarrow>
      (sock_error + string \<times> string \<times> 16 word) option" where
  "sock_recvfrom strerror ntop s rs =
     (if sock_protocol s \<noteq> UDP then Some (Inl (sock_err (sock_fd s) 0 ''recv_from only supported for UDP sockets''))
      else wait_loop (recvfrom_turn strerror ntop s) (sock_err (sock_fd s) ETIMEDOUT ''recv_from timeout'') rs)"

lemma map_sum_eq_Inr: "map_sum f g z = Inr y \<longleftrightarrow> (\<exists>x. z = Inr x \<and> y = g x)"
  by (cases z) auto

text \<open>
  A datagram reports the address it was sent from: if one UDP socket sends to an address, and another
  of the same family receives a datagram bearing that address, \<open>recvfrom\<close> gives back the host
  and the port that \<open>sendto\<close> was given, where \<open>inet_ntop\<close> undoes \<open>inet_pton\<close> on the host.
\<close>

theorem datagram_address_round_trip:
  assumes "\<And>h. pton (sock_family s) ip = Some h \<Longrightarrow> ntop (sock_family s) h = ip"
    and "sock_protocol r = UDP" "sock_family r = sock_family s" "bs \<noteq> []"
    and "sock_sendto strerror pton e s ip port rs = Some (Inr (n, a))"
  shows "sock_recvfrom strerror ntop r ((From bs a, woken) # xs) = Some (Inr (bs, ip, port))"
proof -
  have "peer_address pton e s ip port = Inr a"
    using assms(5)
    by (auto simp: sock_sendto_def map_sum_eq_Inr split: if_splits sum.splits option.splits)
  then have "pton (sock_family s) ip = Some (addr_host a)" "addr_port a = htons port"
    by (auto simp: peer_address_def split: option.splits)
  with assms(1-4) show ?thesis by (simp add: sock_recvfrom_def recvfrom_turn_def)
qed

theorem datagram_address_round_trip_witness:
  "\<exists>a. sock_sendto (\<lambda>_. []) (\<lambda>_ ip. if ip = ''::1'' then Some (1 :: nat) else None) 0
      \<lparr>sock_fd = 4, sock_protocol = UDP, sock_family = IPv6\<rparr> ''::1'' 8080 [(SendFailed EAGAIN, True), (Taken 3, True)] =
      Some (Inr (3, a)) \<and>
    sock_recvfrom (\<lambda>_. []) (\<lambda>_ _. ''::1'') \<lparr>sock_fd = 5, sock_protocol = UDP, sock_family = IPv6\<rparr> [(From ''abc'' a, True)] =
      Some (Inr (''abc'', ''::1'', 8080))"
proof -
  let ?s = "\<lparr>sock_fd = 4, sock_protocol = UDP, sock_family = IPv6\<rparr>"
  obtain a where a: "sock_sendto (\<lambda>_. []) (\<lambda>_ ip. if ip = ''::1'' then Some (1 :: nat) else None) 0 ?s ''::1'' 8080
      [(SendFailed EAGAIN, True), (Taken 3, True)] = Some (Inr (3, a))"
    by (simp add: sock_sendto_def peer_address_def sendto_turn_def errnos)
  have "sock_recvfrom (\<lambda>_. []) (\<lambda>_ _. ''::1'') \<lparr>sock_fd = 5, sock_protocol = UDP, sock_family = IPv6\<rparr> [(From ''abc'' a, True)] =
      Some (Inr (''abc'', ''::1'', 8080))"
    by (rule datagram_address_round_trip [OF _ _ _ _ a]) (simp_all split: if_splits)
  with a show ?thesis by blast
qed

section \<open>Connecting and accepting\<close>

text \<open>A coroutine that returns a value ends with one, or by running off its end.\<close>

datatype 'a ended = Returned 'a | OffEnd

text \<open>
  \<open>connect\<close>: the answer of \<open>::connect\<close>, whether the wait ended with the event, \<open>errno\<close> after
  it, and the answer of \<open>getsockopt\<close>: an \<open>errno\<close>, or the pending error of the socket.
\<close>

definition sock_connect ::
    "(int \<Rightarrow> string) \<Rightarrow> (family \<Rightarrow> string \<Rightarrow> 'a option) \<Rightarrow> int \<Rightarrow> ('a sockaddr \<Rightarrow> int option) \<Rightarrow> bool \<Rightarrow> int \<Rightarrow> int + int \<Rightarrow>
      socket \<Rightarrow> string \<Rightarrow> 16 word \<Rightarrow> (sock_error + unit) ended" where
  "sock_connect strerror pton e kernel_connect woken errno_after sockopt s ip port =
     (case peer_address pton e s ip port of
        Inl err \<Rightarrow> Returned (Inl err)
      | Inr a \<Rightarrow>
          (case kernel_connect a of
             None \<Rightarrow> Returned (Inr ())
           | Some c \<Rightarrow>
               if sock_protocol s = UDP \<and> c = EINPROGRESS then Returned (Inr ())
               else if c \<noteq> EINPROGRESS then Returned (Inl (sock_err (sock_fd s) c (strerror c)))
               else if \<not> woken then Returned (Inl (sock_err (sock_fd s) errno_after ''connect timeout''))
               else (case sockopt of
                       Inl g \<Rightarrow> Returned (Inl (sock_err (sock_fd s) g (strerror g)))
                     | Inr status \<Rightarrow>
                         if status \<noteq> 0 then Returned (Inl (sock_err (sock_fd s) status (strerror status)))
                         else OffEnd)))"

text \<open>
  A connection that is established in the background makes \<open>connect\<close> run off the end of its
  coroutine, which is undefined where a value is to be returned: this happens exactly if the
  kernel is still connecting, the event comes in time and the socket has no pending error;
  success is returned only where the kernel connects at once, or for UDP.
\<close>

theorem connect_success_runs_off_end:
  "(sock_connect strerror pton e kernel_connect woken errno_after sockopt s ip port = OffEnd \<longleftrightarrow>
      (\<exists>a. peer_address pton e s ip port = Inr a \<and> kernel_connect a = Some EINPROGRESS) \<and>
      sock_protocol s \<noteq> UDP \<and> woken \<and> sockopt = Inr 0) \<and>
   (sock_connect strerror pton e kernel_connect woken errno_after sockopt s ip port = Returned (Inr ()) \<longleftrightarrow>
      (\<exists>a. peer_address pton e s ip port = Inr a \<and>
         (kernel_connect a = None \<or> (kernel_connect a = Some EINPROGRESS \<and> sock_protocol s = UDP))))"
  by (auto simp: sock_connect_def split: sum.splits option.splits)

text \<open>\<open>accept\<close>: what \<open>::accept\<close> returns, with \<open>errno\<close>; its wait has no timeout.\<close>

definition accept_turn :: "(int \<Rightarrow> string) \<Rightarrow> socket \<Rightarrow> int \<times> int \<Rightarrow> (sock_error + socket) option" where
  "accept_turn strerror s r =
     (if fst r > 0 then Some (Inr \<lparr>sock_fd = fst r, sock_protocol = sock_protocol s, sock_family = sock_family s\<rparr>)
      else if snd r \<noteq> EAGAIN \<and> snd r \<noteq> EWOULDBLOCK
      then Some (Inl (sock_err (sock_fd s) (snd r) (strerror (snd r))))
      else None)"

fun accept_loop :: "(int \<Rightarrow> string) \<Rightarrow> socket \<Rightarrow> (int \<times> int) list \<Rightarrow> (sock_error + socket) option" where
  "accept_loop strerror s [] = None"
| "accept_loop strerror s (r # rs) =
     (case accept_turn strerror s r of Some x \<Rightarrow> Some x | None \<Rightarrow> accept_loop strerror s rs)"

definition sock_accept :: "(int \<Rightarrow> string) \<Rightarrow> socket \<Rightarrow> (int \<times> int) list \<Rightarrow> (sock_error + socket) option" where
  "sock_accept strerror s rs =
     (if sock_protocol s \<noteq> TCP then Some (Inl (sock_err (sock_fd s) 0 ''Accept only supported for TCP sockets''))
      else accept_loop strerror s rs)"

text \<open>
  \<open>accept\<close> gives out every connection: on a TCP socket it returns the first descriptor the
  kernel has for it, with the protocol and family of the listening socket, having waited
  through every call that found none, and fails only with an \<open>errno\<close> other than that.
\<close>

theorem accept_returns_first_connection:
  assumes "sock_protocol s = TCP" "\<forall>r \<in> set rs. fst r \<le> 0 \<and> snd r = EAGAIN"
  shows "sock_accept strerror s (rs @ (fd, e) # rs') =
    (if fd > 0 then Some (Inr (s\<lparr>sock_fd := fd\<rparr>))
     else if e = EAGAIN then sock_accept strerror s rs'
     else Some (Inl (sock_err (sock_fd s) e (strerror e))))"
proof -
  have "accept_loop strerror s (rs @ ys) = accept_loop strerror s ys" for ys
    using assms(2) by (induction rs) (auto simp: accept_turn_def)
  then show ?thesis using assms(1) by (cases s) (simp add: sock_accept_def accept_turn_def errnos)
qed

theorem accept_returns_first_connection_witness:
  "sock_accept (\<lambda>_. []) \<lparr>sock_fd = 4, sock_protocol = TCP, sock_family = IPv4\<rparr> [(- 1, EAGAIN), (7, 0)] =
     Some (Inr \<lparr>sock_fd = 7, sock_protocol = TCP, sock_family = IPv4\<rparr>)"
  using accept_returns_first_connection [of "\<lparr>sock_fd = 4, sock_protocol = TCP, sock_family = IPv4\<rparr>" "[(- 1, EAGAIN)]" "\<lambda>_. []" 7 0 "[]"]
  by simp

section \<open>Sockets and their handler\<close>

text \<open>
  \<open>_set_sock_opt\<close>, which every constructor calls: it makes the descriptor non-blocking and
  registers it for errors with a function that does nothing. The answers of \<open>setsockopt\<close> are
  ignored by the code.
\<close>

datatype sock_fault = SockThrows sock_error | SockEvents event_fault

definition fd_word :: "socket \<Rightarrow> int32" where
  "fd_word s = word_of_int (sock_fd s)"

definition set_sock_opt ::
    "(int \<Rightarrow> string) \<Rightarrow> int option \<Rightarrow> (ctl \<Rightarrow> bool) \<Rightarrow> 'f \<Rightarrow> socket \<Rightarrow> 'f handler list \<Rightarrow> (sock_fault + unit) \<times> 'f handler list" where
  "set_sock_opt strerror fcntl ok nothing s hs =
     (case fcntl of
        Some e \<Rightarrow> (Inl (SockThrows (sock_err (sock_fd s) e (strerror e))), hs)
      | None \<Rightarrow>
          (case event_add ok (fd_word s) (ev_err OR ev_oneshot) nothing hs of
             (r, hs') \<Rightarrow> (map_sum SockEvents id r, hs')))"

text \<open>
  The whole of \<open>accept\<close>: the socket of the connection is constructed in the given context, which
  registers it there and may throw.
\<close>

definition sock_accept_into ::
    "(int \<Rightarrow> string) \<Rightarrow> int option \<Rightarrow> (ctl \<Rightarrow> bool) \<Rightarrow> 'f \<Rightarrow> socket \<Rightarrow> (int \<times> int) list \<Rightarrow> 'f handler list \<Rightarrow>
      (sock_fault + sock_error + socket) option \<times> 'f handler list" where
  "sock_accept_into strerror fcntl ok nothing s rs hs =
     (case sock_accept strerror s rs of
        None \<Rightarrow> (None, hs)
      | Some (Inl e) \<Rightarrow> (Some (Inr (Inl e)), hs)
      | Some (Inr c) \<Rightarrow>
          (case set_sock_opt strerror fcntl ok nothing c hs of
             (r, hs') \<Rightarrow> (Some (map_sum id (\<lambda>_. Inr c) r), hs')))"

text \<open>\<open>::socket\<close> answers a descriptor, or an \<open>errno\<close> with a negative one.\<close>

definition sock_create ::
    "(int \<Rightarrow> string) \<Rightarrow> int \<times> int \<Rightarrow> int option \<Rightarrow> (ctl \<Rightarrow> bool) \<Rightarrow> 'f \<Rightarrow> protocol \<Rightarrow> family \<Rightarrow> 'f handler list \<Rightarrow>
      (sock_fault + socket) \<times> 'f handler list" where
  "sock_create strerror answer fcntl ok nothing p f hs =
     (let s = \<lparr>sock_fd = fst answer, sock_protocol = p, sock_family = f\<rparr>
      in if fst answer < 0 then (Inl (SockThrows (sock_err (fst answer) (snd answer) (strerror (snd answer)))), hs)
         else (case set_sock_opt strerror fcntl ok nothing s hs of (r, hs') \<Rightarrow> (map_sum id (\<lambda>_. s) r, hs')))"

definition sock_close :: "socket \<Rightarrow> 'f handler list \<Rightarrow> (event_fault + unit) \<times> 'f handler list" where
  "sock_close s hs = event_del (fd_word s) hs"

text \<open>
  \<open>_wait_sock_event\<close> up to \<open>aquire\<close>: the descriptor is armed with the event's callback, and a
  timer is created with the other one if the timeout is positive.
\<close>

datatype wait_fault = WaitEvents event_fault | WaitTimers timed_fault

definition wait_sock_event ::
    "(ctl \<Rightarrow> bool) \<Rightarrow> (nat \<Rightarrow> int) \<Rightarrow> socket \<Rightarrow> event \<Rightarrow> 'f \<Rightarrow> 'g \<Rightarrow> rat \<Rightarrow> 'f handler list \<times> 'g timed \<Rightarrow>
      wait_fault + 'f handler list \<times> 'g timed" where
  "wait_sock_event ok clock s on f g ms st =
     (case event_mod ok (fd_word s) on f (fst st) of
        (Inl e, _) \<Rightarrow> Inl (WaitEvents e)
      | (Inr _, hs) \<Rightarrow>
          if ms > 0 then map_sum WaitTimers (\<lambda>t. (hs, t)) (create_timeout clock g ms (snd st))
          else Inr (hs, snd st))"

end
