(* ===== verification/Contexts.thy ===== *)
theory Contexts
  imports Scheduling Timers Events
begin

text \<open>
  \<open>Context\<close> (\<open>src/include/core/context.h\<close>, \<open>src/core/context.cpp\<close>): starting and stopping, the start
  of a worker, and one turn of its loop, which runs tasks, fires timers and polls for events,
  while other threads act on the same state between these parts.
\<close>

section \<open>Startup and shutdown\<close>

text \<open>
  \<open>_finished\<close>, for each worker whether its thread is joinable, and the number of partitions
  of the three contexts once they exist.
\<close>

record context_state =
  finished :: bool
  joinable :: "bool list"
  partitions :: "nat option"

definition new_context :: context_state where
  "new_context = \<lparr>finished = False, joinable = [], partitions = None\<rparr>"

definition restart_error :: string where
  "restart_error = ''restart context''"

definition startup :: "nat \<Rightarrow> context_state \<Rightarrow> string + context_state" where
  "startup n c =
     (if finished c then Inl restart_error
      else Inr (c\<lparr>partitions := Some n, joinable := joinable c @ replicate n True\<rparr>))"

definition shutdown :: "context_state \<Rightarrow> context_state" where
  "shutdown c = (if finished c then c else c\<lparr>finished := True, joinable := map (\<lambda>_. False) (joinable c)\<rparr>)"

datatype context_call = Startup nat | Shutdown

text \<open>A sequence of calls; one that throws changes nothing.\<close>

definition context_step :: "context_call \<Rightarrow> context_state \<Rightarrow> context_state" where
  "context_step p c =
     (case p of
        Startup n \<Rightarrow> (case startup n c of Inl _ \<Rightarrow> c | Inr c' \<Rightarrow> c')
      | Shutdown \<Rightarrow> shutdown c)"

section \<open>When to poll\<close>

text \<open>
  The decision at the end of a turn: whether anything ran, the time now, that of the next
  timer, and that of the last poll, in nanoseconds; the result is a timeout in milliseconds,
  or \<open>None\<close> for \<open>continue\<close>. \<open>duration_cast\<close> truncates.
\<close>

definition poll_decision :: "bool \<Rightarrow> int \<Rightarrow> int \<Rightarrow> int \<Rightarrow> int option" where
  "poll_decision busy now due prev =
     (if busy \<or> now \<ge> due then (if now - prev < 1000000 then None else Some 0)
      else Some (min ((due - now) div 1000000) 50))"

lemma poll_decision_bounds:
  assumes "poll_decision busy now due prev = Some t"
  shows "0 \<le> t \<and> t \<le> 50 \<and>
    (t > 0 \<longrightarrow> \<not> busy \<and> now < due \<and> now + t * 1000000 \<le> due \<and> t = min ((due - now) div 1000000) 50)"
proof (cases "busy \<or> now \<ge> due")
  case True
  with assms show ?thesis by (auto simp: poll_decision_def split: if_splits)
next
  case False
  let ?d = "(due - now) div 1000000"
  have "?d * 1000000 \<le> due - now" using div_mult_mod_eq [of "due - now" 1000000] by (simp add: minus_mod_eq_div_mult [symmetric])
  moreover have "0 \<le> ?d" using False by (simp add: pos_imp_zdiv_nonneg_iff)
  moreover have "t = min ?d 50" using False assms by (simp add: poll_decision_def)
  ultimately show ?thesis using False by auto
qed

section \<open>A worker\<close>

text \<open>
  What the workers of a context share, and \<open>last_handle_time\<close>, a local variable of each.
\<close>

record ('e, 'v, 'f, 'c) engine =
  tasks :: "('e, 'v) sched"
  clocks :: "'f timed"
  handlers :: "'c handler list"
  last_poll :: "nat \<Rightarrow> int"

datatype 'e worker_fault = TaskFault "'e fault" | TimerFault timed_fault | PollFault event_fault

definition lift_fault :: "('x \<Rightarrow> 'y) \<Rightarrow> 'x + 'a \<Rightarrow> 'y + 'a" where
  "lift_fault f r = map_sum f id r"

text \<open>
  The start of \<open>_run\<close>: \<open>EventLazySignal signal(*this, true)\<close> converts \<open>true\<close> to the partition
  index, and leaves \<open>nowait\<close> at its default.
\<close>

definition worker_start ::
    "(ctl \<Rightarrow> bool) \<Rightarrow> int32 \<Rightarrow> 'c \<Rightarrow> nat \<Rightarrow> ('e, 'v, 'f, 'c) engine \<Rightarrow>
      ('e worker_fault + lazy) \<times> ('e, 'v, 'f, 'c) engine" where
  "worker_start ok fd f pindex g =
     (case signal_new ok (of_bool True) False fd f (handlers g) of
        (Inl e, hs) \<Rightarrow> (Inl (PollFault e), g\<lparr>handlers := hs\<rparr>)
      | (Inr s, hs) \<Rightarrow>
          (case on_scheduled pindex (tasks g) of
             Inl e \<Rightarrow> (Inl (TaskFault e), g\<lparr>handlers := hs\<rparr>)
           | Inr ts \<Rightarrow> (Inr s, g\<lparr>tasks := ts, handlers := hs, clocks := on_timeout pindex (clocks g)\<rparr>)))"

text \<open>Reading the clock, which the worker does when it enters its loop.\<close>

definition read_clock :: "(nat \<Rightarrow> int) \<Rightarrow> ('e, 'v, 'f, 'c) engine \<Rightarrow> int \<times> ('e, 'v, 'f, 'c) engine" where
  "read_clock clock g = (clock (reads (clocks g)), g\<lparr>clocks := (clocks g)\<lparr>reads := Suc (reads (clocks g))\<rparr>\<rparr>)"

definition enter_loop :: "(nat \<Rightarrow> int) \<Rightarrow> nat \<Rightarrow> ('e, 'v, 'f, 'c) engine \<Rightarrow> ('e, 'v, 'f, 'c) engine" where
  "enter_loop clock w g =
     (let (now, g') = read_clock clock g in g'\<lparr>last_poll := (last_poll g')(w := now)\<rparr>)"

text \<open>The parts of a turn: tasks, timers, the expiry of the next timer, and the poll.\<close>

definition run_tasks :: "nat \<Rightarrow> ('e, 'v, 'f, 'c) engine \<Rightarrow> 'e worker_fault + (nat \<times> ('e, 'v, 'f, 'c) engine)" where
  "run_tasks w g = and_then (lift_fault TaskFault (run_scheduled w 128 (tasks g))) (\<lambda>(n, ts). Inr (n, g\<lparr>tasks := ts\<rparr>))"

definition fire_timers ::
    "(nat \<Rightarrow> int) \<Rightarrow> nat \<Rightarrow> ('e, 'v, 'f, 'c) engine \<Rightarrow> 'e worker_fault + (nat \<times> ('e, 'v, 'f, 'c) engine)" where
  "fire_timers clock w g =
     and_then (lift_fault TimerFault (run_timeout clock w 128 (clocks g))) (\<lambda>(n, tm). Inr (n, g\<lparr>clocks := tm\<rparr>))"

definition next_due :: "nat \<Rightarrow> ('e, 'v, 'f, 'c) engine \<Rightarrow> 'e worker_fault + int" where
  "next_due w g = lift_fault TimerFault (next_schedule_time w (clocks g))"

definition poll_events ::
    "(nat \<Rightarrow> int) \<Rightarrow> (int \<Rightarrow> (size_t \<times> size_t) list option) \<Rightarrow> nat \<Rightarrow> int \<Rightarrow> ('e, 'v, 'f, 'c) engine \<Rightarrow>
      'e worker_fault + (int option \<times> ('c \<times> event) list \<times> ('e, 'v, 'f, 'c) engine)" where
  "poll_events clock epoll w t g =
     (case run_handler w 128 (epoll t) (handlers g) of
        (r, hs) \<Rightarrow> and_then (lift_fault PollFault r) (\<lambda>(k, calls).
          Inr (Some t, calls, enter_loop clock w (g\<lparr>handlers := hs\<rparr>))))"

text \<open>
  One turn, with the answer of \<open>epoll_wait\<close> to its timeout; the result is the timeout used,
  and the callbacks of the events. \<open>others k\<close> is what the other threads do to the shared state in
  the \<open>k\<close>th gap between the parts of the turn.
\<close>

definition worker_turn ::
    "(nat \<Rightarrow> int) \<Rightarrow> (int \<Rightarrow> (size_t \<times> size_t) list option) \<Rightarrow> (nat \<Rightarrow> ('e, 'v, 'f, 'c) engine \<Rightarrow> ('e, 'v, 'f, 'c) engine) \<Rightarrow>
      nat \<Rightarrow> ('e, 'v, 'f, 'c) engine \<Rightarrow> 'e worker_fault + (int option \<times> ('c \<times> event) list \<times> ('e, 'v, 'f, 'c) engine)" where
  "worker_turn clock epoll others w g =
     and_then (run_tasks w g) (\<lambda>(n1, g1).
     and_then (fire_timers clock w (others 0 g1)) (\<lambda>(n2, g2).
     let (now, g3) = read_clock clock (others 1 g2); g4 = others 2 g3
     in and_then (next_due w g4) (\<lambda>due.
     case poll_decision (n1 > 0 \<or> n2 > 0) now due (last_poll g4 w) of
       None \<Rightarrow> Inr (None, [], g4)
     | Some t \<Rightarrow> poll_events clock epoll w t (others 3 g4))))"

text \<open>
  What a worker does after its loop, except for destroying the tasks that still wait, which is
  the subject of the theory of handoffs: its signal is closed and forgotten.
\<close>

definition worker_stop ::
    "lazy \<Rightarrow> nat \<Rightarrow> ('e, 'v, 'f, 'c) engine \<Rightarrow> 'e worker_fault + ('e, 'v, 'f, 'c) engine" where
  "worker_stop s pindex g =
     (case signal_close s (handlers g) of
        (r, hs) \<Rightarrow> and_then (lift_fault PollFault r) (\<lambda>_.
          and_then (lift_fault TaskFault (drop_signal pindex (tasks g))) (\<lambda>ts.
            Inr (g\<lparr>tasks := ts, handlers := hs\<rparr>))))"

section \<open>Properties\<close>

lemma lift_fault_Inr: "lift_fault f r = Inr x \<longleftrightarrow> r = Inr x"
  by (cases r) (simp_all add: lift_fault_def)

lemma lift_fault_simps [simp]: "lift_fault f (Inr x) = Inr x" "lift_fault f (Inl e) = Inl (f e)"
  by (simp_all add: lift_fault_def)

lemma run_handler_total: "hs \<noteq> [] \<Longrightarrow> \<exists>k calls. run_handler w batch es hs = (Inr (k, calls), hs)"
  by (cases "handle batch es (hs ! (w mod length hs))") (simp add: run_handler_def at_handler_def)

lemma timed_reads_inv: "timed_inv s \<Longrightarrow> timed_inv (s\<lparr>reads := k\<rparr>)"
  by (simp add: timed_inv_def pending_def)

lemma run_timeout_slots:
  assumes "run_timeout clock w batch s = Inr (k, s')"
  shows "length (slots s') = length (slots s) \<and> reads s \<le> reads s'"
proof -
  obtain j s1 where j: "own_loop batch (try_timer clock w) s = Inr (j, s1)"
    "(if j = batch then Inr (j, s1) else steal_loop (map (\<lambda>i. w + i) [0..<length (slots s)]) batch j (try_timer clock) s1) = Inr (k, s')"
    using assms by (auto simp: run_timeout_def batch_loop_def and_then_Inr)
  have "timed_leq s s1" by (rule decrease.own_loop_leq [OF j(1)])
  moreover have "timed_leq s1 s'"
    using j(2) decrease.steal_loop_leq decrease.leq_refl by (auto split: if_splits)
  ultimately show ?thesis by (auto simp: timed_leq_def)
qed

text \<open>What every thread keeps of the shared state, seen by worker \<open>w\<close> between the parts of its turn.\<close>

definition sound :: "nat \<Rightarrow> ('e, 'v, 'f, 'c) engine \<Rightarrow> bool" where
  "sound w g \<longleftrightarrow> idle_in w (tasks g) \<and> timed_inv (clocks g) \<and> slots (clocks g) \<noteq> [] \<and> handlers g \<noteq> []"

definition own_timers :: "nat \<Rightarrow> ('e, 'v, 'f, 'c) engine \<Rightarrow> 'f timer list" where
  "own_timers w g = slots (clocks g) ! (w mod length (slots (clocks g)))"

lemma run_tasks_sound:
  assumes "sound w g"
  shows "case run_tasks w g of
      Inl e \<Rightarrow> \<exists>ex. e = TaskFault (Uncaught ex)
    | Inr (n, g') \<Rightarrow> sound w g' \<and> (n = 0 \<longrightarrow> g' = g \<and> (\<forall>i < n_partition (tasks g). runq (tasks g) i = []))"
  using run_scheduled_result [of w "tasks g" 128] assms
  by (cases "run_scheduled w 128 (tasks g)") (auto simp: run_tasks_def sound_def)

lemma fire_timers_sound:
  fixes g :: "('e, 'v, 'f, 'c) engine"
  assumes "sound w g" "mono clock"
  shows "\<exists>n g'. fire_timers clock w g = Inr (n, g') \<and> sound w g' \<and>
    (n = 0 \<longrightarrow> (\<forall>q \<in> set (slots (clocks g)). \<forall>u \<in> set q. clock (reads (clocks g)) < timer_ex u))"
proof -
  obtain n tm where n: "run_timeout clock w 128 (clocks g) = Inr (n, tm)" "timed_inv tm"
    "n = 0 \<longrightarrow> (\<forall>q \<in> set (slots (clocks g)). \<forall>t \<in> set q. clock (reads (clocks g)) < timer_ex t)"
    using run_timeout_result [of "clocks g" clock 128 w] assms by (auto simp: sound_def)
  from run_timeout_slots [OF n(1)] n assms(1) show ?thesis by (auto simp: fire_timers_def sound_def)
qed

lemma read_clock_sound: "read_clock clock g = (now, g') \<Longrightarrow> sound w g \<Longrightarrow> sound w g'"
  by (auto simp: read_clock_def sound_def timed_reads_inv)

lemma enter_loop_sound: "sound w g \<Longrightarrow> sound w (enter_loop clock w g)"
  by (simp add: enter_loop_def read_clock_def sound_def timed_reads_inv)

lemma next_due_least:
  assumes "sound w g"
  obtains due where "next_due w g = Inr due" "\<And>u. u \<in> set (own_timers w g) \<Longrightarrow> due \<le> timer_ex u"
proof
  have ne: "slots (clocks g) \<noteq> []" and ok: "pq_ok (own_timers w g)"
    using assms by (auto simp: sound_def timed_inv_def own_timers_def)
  show "next_due w g = Inr (next_in (own_timers w g))"
    using next_schedule_time_slot [OF ne] by (simp add: next_due_def own_timers_def)
  show "next_in (own_timers w g) \<le> timer_ex u" if "u \<in> set (own_timers w g)" for u
    using ok that by (rule next_in_le)
qed

lemma poll_events_sound:
  assumes "sound w g"
  shows "\<exists>calls g'. poll_events clock epoll w t g = Inr (Some t, calls, g') \<and> sound w g'"
proof -
  obtain k calls where "run_handler w 128 (epoll t) (handlers g) = (Inr (k, calls), handlers g)"
    using run_handler_total [of "handlers g" w 128 "epoll t"] assms by (auto simp: sound_def)
  then show ?thesis using enter_loop_sound [OF assms] by (simp add: poll_events_def)
qed

text \<open>
  C4: A worker sleeps only when it has found nothing to do, and asks for no more time than its next
  timer leaves: with any other threads that keep the shared invariants at work between the parts of
  its turn, one turn of its loop either fails by an exception that leaves a task, or keeps the
  invariants and polls, if it does, for 0 to 50 milliseconds. If it asks for more than 0, then every run
  queue of the context was empty when it ran tasks, no timer of any partition was due when it
  began to fire timers, and it asks for the whole milliseconds, 50 at most, from the time it
  read after that to the first expiry among the timers that its own partition had when it looked,
  so that none of those expires within the timeout counted from that reading. (The wait itself
  begins later, by the time from the reading to the call, and for a timer that another thread
  adds meanwhile it relies on being woken.)
\<close>

theorem worker_sleeps_only_when_idle:
  fixes g :: "('e, 'v, 'f, 'c) engine"
  assumes "sound w g" "mono clock" "\<And>k e. sound w e \<Longrightarrow> sound w (others k e)"
  shows "case worker_turn clock epoll others w g of
      Inl e \<Rightarrow> \<exists>ex. e = TaskFault (Uncaught ex)
    | Inr (p, calls, g') \<Rightarrow> sound w g' \<and>
        (\<forall>t. p = Some t \<longrightarrow> 0 \<le> t \<and> t \<le> 50 \<and>
          (t > 0 \<longrightarrow> (\<forall>i < n_partition (tasks g). runq (tasks g) i = []) \<and>
            (\<forall>q \<in> set (slots (clocks (others 0 g))). \<forall>u \<in> set q. clock (reads (clocks (others 0 g))) < timer_ex u) \<and>
            (\<exists>g2 now g3 due. fire_timers clock w (others 0 g) = Inr (0, g2) \<and> read_clock clock (others 1 g2) = (now, g3) \<and>
               next_due w (others 2 g3) = Inr due \<and> now < due \<and> t = min ((due - now) div 1000000) 50 \<and>
               (\<forall>u \<in> set (own_timers w (others 2 g3)). now + t * 1000000 \<le> timer_ex u))))"
proof (cases "run_tasks w g")
  case (Inl e)
  then show ?thesis using run_tasks_sound [OF assms(1)] by (simp add: worker_turn_def)
next
  case (Inr r)
  then obtain n1 g1 where n1: "run_tasks w g = Inr (n1, g1)" by (cases r) simp
  with run_tasks_sound [OF assms(1)] have g1: "sound w g1"
    "n1 = 0 \<Longrightarrow> g1 = g \<and> (\<forall>i < n_partition (tasks g). runq (tasks g) i = [])" by simp_all
  obtain n2 g2 where n2: "fire_timers clock w (others 0 g1) = Inr (n2, g2)" "sound w g2"
    "n2 = 0 \<Longrightarrow> \<forall>q \<in> set (slots (clocks (others 0 g1))). \<forall>u \<in> set q. clock (reads (clocks (others 0 g1))) < timer_ex u"
    using fire_timers_sound [OF assms(3) [OF g1(1)] assms(2), of 0] by blast
  obtain now g3 where g3: "read_clock clock (others 1 g2) = (now, g3)" by fastforce
  have g4: "sound w (others 2 g3)" by (rule assms(3) [OF read_clock_sound [OF g3 assms(3) [OF n2(2)]]])
  obtain due where due: "next_due w (others 2 g3) = Inr due" "\<And>u. u \<in> set (own_timers w (others 2 g3)) \<Longrightarrow> due \<le> timer_ex u"
    using next_due_least [OF g4] by blast
  define d where "d = poll_decision (n1 > 0 \<or> n2 > 0) now due (last_poll (others 2 g3) w)"
  have turn: "worker_turn clock epoll others w g =
    (case d of None \<Rightarrow> Inr (None, [], others 2 g3) | Some t \<Rightarrow> poll_events clock epoll w t (others 3 (others 2 g3)))"
    by (simp add: worker_turn_def n1 n2(1) g3 due(1) d_def Let_def del: One_nat_def cong: option.case_cong)
  show ?thesis
  proof (cases d)
    case None
    with turn g4 show ?thesis by simp
  next
    case (Some t)
    obtain calls g' where p: "poll_events clock epoll w t (others 3 (others 2 g3)) = Inr (Some t, calls, g')" "sound w g'"
      using poll_events_sound [OF assms(3) [OF g4]] by blast
    note b = poll_decision_bounds [OF Some [unfolded d_def]]
    have "\<exists>g2 now g3 due. fire_timers clock w (others 0 g) = Inr (0, g2) \<and> read_clock clock (others 1 g2) = (now, g3) \<and>
        next_due w (others 2 g3) = Inr due \<and> now < due \<and> t = min ((due - now) div 1000000) 50 \<and>
        (\<forall>u \<in> set (own_timers w (others 2 g3)). now + t * 1000000 \<le> timer_ex u)" if t: "t > 0"
    proof -
      have "n1 = 0" "n2 = 0" "now < due" "now + t * 1000000 \<le> due" "t = min ((due - now) div 1000000) 50" using b t by auto
      moreover from this(4) have "\<forall>u \<in> set (own_timers w (others 2 g3)). now + t * 1000000 \<le> timer_ex u"
        using due(2) by (meson order_trans)
      ultimately show ?thesis using n2(1) g1(2) g3 due(1) by blast
    qed
    with b p g1(2) n2(3) show ?thesis unfolding turn Some by auto
  qed
qed

text \<open>An engine of two partitions without tasks, whose only timer is due in five milliseconds.\<close>

definition idle_engine :: "(nat, int, string, string) engine" where
  "idle_engine = \<lparr>tasks = sched_init 2,
     clocks = (timed_init 2)\<lparr>next_id := 1, slots := [[\<lparr>timer_id = 0, timer_fn = ''late'', timer_ex = 5000000\<rparr>], []]\<rparr>,
     handlers = [new_handler, new_handler], last_poll = (\<lambda>_. 0)\<rparr>"

text \<open>
  Worker 0, while another thread reads the clock in every gap, has read it twice for its timers when it
  reads 4 for the decision, and polls for the four whole milliseconds that are left.
\<close>

definition clock_read :: "nat \<Rightarrow> (nat, int, string, string) engine \<Rightarrow> (nat, int, string, string) engine" where
  "clock_read k g = g\<lparr>clocks := (clocks g)\<lparr>reads := Suc (reads (clocks g))\<rparr>\<rparr>"

theorem worker_sleeps_only_when_idle_witness:
  "\<exists>g' g2. worker_turn int (\<lambda>_. None) clock_read 0 idle_engine = Inr (Some 4, [], g') \<and>
     fire_timers int 0 (clock_read 0 idle_engine) = Inr (0, g2) \<and> fst (read_clock int (clock_read 1 g2)) = 4 \<and>
     4 + 4 * 1000000 \<le> timer_ex (hd (own_timers 0 idle_engine))"
proof -
  have inv: "timed_inv (clocks idle_engine)"
    by (simp add: idle_engine_def timed_inv_def timed_init_def pending_def pq_ok_def)
  have idle: "sound 0 idle_engine"
    using placed_init [of 2] inv by (simp add: sound_def idle_engine_def idle_in_def sched_init_def)
  have m: "mono int" by (simp add: mono_def)
  have others: "sound 0 (clock_read k e)" if "sound 0 e" for k e
    using that by (simp add: clock_read_def sound_def timed_reads_inv)
  have miss: "try_task 0 i (tasks idle_engine) = Inr (False, tasks idle_engine)" for i
    by (simp add: idle_engine_def sched_init_def try_task_def take_task_def pop_task_def slot_def)
  have "run_scheduled 0 128 (tasks idle_engine) = Inr (0, tasks idle_engine)"
    using own_loop_empty [of 128 "try_task 0 0", OF _ miss]
    by (simp add: run_scheduled_def batch_loop_def steal_loop_empty miss)
  then have s: "run_tasks 0 idle_engine = Inr (0, idle_engine)" by (simp add: run_tasks_def)
  define early where "early k = (clocks idle_engine)\<lparr>reads := k\<rparr>" for k
  define e where "e k = idle_engine\<lparr>clocks := early k\<rparr>" for k
  have wait: "try_timer int 0 (early k) = Inr (False, early (Suc k))" if "k < 4" for k
    using that by (simp add: early_def idle_engine_def try_timer_def timer_slot_def timer_pop_def pq_top_def Let_def)
  have wait1: "try_timer int (Suc 0) (early k) = Inr (False, early k)" for k
    by (simp add: early_def idle_engine_def try_timer_def timer_slot_def timer_pop_def pq_top_def Let_def)
  have "length (slots (early k)) = 2" for k by (simp add: early_def idle_engine_def timed_init_def)
  then have "run_timeout int 0 128 (early 1) = Inr (0, early 3)"
    using own_loop_empty [of 128 "try_timer int 0", OF _ wait [of 1]] wait [of 2] wait1 [of 3]
    by (simp add: run_timeout_def batch_loop_def upt_rec numeral_2_eq_2 numeral_3_eq_3)
  then have t: "fire_timers int 0 (e 1) = Inr (0, e 3)" by (simp add: fire_timers_def e_def)
  have c: "clock_read j (e k) = e (Suc k)" "read_clock int (e k) = (int k, e (Suc k))" "next_due 0 (e k) = Inr 5000000" for j k
    by (simp_all add: clock_read_def read_clock_def next_due_def next_schedule_time_def timer_slot_def e_def early_def
        idle_engine_def pq_top_def)
  have e0: "idle_engine = e 0" by (simp add: e_def early_def idle_engine_def timed_init_def)
  have p: "\<exists>g'. poll_events int (\<lambda>_. None) 0 t (e k) = Inr (Some t, [], g')" for t k
    by (simp add: poll_events_def run_handler_def at_handler_def handle_def e_def idle_engine_def)
  have o: "clock_read 0 idle_engine = e 1" "clock_read 1 (e 3) = e 4" using c(1) [of 0 0] c(1) [of 1 3] by (simp_all add: e0)
  have "worker_turn int (\<lambda>_. None) clock_read 0 idle_engine = poll_events int (\<lambda>_. None) 0 4 (e 7)"
    unfolding worker_turn_def s by (simp add: o t c poll_decision_def Let_def del: One_nat_def)
  with p obtain g' where g': "worker_turn int (\<lambda>_. None) clock_read 0 idle_engine = Inr (Some 4, [], g')" by metis
  have rd: "fire_timers int 0 (clock_read 0 idle_engine) = Inr (0, e 3)" "read_clock int (clock_read 1 (e 3)) = (4, e 5)"
    using t c(2) [of 4] by (simp_all add: o del: One_nat_def)
  from worker_sleeps_only_when_idle [where others = clock_read and epoll = "\<lambda>_. None", OF idle m others] g' rd
  have "\<forall>u \<in> set (own_timers 0 (clock_read 2 (e 5))). 4 + 4 * 1000000 \<le> timer_ex u" by (auto simp del: One_nat_def)
  then have "4 + 4 * 1000000 \<le> timer_ex (hd (own_timers 0 idle_engine))"
    by (simp add: own_timers_def clock_read_def e_def early_def idle_engine_def)
  with g' rd show ?thesis by (intro exI [of _ g'] exI [of _ "e 3"]) simp
qed

text \<open>
  A worker's signal is registered in the wrong partition: \<open>_run\<close> passes \<open>true\<close> where the
  constructor expects the partition, so that every worker registers its descriptor with the
  handler of partition 1, with \<open>nowait\<close> false; the handler that the worker itself polls is
  left as it was, unless that happens to be the same one.
\<close>

theorem worker_signal_in_partition_one:
  assumes "worker_start ok fd f w g = (Inr s, g')"
  shows "sig_pindex s = 1 \<and> \<not> sig_nowait s \<and> has_signal (clocks g') w \<and>
    signalled (tasks g') (w mod n_partition (tasks g)) \<and>
    (w mod length (handlers g) \<noteq> 1 mod length (handlers g) \<longrightarrow>
       handlers g' ! (w mod length (handlers g)) = handlers g ! (w mod length (handlers g)))"
  using assms
  by (auto simp: worker_start_def signal_new_def at_handler_def handler_add_def on_timeout_def Let_def
      on_scheduled_def and_then_Inr slot_Inr split: prod.splits sum.splits if_splits)

theorem worker_signal_in_partition_one_witness:
  "\<exists>s g'. worker_start (\<lambda>_. True) 9 ''wake'' 0 idle_engine = (Inr s, g') \<and> sig_pindex s = 1 \<and>
     handlers g' ! 0 = new_handler"
proof -
  obtain s g' where s: "worker_start (\<lambda>_. True) 9 ''wake'' 0 idle_engine = (Inr s, g')"
    by (simp add: worker_start_def signal_new_def at_handler_def handler_add_def idle_engine_def Let_def
        on_scheduled_def slot_def sched_init_def)
  from worker_signal_in_partition_one [OF s] s show ?thesis by (simp add: idle_engine_def)
qed

text \<open>
  A context can be started until it has been shut down, and shut down any number of times: after
  any calls it is finished exactly if \<open>shutdown\<close> was among them, no worker of a finished
  context is left to be joined, a later \<open>startup\<close> throws, and a later \<open>shutdown\<close> changes nothing.
\<close>

theorem context_lifecycle:
  "finished (fold context_step ps new_context) = (Shutdown \<in> set ps) \<and>
   (Shutdown \<in> set ps \<longrightarrow>
      True \<notin> set (joinable (fold context_step ps new_context)) \<and>
      startup n (fold context_step ps new_context) = Inl restart_error \<and>
      shutdown (fold context_step ps new_context) = fold context_step ps new_context)"
proof -
  have fin: "finished (fold context_step ps c) = (finished c \<or> Shutdown \<in> set ps)" for c
    by (induction ps arbitrary: c)
      (auto simp: context_step_def startup_def shutdown_def split: context_call.splits)
  have "(finished c \<longrightarrow> True \<notin> set (joinable c)) \<Longrightarrow>
      finished (fold context_step ps c) \<longrightarrow> True \<notin> set (joinable (fold context_step ps c))" for c
  proof (induction ps arbitrary: c)
    case (Cons p ps)
    have "finished (context_step p c) \<longrightarrow> True \<notin> set (joinable (context_step p c))"
      using Cons.prems by (auto simp: context_step_def startup_def shutdown_def split: context_call.splits)
    from Cons.IH [OF this] show ?case by simp
  qed simp
  from this [of new_context] fin [of new_context] show ?thesis
    by (auto simp: startup_def shutdown_def new_context_def)
qed

theorem context_lifecycle_witness:
  "joinable (fold context_step [Startup 2, Shutdown] new_context) = [False, False] \<and>
   startup 1 (fold context_step [Startup 2, Shutdown] new_context) = Inl restart_error"
proof -
  have "joinable (fold context_step [Startup 2, Shutdown] new_context) = [False, False]"
    by (simp add: context_step_def startup_def shutdown_def new_context_def numeral_2_eq_2)
  then show ?thesis using context_lifecycle [of "[Startup 2, Shutdown]" 1] by simp
qed

end
