(* ===== verification/Collect.thy ===== *)
theory Collect
  imports Scheduling
begin

text \<open>
  Whole runs: a coroutine resumed again and again until it is done, and \<open>collect\<close>
  (\<open>src/include/core/channel.h\<close>), the coroutine that awaits another one and sends what it
  returns to a channel.
\<close>

section \<open>Resuming to the end\<close>

text \<open>What a body does in all, and how it ends, when each suspension is resumed at once.\<close>

definition followed_by :: "'a list \<times> 'r \<Rightarrow> ('r \<Rightarrow> 'a list \<times> 'r) \<Rightarrow> 'a list \<times> 'r" where
  "followed_by t f = (fst t @ fst (f (snd t)), snd (f (snd t)))"

lemma followed_by_simps [simp]:
  "followed_by ([], r) f = f r"
  "followed_by (a # as, r) f = (a # fst (followed_by (as, r) f), snd (followed_by (as, r) f))"
  "fst (followed_by t f) = fst t @ fst (f (snd t))" "snd (followed_by t f) = snd (f (snd t))"
  by (simp_all add: followed_by_def)

primrec trace :: "('a, 'e, 'v) body \<Rightarrow> 'a list \<times> ('e + 'v)" where
  "trace (Return v) = ([], Inr v)"
| "trace (Throw ex) = ([], Inl ex)"
| "trace (Leaf a b) = (a # fst (trace b), snd (trace b))"
| "trace (Await c k) = followed_by (trace c) (\<lambda>r. trace (k r))"

text \<open>
  At most \<open>n\<close> calls of \<open>FrameOperator::resume\<close> on the entry \<open>e\<close>, as long as it is not done: the
  requests it made, and the exception it let escape or the value it returned. \<open>None\<close> is a
  crash, or a coroutine that is not done after \<open>n\<close> calls.
\<close>

fun resume_all :: "nat \<Rightarrow> nat \<Rightarrow> ('a, 'e, 'v::zero) store \<Rightarrow> ('a list \<times> ('e + 'v)) option" where
  "resume_all 0 e s = None"
| "resume_all (Suc n) e s =
     (case call_stack_execute e s of
        None \<Rightarrow> None
      | Some (Some ex, s') \<Rightarrow> Some ([], Inl ex)
      | Some (None, s') \<Rightarrow>
          if frame_done e s' then Some ([], Inr (cs_value s' e))
          else (case (last_request e s', resume_all n e s') of
                  (Some a, Some (as, r)) \<Rightarrow> Some (a # as, r)
                | _ \<Rightarrow> None))"

lemma run_trace:
  "(case run b of
      Done v \<Rightarrow> trace b = ([], Inr v)
    | Failed ex \<Rightarrow> trace b = ([], Inl ex)
    | Suspended a b' \<Rightarrow> trace b = (a # fst (trace b'), snd (trace b')))"
proof (induction b)
  case (Await c k)
  have k: "case run (k r) of
      Done v \<Rightarrow> trace (k r) = ([], Inr v)
    | Failed ex \<Rightarrow> trace (k r) = ([], Inl ex)
    | Suspended a b' \<Rightarrow> trace (k r) = (a # fst (trace b'), snd (trace b'))" for r
    using Await.IH(2) by blast
  show ?case
  proof (cases "run c")
    case (Done v)
    with Await.IH(1) k [of "Inr v"] show ?thesis by (auto split: outcome.splits)
  next
    case (Failed ex)
    with Await.IH(1) k [of "Inl ex"] show ?thesis by (auto split: outcome.splits)
  next
    case (Suspended a c')
    with Await.IH(1) show ?thesis by simp
  qed
qed simp_all

lemma resume_all_trace:
  assumes "suspended_as s e l b" "propagates b" "n > length (fst (trace b))"
  shows "resume_all n e s = Some (trace b)"
  using assms
proof (induction n arbitrary: s l b)
  case (Suc n)
  note res = resume_runs_body [OF Suc.prems(1,2)] and tr = run_trace [of b]
  show ?case
  proof (cases "run b")
    case (Done v)
    with res tr show ?thesis by (auto simp: finishes_def)
  next
    case (Failed ex)
    with res tr show ?thesis by (auto simp: finishes_def)
  next
    case (Suspended a b')
    with res obtain s' where s': "call_stack_execute e s = Some (None, s')" "suspended_as s' e (Some a) b'"
      by (auto simp: finishes_def)
    have "propagates b'" using Suc.prems(2) Suspended by (rule run_propagates)
    with Suc.IH [OF s'(2)] Suc.prems(3) tr Suspended have "resume_all n e s' = Some (trace b')" by simp
    with s' suspended_as_not_done [OF s'(2)] suspended_last_request [OF s'(2)] tr Suspended show ?thesis
      by (cases "trace b'") simp
  qed
qed simp

text \<open>
  A coroutine whose bodies catch no exception, resumed once more than its body suspends, makes exactly
  the requests, in order, and ends with exactly the value or the exception, that direct evaluation
  of its nested bodies gives, however deep they are. (That there is such a number is no result: a
  body is a well-founded tree, and a coroutine that suspends for ever is not one.)
\<close>

theorem resumes_run_to_the_end:
  assumes "suspended_as s e l b" "propagates b" "n > length (fst (trace b))"
  shows "resume_all n e s = Some (trace b)"
  by (rule resume_all_trace [OF assms])

theorem resumes_run_to_the_end_witness:
  "resume_all 3 0 (spawned (Await (Leaf Yield (Leaf Plain (Return 4))) (\<lambda>r. case r of Inl ex \<Rightarrow> Throw ex | Inr v \<Rightarrow> Return (v + 1))
     :: (request, nat, int) body)) = Some ([Yield, Plain], Inr 5)"
proof -
  let ?b = "Await (Leaf Yield (Leaf Plain (Return 4))) (\<lambda>r. case r of Inl ex \<Rightarrow> Throw ex | Inr v \<Rightarrow> Return (v + 1))
    :: (request, nat, int) body"
  have "resume_all 3 0 (spawned ?b) = Some (trace ?b)"
    by (rule resumes_run_to_the_end [OF suspended_spawned]) simp_all
  then show ?thesis by simp
qed

section \<open>collect\<close>

text \<open>
  The coroutine that \<open>collect\<close> spawns: \<open>send v\<close> is the coroutine \<open>chan << v\<close>, \<open>nil\<close> the value that
  stands for \<open>Nil{}\<close> where the awaited coroutine returns nothing (\<open>is_void\<close>).
\<close>

definition collect_task :: "bool \<Rightarrow> 'v \<Rightarrow> ('v \<Rightarrow> ('a, 'e, 'v) body) \<Rightarrow> ('a, 'e, 'v) body \<Rightarrow> ('a, 'e, 'v::zero) body" where
  "collect_task is_void nil send body =
     Await body (\<lambda>r. case r of
       Inl ex \<Rightarrow> Throw ex
     | Inr v \<Rightarrow> Await (send (if is_void then nil else v)) (\<lambda>r'. case r' of Inl ex \<Rightarrow> Throw ex | Inr _ \<Rightarrow> Return 0))"

definition collect ::
    "bool \<Rightarrow> 'v \<Rightarrow> ('v \<Rightarrow> (request, 'e, 'v) body) \<Rightarrow> (request, 'e, 'v) body \<Rightarrow> ('e, 'v::zero) sched \<Rightarrow> 'e fault + ('e, 'v) sched" where
  "collect is_void nil send body s = create_scheduled (collect_task is_void nil send body) s"

text \<open>
  \<open>collect\<close> sends exactly what the coroutine returns: its task first makes the requests of that
  coroutine, then those of the send of the returned value, or of \<open>Nil\<close> for none; if the
  coroutine fails, nothing is sent and the exception leaves the task.
\<close>

theorem collect_sends_result:
  assumes "propagates body" "\<And>v. propagates (send v)"
  shows "resume_all (Suc (length (fst (trace (collect_task is_void nil send body))))) 0 (spawned (collect_task is_void nil send body)) =
    (case trace body of
       (as, Inl ex) \<Rightarrow> Some (as, Inl ex)
     | (as, Inr v) \<Rightarrow>
         (case trace (send (if is_void then nil else v)) of
            (bs, Inl ex) \<Rightarrow> Some (as @ bs, Inl ex)
          | (bs, Inr _) \<Rightarrow> Some (as @ bs, Inr 0)))"
proof -
  have "propagates (collect_task is_void nil send body)"
    using assms by (simp add: collect_task_def)
  from resume_all_trace [OF suspended_spawned this, of "Suc (length (fst (trace (collect_task is_void nil send body))))"]
  have "resume_all (Suc (length (fst (trace (collect_task is_void nil send body))))) 0 (spawned (collect_task is_void nil send body)) =
      Some (trace (collect_task is_void nil send body))" by simp
  then show ?thesis unfolding collect_task_def
    by (cases "trace body") (auto simp del: resume_all.simps simp: followed_by_def split: sum.splits prod.splits)
qed

theorem collect_sends_result_witness:
  "resume_all 3 0 (spawned (collect_task False 0 (\<lambda>v. Leaf (Wait (nat v)) (Return 0)) (Leaf Yield (Return 7) :: (request, nat, int) body))) =
     Some ([Yield, Wait 7], Inr 0)"
proof -
  have "Suc (length (fst (trace (collect_task False 0 (\<lambda>v. Leaf (Wait (nat v)) (Return 0)) (Leaf Yield (Return 7) :: (request, nat, int) body))))) = 3"
    by (simp add: collect_task_def)
  with collect_sends_result [of "Leaf Yield (Return 7) :: (request, nat, int) body" "\<lambda>v. Leaf (Wait (nat v)) (Return 0)" False 0]
  show ?thesis by simp
qed

section \<open>spawn and yield\<close>

definition spawn :: "(request, 'e, 'v::zero) body \<Rightarrow> ('e, 'v) sched \<Rightarrow> 'e fault + ('e, 'v) sched" where
  "spawn b s = create_scheduled b s"

text \<open>\<open>yield\<close> awaits what \<open>Yielder\<close> returns, which suspends after setting the flag.\<close>

definition yield_coroutine :: "(request, 'e, 'v::zero) body" where
  "yield_coroutine = Leaf Yield (Return 0)"

text \<open>
  A task that awaits \<open>yield()\<close> goes to the end of its own run queue, behind every task that was runnable
  there, with the rest of its body to run, and its worker is free; nothing else of the context changes.
\<close>

theorem yield_goes_to_the_back:
  assumes "running s w = Some i" "pool s i = Some t" "fn t = Await yield_coroutine k" "n_partition s \<noteq> 0"
  shows "end_task w s = Inr (s\<lparr>running := (running s)(w := None),
      pool := (pool s)(i \<mapsto> t\<lparr>fn := Await (Return 0) k, yield_cnt := Suc (yield_cnt t)\<rparr>),
      runq := (runq s)(i mod n_partition s := runq s (i mod n_partition s) @ [i]),
      emitted := emit_signal (i mod n_partition s) s\<rparr>) \<and>
    slice (Await (Return 0) k) = slice (k (Inr 0))"
proof -
  have "slice (fn t) = Yielded (Await (Return 0) k)"
    by (simp add: assms(3) yield_coroutine_def slice.simps [of "Await _ _"])
  moreover have "slice (Await (Return 0) k) = slice (k (Inr 0))"
    by (simp add: slice.simps [of "Await _ _"] slice.simps [of "k (Inr 0)"])
  ultimately show ?thesis
    using assms by (simp add: end_task_def push_task_def slot_def emit_signal_def Let_def)
qed

theorem yield_goes_to_the_back_witness:
  "\<exists>s :: (nat, int) sched. running s 0 = Some 0 \<and> (\<exists>t. end_task 0 s = Inr t \<and> runq t 0 = [1, 0] \<and> running t 0 = None)"
proof -
  define s :: "(nat, int) sched" where "s = (sched_init 1)\<lparr>tid := 2, runq := (\<lambda>_. [])(0 := [1]), running := [0 \<mapsto> 0],
    pool := [0 \<mapsto> \<lparr>fn = Await yield_coroutine (\<lambda>_. Return 3), execute_cnt = 1, suspend_cnt = 0, yield_cnt = 0\<rparr>,
             1 \<mapsto> \<lparr>fn = Return 4, execute_cnt = 0, suspend_cnt = 0, yield_cnt = 0\<rparr>]\<rparr>"
  have s: "running s 0 = Some 0" "n_partition s = 1" "runq s 0 = [1]"
    "pool s 0 = Some \<lparr>fn = Await yield_coroutine (\<lambda>_. Return 3), execute_cnt = 1, suspend_cnt = 0, yield_cnt = 0\<rparr>"
    by (simp_all add: s_def sched_init_def)
  with yield_goes_to_the_back [OF s(1,4)] have "\<exists>t. end_task 0 s = Inr t \<and> runq t 0 = [1, 0] \<and> running t 0 = None" by simp
  with s(1) show ?thesis by blast
qed

end
