(* ===== verification/ChannelTypes.thy ===== *)
theory ChannelTypes
  imports Selects
begin

text \<open>
  Type safety of channels: \<open>TypeMsg<T>::_move\<close> casts two untyped pointers to \<open>T*\<close>, and the queues of
  \<open>BaseChannel\<close> hold messages of any type. The typing rules are those that the templates
  \<open>Channel<T>\<close> and \<open>Select::Case<T>\<close> impose on their callers; typed programs keep every variable,
  buffer and waiting message at its type, so that the casts are right, and no value that
  nobody sent is ever received.
\<close>

section \<open>Typing\<close>

text \<open>The type of a value, of a variable, and the element type of a channel.\<close>

record ('d, 't) typing =
  val_ty :: "'d \<Rightarrow> 't"
  cell_ty :: "nat \<Rightarrow> 't"
  chan_ty :: "nat \<Rightarrow> 't"

text \<open>
  What \<open>operator<<\<close> and \<open>operator>>\<close> of \<open>Channel<T>\<close> and \<open>Case<T>\<close> accept: the address of a \<open>T\<close> to send
  from; the address of a \<open>T\<close>, or nothing (\<open>Dropout\<close>), to receive into.
\<close>

definition points_to :: "('d, 't) typing \<Rightarrow> 't \<Rightarrow> nat option \<Rightarrow> bool" where
  "points_to T t p \<longleftrightarrow> (\<forall>a. p = Some a \<longrightarrow> cell_ty T a = t)"

definition sends_on :: "('d, 't) typing \<Rightarrow> nat \<Rightarrow> payload \<Rightarrow> bool" where
  "sends_on T c p \<longleftrightarrow> pointer p \<noteq> None \<and> points_to T (chan_ty T c) (pointer p)"

definition receives_on :: "('d, 't) typing \<Rightarrow> nat \<Rightarrow> payload \<Rightarrow> bool" where
  "receives_on T c p \<longleftrightarrow> points_to T (chan_ty T c) (pointer p)"

definition has_type :: "('d, 't) typing \<Rightarrow> 't \<Rightarrow> 'd option \<Rightarrow> bool" where
  "has_type T t v \<longleftrightarrow> (\<forall>x. v = Some x \<longrightarrow> val_ty T x = t)"

definition well_typed :: "('d, 't) typing \<Rightarrow> 'd world \<Rightarrow> bool" where
  "well_typed T w \<longleftrightarrow>
     (\<forall>x. val_ty T (moved_from w x) = val_ty T x) \<and> (\<forall>a. val_ty T (mem w a) = cell_ty T a) \<and>
     (\<forall>c. \<forall>x \<in> set (buffer (chans w c)). val_ty T x = chan_ty T c) \<and>
     (\<forall>c. \<forall>m \<in> set (senders (chans w c)). sends_on T c (msg w m)) \<and>
     (\<forall>c. \<forall>m \<in> set (recvers (chans w c)). receives_on T c (msg w m))"

text \<open>
  The steps of a program whose calls type-check. Between operations semaphores and selects may
  change in any way: types do not depend on them. What a move leaves has the type it had.
\<close>

inductive typed_step :: "('d, 't) typing \<Rightarrow> ('d :: zero) world \<Rightarrow> 'd world \<Rightarrow> bool" for T where
  typed_new: "unqueued w m \<Longrightarrow> typed_step T w (new_msg m p w)"
| typed_send: "sends_on T c (msg w m) \<Longrightarrow> chan_recv_from c m oneshot w = (r, w') \<Longrightarrow> typed_step T w w'"
| typed_receive: "receives_on T c (msg w m) \<Longrightarrow> chan_send_to c m oneshot w = (r, w') \<Longrightarrow> typed_step T w w'"
| typed_drop: "drop_msg m w = Some w' \<Longrightarrow> typed_step T w w'"
| typed_aquire: "typed_step T w (w\<lparr>sems := f\<rparr>)"
| typed_selected: "typed_step T w (w\<lparr>keys := k, signals := g\<rparr>)"
| typed_write: "val_ty T x = cell_ty T a \<Longrightarrow> typed_step T w (w\<lparr>mem := (mem w)(a := x)\<rparr>)"

inductive typed_reach :: "('d, 't) typing \<Rightarrow> (nat \<Rightarrow> nat) \<Rightarrow> ('d :: zero) world \<Rightarrow> bool" for T caps where
  typed_start: "(\<And>a. val_ty T (f a) = cell_ty T a) \<Longrightarrow> (\<And>x. val_ty T (mv x) = val_ty T x) \<Longrightarrow>
    typed_reach T caps ((new_world mv caps)\<lparr>mem := f\<rparr>)"
| typed_next: "typed_reach T caps w \<Longrightarrow> typed_step T w w' \<Longrightarrow> typed_reach T caps w'"

section \<open>Preservation\<close>

lemma sends_on_receives_on: "sends_on T c p \<Longrightarrow> receives_on T c p"
  by (simp add: sends_on_def receives_on_def)

lemma well_typedD:
  assumes "well_typed T w"
  shows "val_ty T (mem w a) = cell_ty T a" "x \<in> set (buffer (chans w c)) \<Longrightarrow> val_ty T x = chan_ty T c"
    "m \<in> set (senders (chans w c)) \<Longrightarrow> sends_on T c (msg w m)"
    "m \<in> set (recvers (chans w c)) \<Longrightarrow> receives_on T c (msg w m)"
    "val_ty T (moved_from w y) = val_ty T y"
  using assms unfolding well_typed_def by auto

lemma well_typed_cong: "mem w' = mem w \<Longrightarrow> msg w' = msg w \<Longrightarrow> chans w' = chans w \<Longrightarrow>
  moved_from w' = moved_from w \<Longrightarrow> well_typed T w' = well_typed T w"
  by (simp add: well_typed_def)

lemma well_typed_simps [simp]:
  "well_typed T (commit_simplex g w) = well_typed T w"
  "well_typed T (commit_multiplex s k w) = well_typed T w"
  "well_typed T (w\<lparr>msg_chan := f\<rparr>) = well_typed T w"
  "well_typed T (w\<lparr>sems := e\<rparr>) = well_typed T w"
  "well_typed T (w\<lparr>keys := i\<rparr>) = well_typed T w"
  "well_typed T (w\<lparr>keys := i, signals := h\<rparr>) = well_typed T w"
  by (simp_all add: well_typed_def)

lemma store_well_typed: "well_typed T w \<Longrightarrow> points_to T t d \<Longrightarrow> has_type T t v \<Longrightarrow> well_typed T (store d v w)"
  by (auto simp: well_typed_def points_to_def has_type_def store_def split: option.split)

lemma upd_chan_well_typed:
  assumes "well_typed T w" "\<And>x. x \<in> set (buffer (f (chans w c))) \<Longrightarrow> val_ty T x = chan_ty T c"
    "\<And>m. m \<in> set (senders (f (chans w c))) \<Longrightarrow> sends_on T c (msg w m)"
    "\<And>m. m \<in> set (recvers (f (chans w c))) \<Longrightarrow> receives_on T c (msg w m)"
  shows "well_typed T (upd_chan c f w)"
  using assms by (simp add: well_typed_def)

lemma leave_well_typed: "well_typed T w \<Longrightarrow> well_typed T (leave p w)"
  by (auto simp: well_typed_def leave_mem)

text \<open>A move between two places of one type keeps the world well typed, and so the destination.\<close>

fun place_typed :: "('d, 't) typing \<Rightarrow> 't \<Rightarrow> 'd msg_place \<Rightarrow> bool" where
  "place_typed T t (Var p) = points_to T t p"
| "place_typed T t (Local x) = (val_ty T x = t)"

lemma content_has_type: "well_typed T w \<Longrightarrow> place_typed T t src \<Longrightarrow> has_type T t (content src w)"
  by (cases src) (auto simp: has_type_def points_to_def dest: well_typedD(1))

lemma leave_place_well_typed: "well_typed T w \<Longrightarrow> well_typed T (leave_place src w)"
  by (cases src) (simp_all add: leave_well_typed)

lemma msg_move_typed:
  assumes "well_typed T w" "place_typed T t src" "\<And>d. dst = Var d \<Longrightarrow> points_to T t d"
  shows "well_typed T (snd (msg_move src dst w))"
    "dst = Local y \<Longrightarrow> content src w \<noteq> None \<Longrightarrow> \<exists>x. fst (msg_move src dst w) = Local x \<and> val_ty T x = t"
proof -
  note c = content_has_type [OF assms(1,2)]
  show "well_typed T (snd (msg_move src dst w))"
  proof (cases dst)
    case (Var d)
    have "well_typed T (store d (content src w) w)" by (rule store_well_typed [OF assms(1) assms(3) [OF Var] c])
    with assms(1) Var leave_place_well_typed [OF this, of src] show ?thesis by (simp add: msg_move.simps)
  next
    case (Local y)
    with assms(1) leave_place_well_typed [OF assms(1), of src] show ?thesis by (simp add: msg_move.simps split: option.split)
  qed
  show "\<exists>x. fst (msg_move src dst w) = Local x \<and> val_ty T x = t" if "dst = Local y" "content src w \<noteq> None"
    using that c by (auto simp: msg_move.simps has_type_def)
qed

lemma recv_from_ptr_typed:
  assumes "well_typed T w" "receives_on T c (msg w m)" "place_typed T (chan_ty T c) src"
  shows "well_typed T (snd (recv_from_ptr m src w))"
proof -
  have "well_typed T (snd (msg_move src (Var (pointer (msg w m))) w))"
    by (rule msg_move_typed(1) [OF assms(1,3)]) (use assms(2) in \<open>simp add: receives_on_def\<close>)
  with assms(1) show ?thesis by (cases "msg w m") (simp_all add: recv_from_ptr_def)
qed

lemma send_to_ptr_typed:
  assumes "well_typed T w" "sends_on T c (msg w m)" "\<And>d. dst = Var d \<Longrightarrow> points_to T (chan_ty T c) d"
  shows "well_typed T (snd (snd (send_to_ptr m dst w)))"
    "dst = Local y \<Longrightarrow> fst (send_to_ptr m dst w) = Ok \<Longrightarrow>
      \<exists>x. fst (snd (send_to_ptr m dst w)) = Local x \<and> val_ty T x = chan_ty T c"
proof -
  have p: "place_typed T (chan_ty T c) (Var (pointer (msg w m)))" "content (Var (pointer (msg w m))) w \<noteq> None"
    using assms(2) by (simp_all add: sends_on_def)
  have move: "well_typed T (snd (msg_move (Var (pointer (msg w m))) dst w))"
    by (rule msg_move_typed(1) [OF assms(1) p(1)]) (use assms(3) in blast)
  show "well_typed T (snd (snd (send_to_ptr m dst w)))"
    using move assms(1) by (cases "msg w m") (simp_all add: send_to_ptr_def split_beta)
  show "\<exists>x. fst (snd (send_to_ptr m dst w)) = Local x \<and> val_ty T x = chan_ty T c"
    if "dst = Local y" "fst (send_to_ptr m dst w) = Ok"
    using msg_move_typed(2) [OF assms(1) p(1) _ that(1) p(2)] that
    by (cases "msg w m") (simp_all add: send_to_ptr_def split_beta split: if_splits)
qed

lemma send_to_msg_typed:
  assumes "well_typed T w" "sends_on T c (msg w a)" "receives_on T c (msg w b)"
  shows "well_typed T (snd (send_to_msg a b w))"
proof -
  have p: "place_typed T (chan_ty T c) (Var (pointer (msg w a)))" "points_to T (chan_ty T c) (pointer (msg w b))"
    using assms(2,3) by (simp_all add: sends_on_def receives_on_def)
  have recv: "well_typed T (snd (recv_from_ptr b (Var (pointer (msg w a))) w))"
    by (rule recv_from_ptr_typed [OF assms(1,3) p(1)])
  have send: "well_typed T (snd (snd (send_to_ptr a (Var (pointer (msg w b))) w)))"
    by (rule send_to_ptr_typed(1) [OF assms(1,2)]) (use p(2) in simp)
  have move: "well_typed T (snd (msg_move (Var (pointer (msg w a))) (Var (pointer (msg w b))) w))"
    by (rule msg_move_typed(1) [OF assms(1) p(1)]) (use p(2) in simp)
  show ?thesis
  proof (cases "msg w a")
    case (Simplex d g)
    with recv show ?thesis by (simp add: send_to_msg_def split_beta)
  next
    case (Multiplex d s k)
    with send move assms(1) show ?thesis by (cases "msg w b") (simp_all add: send_to_msg_def split_beta)
  qed
qed

lemma buffer_send_to_typed:
  assumes "well_typed T w" "receives_on T c (msg w m)"
  shows "well_typed T (snd (buffer_send_to c m w))"
proof (cases "buffer (chans w c)")
  case (Cons x xs)
  obtain r w1 where r: "recv_from_ptr m (Local x) w = (r, w1)" by fastforce
  have w1: "well_typed T w1"
    using recv_from_ptr_typed [OF assms, of "Local x"] well_typedD(2) [OF assms(1), of x c] Cons r by (simp add: has_type_def)
  have "well_typed T (upd_chan c (\<lambda>ch. ch\<lparr>buffer := tl (buffer ch)\<rparr>) w1)"
    using well_typedD [OF w1] recv_from_ptr_frame(2) [of m "Local x" w] Cons r
    by (intro upd_chan_well_typed [OF w1]) auto
  with assms(1) w1 Cons r show ?thesis by (simp add: buffer_send_to_def)
qed (use assms in \<open>simp add: buffer_send_to_def\<close>)

lemma buffer_recv_from_typed:
  assumes "well_typed T w" "sends_on T c (msg w m)"
  shows "well_typed T (snd (buffer_recv_from c m w))"
proof -
  obtain r x w1 where s: "send_to_ptr m (Local 0) w = (r, x, w1)" by (cases "send_to_ptr m (Local 0) w")
  have w1: "well_typed T w1" "r = Ok \<Longrightarrow> \<exists>y. x = Local y \<and> val_ty T y = chan_ty T c"
    using send_to_ptr_typed [OF assms, of "Local 0"] s by simp_all
  show ?thesis
  proof (cases "r = Ok")
    case True
    with w1 well_typedD [OF w1(1)] assms(1) s show ?thesis
      by (auto simp: buffer_recv_from_def intro!: upd_chan_well_typed)
  qed (use assms(1) w1(1) s in \<open>simp add: buffer_recv_from_def\<close>)
qed

lemma set_senders_typed: "well_typed T w \<Longrightarrow> \<forall>m \<in> set q. sends_on T c (msg w m) \<Longrightarrow> well_typed T (set_senders c q w)"
  unfolding set_senders_def by (rule upd_chan_well_typed) (auto dest: well_typedD)

lemma set_recvers_typed: "well_typed T w \<Longrightarrow> \<forall>m \<in> set q. receives_on T c (msg w m) \<Longrightarrow> well_typed T (set_recvers c q w)"
  unfolding set_recvers_def by (rule upd_chan_well_typed) (auto dest: well_typedD)

lemma refill_buffer_typed:
  "well_typed T w \<Longrightarrow> \<forall>m \<in> set q. sends_on T c (msg w m) \<Longrightarrow> well_typed T (refill_buffer c q w)"
proof (induction q arbitrary: w)
  case (Cons m q)
  let ?r = "buffer_recv_from c m (set_senders c q w)"
  have "well_typed T (snd ?r)" "msg (snd ?r) = msg w"
    using buffer_recv_from_typed [OF set_senders_typed, of T w q c c m] Cons.prems by simp_all
  with Cons.IH [of "snd ?r"] Cons.prems(2) show ?case by (cases ?r) simp
qed simp

lemma drain_buffer_typed:
  "well_typed T w \<Longrightarrow> \<forall>m \<in> set q. receives_on T c (msg w m) \<Longrightarrow> well_typed T (drain_buffer c q w)"
proof (induction q arbitrary: w)
  case (Cons m q)
  let ?r = "buffer_send_to c m (set_recvers c q w)"
  have "well_typed T (snd ?r)" "msg (snd ?r) = msg w"
    using buffer_send_to_typed [OF set_recvers_typed, of T w q c c m] Cons.prems by simp_all
  with Cons.IH [of "snd ?r"] Cons.prems(2) show ?case by (cases ?r) simp
qed simp

lemma take_from_senders_typed:
  assumes "well_typed T w" "receives_on T c (msg w dst)" "\<forall>m \<in> set q. sends_on T c (msg w m)"
  shows "well_typed T (snd (take_from_senders c dst q w)) \<and> msg (snd (take_from_senders c dst q w)) = msg w"
  using assms
proof (induction q arbitrary: w)
  case (Cons m q)
  let ?r = "send_to_msg m dst w"
  have r: "well_typed T (snd ?r)" "msg (snd ?r) = msg w" using send_to_msg_typed [of T w c m dst] Cons.prems by simp_all
  have "well_typed T (set_senders c q (snd ?r))" using r Cons.prems by (intro set_senders_typed) simp_all
  with Cons r show ?case by (cases ?r) (simp split: sum.split transfer.split)
qed simp

lemma give_to_recvers_typed:
  assumes "well_typed T w" "sends_on T c (msg w src)" "\<forall>m \<in> set q. receives_on T c (msg w m)"
  shows "well_typed T (snd (give_to_recvers c src q w)) \<and> msg (snd (give_to_recvers c src q w)) = msg w"
  using assms
proof (induction q arbitrary: w)
  case (Cons m q)
  let ?r = "send_to_msg src m w"
  have r: "well_typed T (snd ?r)" "msg (snd ?r) = msg w" using send_to_msg_typed [of T w c src m] Cons.prems by simp_all
  have "well_typed T (set_recvers c q (snd ?r))" using r Cons.prems by (intro set_recvers_typed) simp_all
  with Cons r show ?case by (cases ?r) (simp split: sum.split transfer.split)
qed simp

lemma chan_send_to_typed:
  assumes "well_typed T w" "receives_on T c (msg w dst)"
  shows "well_typed T (snd (chan_send_to c dst oneshot w))"
proof -
  let ?w = "w\<lparr>msg_chan := (msg_chan w)(dst := Some c)\<rparr>"
  obtain ok w1 where b: "buffer_send_to c dst ?w = (ok, w1)" by fastforce
  have w1: "well_typed T w1" "msg w1 = msg w"
    using buffer_send_to_typed [of T ?w c dst] buffer_send_to_frame(4) [of c dst ?w] assms b by simp_all
  have q: "\<forall>m \<in> set (senders (chans w1 c)). sends_on T c (msg w1 m)" using well_typedD(3) [OF w1(1)] by blast
  obtain r w2 where t: "take_from_senders c dst (senders (chans w1 c)) w1 = (r, w2)" by fastforce
  have w2: "well_typed T w2" "msg w2 = msg w"
    using take_from_senders_typed [OF w1(1) _ q, of dst] assms(2) w1(2) t by simp_all
  have "well_typed T (set_recvers c (recvers (chans w2 c) @ [dst]) w2)"
    using well_typedD(4) [OF w2(1), of _ c] assms(2) w2(2) by (intro set_recvers_typed [OF w2(1)]) auto
  with refill_buffer_typed [OF w1(1) q] w2(1) b t show ?thesis
    by (simp add: chan_send_to_def split: sum.split option.split bool.split)
qed

lemma chan_recv_from_typed:
  assumes "well_typed T w" "sends_on T c (msg w src)"
  shows "well_typed T (snd (chan_recv_from c src oneshot w))"
proof -
  let ?w = "w\<lparr>msg_chan := (msg_chan w)(src := Some c)\<rparr>"
  obtain ok w1 where b: "buffer_recv_from c src ?w = (ok, w1)" by fastforce
  have w1: "well_typed T w1" "msg w1 = msg w"
    using buffer_recv_from_typed [of T ?w c src] buffer_recv_from_frame(4) [of c src ?w] assms b by simp_all
  have q: "\<forall>m \<in> set (recvers (chans w1 c)). receives_on T c (msg w1 m)" using well_typedD(4) [OF w1(1)] by blast
  obtain r w2 where t: "give_to_recvers c src (recvers (chans w1 c)) w1 = (r, w2)" by fastforce
  have w2: "well_typed T w2" "msg w2 = msg w"
    using give_to_recvers_typed [OF w1(1) _ q, of src] assms(2) w1(2) t by simp_all
  have "well_typed T (set_senders c (senders (chans w2 c) @ [src]) w2)"
    using well_typedD(3) [OF w2(1), of _ c] assms(2) w2(2) by (intro set_senders_typed [OF w2(1)]) auto
  with drain_buffer_typed [OF w1(1) q] w2(1) b t show ?thesis
    by (simp add: chan_recv_from_def split: sum.split option.split bool.split)
qed

lemma drop_msg_typed: "well_typed T w \<Longrightarrow> drop_msg m w = Some w' \<Longrightarrow> well_typed T w'"
proof -
  assume w: "well_typed T w" and "drop_msg m w = Some w'"
  then obtain c where "w' = upd_chan c (\<lambda>ch. ch\<lparr>senders := remove1 m (senders ch), recvers := remove1 m (recvers ch)\<rparr>) w"
    by (auto simp: drop_msg_def split: option.splits)
  moreover have "well_typed T (upd_chan c (\<lambda>ch. ch\<lparr>senders := remove1 m (senders ch), recvers := remove1 m (recvers ch)\<rparr>) w)"
    by (rule upd_chan_well_typed [OF w])
      (use well_typedD [OF w] in \<open>auto dest: set_remove1_subset [THEN subsetD]\<close>)
  ultimately show ?thesis by simp
qed

lemma new_msg_typed: "well_typed T w \<Longrightarrow> unqueued w m \<Longrightarrow> well_typed T (new_msg m p w)"
  by (auto simp: well_typed_def new_msg_def unqueued_def)

lemma typed_step_preserves: "typed_step T w w' \<Longrightarrow> well_typed T w \<Longrightarrow> well_typed T w'"
proof (induction rule: typed_step.induct)
  case (typed_send c w m oneshot r w')
  then show ?case using chan_recv_from_typed [of T w c m oneshot] by simp
next
  case (typed_receive c w m oneshot r w')
  then show ?case using chan_send_to_typed [of T w c m oneshot] by simp
next
  case (typed_write x a w)
  then show ?case by (simp add: well_typed_def)
qed (auto intro: new_msg_typed drop_msg_typed)

lemma typed_reach_well_typed: "typed_reach T caps w \<Longrightarrow> well_typed T w"
proof (induction rule: typed_reach.induct)
  case (typed_start f)
  then show ?case by (simp add: well_typed_def new_world_def new_chan_def)
qed (rule typed_step_preserves)

text \<open>
  C12: Channels are type-safe: in a program whose calls satisfy the template types, in every
  reachable state, whatever mixture of plain operations, select cases and departures led to it,
  each variable holds a value of its type and each buffer values of its channel's type; and each
  waiting sender points to a variable of the channel's type, each waiting receiver to one
  or to nothing. So both casts of \<open>_move\<close> are right in every transfer between any two of them.
\<close>

theorem channels_are_type_safe:
  assumes "typed_reach T caps w"
  shows "val_ty T (mem w a) = cell_ty T a \<and>
    (\<forall>x \<in> set (buffer (chans w c)). val_ty T x = chan_ty T c) \<and>
    (\<forall>m \<in> set (senders (chans w c)). \<exists>b. pointer (msg w m) = Some b \<and> cell_ty T b = chan_ty T c) \<and>
    (\<forall>m \<in> set (recvers (chans w c)). \<forall>b. pointer (msg w m) = Some b \<longrightarrow> cell_ty T b = chan_ty T c)"
proof -
  note w = well_typedD [OF typed_reach_well_typed [OF assms]]
  have "\<exists>b. pointer (msg w m) = Some b \<and> cell_ty T b = chan_ty T c" if "m \<in> set (senders (chans w c))" for m
    using w(3) [OF that] by (auto simp: sends_on_def points_to_def)
  with w show ?thesis by (simp add: receives_on_def points_to_def)
qed

text \<open>
  Two types, negative and other integers: variables and channels below 10 are of the second.
\<close>

definition sign_types :: "(int, bool) typing" where
  "sign_types = \<lparr>val_ty = (\<lambda>x. x < 0), cell_ty = (\<lambda>a. a \<ge> 10), chan_ty = (\<lambda>c. c \<ge> 10)\<rparr>"

definition typed_demo :: "int world" where
  "typed_demo = snd (chan_recv_from 12 5 False (new_msg 5 (Simplex (Some 15) (Some 2))
     ((new_world id (\<lambda>_. 1))\<lparr>mem := (\<lambda>a. if a \<ge> 10 then -7 else 0)\<rparr>)))"

lemma typed_demo_reach: "typed_reach sign_types (\<lambda>_. 1) typed_demo"
proof -
  let ?w0 = "(new_world id (\<lambda>_. 1))\<lparr>mem := (\<lambda>a. if a \<ge> 10 then -7 else 0)\<rparr> :: int world"
  let ?w1 = "new_msg 5 (Simplex (Some 15) (Some 2)) ?w0"
  have w0: "typed_reach sign_types (\<lambda>_. 1) ?w0" by (rule typed_start) (simp_all add: sign_types_def)
  have w1: "typed_reach sign_types (\<lambda>_. 1) ?w1"
    by (rule typed_next [OF w0 typed_new]) (simp add: unqueued_def new_world_def new_chan_def)
  have p: "sends_on sign_types 12 (msg ?w1 5)"
    by (simp add: sends_on_def points_to_def sign_types_def new_msg_def)
  show ?thesis unfolding typed_demo_def
    by (rule typed_next [OF w1 typed_send [where oneshot = False, OF p prod.collapse [symmetric]]])
qed

theorem channels_are_type_safe_witness:
  "buffer (chans typed_demo 12) = [-7] \<and> val_ty sign_types (-7) = chan_ty sign_types 12"
  using channels_are_type_safe [OF typed_demo_reach, of 0 12]
  by (simp add: typed_demo_def chan_defs new_world_def)

section \<open>Selects\<close>

text \<open>
  Running the listeners of a select whose cases type-check, and leaving it, keep the world
  well typed, whatever the shuffle.
\<close>

definition case_typed :: "('d, 't) typing \<Rightarrow> listener \<Rightarrow> bool" where
  "case_typed T l \<longleftrightarrow> cell_ty T (l_data l) = chan_ty T (l_chan l)"

lemma run_listener_typed:
  assumes "well_typed T w" "unqueued w (l_msg l)" "case_typed T l"
  shows "well_typed T (snd (run_listener s l w))"
proof -
  let ?w = "new_msg (l_msg l) (Multiplex (Some (l_data l)) s (l_key l)) w"
  have w: "well_typed T ?w" by (rule new_msg_typed [OF assms(1,2)])
  have p: "sends_on T (l_chan l) (msg ?w (l_msg l))"
    using assms(3) by (simp add: sends_on_def points_to_def case_typed_def new_msg_def)
  show ?thesis
    using chan_recv_from_typed [OF w p] chan_send_to_typed [OF w sends_on_receives_on [OF p]]
    by (cases "l_dir l") (simp_all add: run_listener_def Let_def)
qed

lemma run_listeners_typed:
  assumes "well_typed T w" "tidy w" "distinct (map l_msg ls)" "\<forall>l \<in> set ls. unqueued w (l_msg l) \<and> case_typed T l"
    "run_listeners s ls ms w = (e, ms', w')"
  shows "well_typed T w'"
  using assms
proof (induction ls arbitrary: w ms)
  case (Cons l ls)
  obtain r w1 where r: "run_listener s l w = (r, w1)" by fastforce
  have t: "well_typed T w1" using run_listener_typed [of T w l s] Cons.prems(1,4) r by simp
  have u: "tidy w1" "\<forall>x \<in> set ls. unqueued w1 (l_msg x) \<and> case_typed T x"
    using run_listener_tidy [OF Cons.prems(2) _ r] Cons.prems(3,4) by (auto simp: image_iff)
  from Cons.IH [OF t u(1) _ u(2), of "ms @ [l_msg l]"] Cons.prems(3,5) r t show ?case
    by (auto split: sum.splits if_splits)
qed simp

theorem select_start_typed:
  assumes "well_typed T w" "tidy w" "distinct (map l_msg order)"
    "\<forall>l \<in> set order. unqueued w (l_msg l) \<and> case_typed T l" "select_start sel order w = (e, sel', w')"
  shows "well_typed T w'"
  using run_listeners_typed [OF assms(1-4), of "sel_id sel" "sel_msgs sel"] assms(5)
  by (auto simp: select_start_def split: prod.splits)

lemma drop_all_typed: "well_typed T w \<Longrightarrow> drop_all ms w = Some w' \<Longrightarrow> well_typed T w'"
proof (induction ms arbitrary: w)
  case (Cons m ms)
  then obtain w1 where "drop_msg m w = Some w1" "drop_all ms w1 = Some w'" by (auto split: option.splits)
  with Cons drop_msg_typed show ?case by blast
qed simp

theorem select_end_typed:
  assumes "well_typed T w" "select_end sel w = Some (k, sel', w')"
  shows "well_typed T w'"
proof -
  obtain v where "drop_all (sel_msgs sel) v = Some w'" "mem v = mem w" "msg v = msg w" "chans v = chans w"
    "moved_from v = moved_from w"
  proof (cases "default_key sel = INT_MIN")
    case True
    with assms(2) that [of "w\<lparr>signals := (signals w)(sel_id sel := signals w (sel_id sel) - 1)\<rparr>"] show ?thesis
      by (auto simp: select_end_def select_drop_def Let_def split: if_splits)
  next
    case False
    with assms(2) that [of w] that [of "w\<lparr>keys := (keys w)(sel_id sel := default_key sel)\<rparr>"] show ?thesis
      by (auto simp: select_end_def select_drop_def Let_def split: if_splits)
  qed
  with drop_all_typed well_typed_cong assms(1) show ?thesis by metis
qed

end
