(* ===== verification/ChannelWakeups.thy ===== *)
theory ChannelWakeups
  imports ChannelFifo
begin

text \<open>
  Who is awake: coroutines that send and receive on any number of channels, each blocked on the
  semaphore of its own message. A coroutine sleeps exactly as long as its message waits in a queue,
  is released exactly once, and no channel has both a sender and a receiver waiting. (With selects
  this fails: see the theory of races of selects.)
\<close>

section \<open>Calls\<close>

text \<open>
  The calls in progress: the message of each, which is a local variable of the coroutine, and the
  semaphore it is blocked on, another one. \<open>Nowait\<close> sends do not block.
\<close>

inductive call_step ::
    "('d :: zero) world \<times> (nat \<rightharpoonup> nat) \<Rightarrow> 'd world \<times> (nat \<rightharpoonup> nat) \<Rightarrow> bool" where
  call_send: "m \<notin> dom P \<Longrightarrow> g \<notin> ran P \<Longrightarrow> channel_send c m x g w = (r, w') \<Longrightarrow> call_step (w, P) (w', P(m \<mapsto> g))"
| call_receive: "m \<notin> dom P \<Longrightarrow> g \<notin> ran P \<Longrightarrow> channel_receive c m d g w = (r, w') \<Longrightarrow> call_step (w, P) (w', P(m \<mapsto> g))"
| call_nowait: "m \<notin> dom P \<Longrightarrow> channel_nowait_send c m x w = (b, w') \<Longrightarrow> call_step (w, P) (w', P)"
| call_finish: "P m = Some g \<Longrightarrow> channel_finish m g w = Some w' \<Longrightarrow> call_step (w, P) (w', P(m := None))"
| call_write: "call_step (w, P) (w\<lparr>mem := (mem w)(a := y)\<rparr>, P)"

inductive call_reach :: "(nat \<Rightarrow> nat) \<Rightarrow> ('d :: zero) world \<Rightarrow> (nat \<rightharpoonup> nat) \<Rightarrow> bool" for caps where
  calls_none: "call_reach caps (new_world mv caps) Map.empty"
| calls_step: "call_reach caps w P \<Longrightarrow> call_step (w, P) (w', P') \<Longrightarrow> call_reach caps w' P'"

section \<open>What an operation does to queues and semaphores\<close>

text \<open>
  At most one waiting message leaves, from the front of a queue; it and the operation's own
  message, unless that is queued, have their semaphores released.
\<close>

lemma send_effect:
  assumes "plain c w" "msg w m = Simplex (Some x) g" "chan_recv_from c m oneshot w = (res, w')"
  shows "plain c w' \<and>
    (sems w' = sems w \<and> senders (chans w' c) = senders (chans w c) @ (if oneshot then [] else [m]) \<and> recvers (chans w' c) = recvers (chans w c) \<and> res \<noteq> Inr CReady \<or>
     sems w' = released g (sems w) \<and> senders (chans w' c) = senders (chans w c) \<and> recvers (chans w' c) = recvers (chans w c) \<and> res = Inr CReady \<or>
     (\<exists>r q d gd. recvers (chans w c) = r # q \<and> msg w r = Simplex d gd \<and> sems w' = released g (released gd (sems w)) \<and>
        senders (chans w' c) = senders (chans w c) \<and> recvers (chans w' c) = q \<and> res = Inr CReady))"
proof -
  have m: "msg w' = msg w" "capacity (chans w' c) = capacity (chans w c)"
    using operation_msg(1) [of c m oneshot w] operation_capacity(1) [of c m oneshot w c] assms(3) by simp_all
  show ?thesis
  proof (cases "recvers (chans w c)")
    case Nil
    have "(sems w' = sems w \<and> senders (chans w' c) = senders (chans w c) @ (if oneshot then [] else [m]) \<and> recvers (chans w' c) = [] \<and>
          res \<noteq> Inr CReady \<and> buffer (chans w' c) = buffer (chans w c) \<and> length (buffer (chans w c)) = capacity (chans w c) \<or>
        sems w' = released g (sems w) \<and> senders (chans w' c) = senders (chans w c) \<and> recvers (chans w' c) = [] \<and> res = Inr CReady \<and>
          buffer (chans w' c) = buffer (chans w c) @ [mem w x] \<and> length (buffer (chans w c)) \<noteq> capacity (chans w c))"
      using assms(2,3) Nil by (auto simp: chan_defs released_def split: option.splits if_splits)
    with assms(1,2) m Nil show ?thesis by (auto simp: plain_def)
  next
    case (Cons r q)
    then have empty: "buffer (chans w c) = []" "senders (chans w c) = []" using assms(1) by (simp_all add: plain_def)
    obtain d gd where r: "msg w r = Simplex d gd"
      using assms(1) Cons by (auto simp: plain_def elim: plain_msgE)
    from send_to_waiting [OF Cons empty(1) r assms(2,3)] r m assms(1) Cons empty show ?thesis
      by (auto simp: plain_def)
  qed
qed

lemma receive_effect:
  assumes "plain c w" "msg w m = Simplex d g" "chan_send_to c m False w = (res, w')"
  shows "plain c w' \<and>
    (sems w' = sems w \<and> senders (chans w' c) = senders (chans w c) \<and> recvers (chans w' c) = recvers (chans w c) @ [m] \<or>
     sems w' = released g (sems w) \<and> senders (chans w' c) = senders (chans w c) \<and> recvers (chans w' c) = recvers (chans w c) \<or>
     (\<exists>s q x gs. senders (chans w c) = s # q \<and> msg w s = Simplex (Some x) gs \<and> sems w' = released gs (released g (sems w)) \<and>
        senders (chans w' c) = q \<and> recvers (chans w' c) = recvers (chans w c)))"
proof -
  have m: "msg w' = msg w" "capacity (chans w' c) = capacity (chans w c)"
    using operation_msg(2) [of c m False w] operation_capacity(2) [of c m False w c] assms(3) by simp_all
  show ?thesis
  proof (cases "senders (chans w c)")
    case Nil
    show ?thesis
    proof (cases "buffer (chans w c)")
      case b: Nil
      from receive_no_contents [OF b Nil assms(3)] m assms(1,2) Nil b show ?thesis by (auto simp: plain_def)
    next
      case (Cons v vs)
      from receive_only_buffer [OF Cons Nil assms(2,3)] m assms(1) Nil Cons show ?thesis by (auto simp: plain_def)
    qed
  next
    case (Cons s q)
    obtain x gs where s: "msg w s = Simplex (Some x) gs"
      using assms(1) Cons by (fastforce simp: plain_def elim: plain_msgE)
    have full: "length (buffer (chans w c)) = capacity (chans w c)" "recvers (chans w c) = []"
      using assms(1) Cons by (auto simp: plain_def)
    have "sems w' = released gs (released g (sems w)) \<and> senders (chans w' c) = q \<and> recvers (chans w' c) = [] \<and>
        length (buffer (chans w' c)) = length (buffer (chans w c))"
    proof (cases "buffer (chans w c)")
      case Nil
      from receive_from_sender [OF Nil Cons s assms(2,3)] Nil full show ?thesis by simp
    next
      case b: (Cons v vs)
      with assms(2,3) s Cons full show ?thesis by (auto simp: chan_defs released_def split: option.splits)
    qed
    with s m assms(1) Cons full show ?thesis by (auto simp: plain_def)
  qed
qed

text \<open>Both operations keep the queues of other channels, and queues tidy.\<close>

lemma operation_queues:
  assumes "unqueued w m" "w' = snd (chan_recv_from c m oneshot w) \<or> w' = snd (chan_send_to c m oneshot w)"
  shows "(d \<noteq> c \<longrightarrow> chans w' d = chans w d) \<and> msg w' = msg w \<and> (tidy w \<longrightarrow> tidy w') \<and>
    msg_chan w' = (msg_chan w)(m := Some c)"
proof -
  have "chan_step (\<lambda>_. True) w w'"
    using assms step_send [OF assms(1), of "\<lambda>_. True" c oneshot _ w'] step_receive [OF assms(1), of "\<lambda>_. True" c oneshot _ w']
    by (metis prod.collapse)
  then have "tidy w \<longrightarrow> tidy w'" using tidy_step by blast
  moreover obtain r1 w1 r2 w2 where
    s: "chan_recv_from c m oneshot w = (r1, w1)" "chan_send_to c m oneshot w = (r2, w2)" by fastforce
  then have "msg_chan w' = (msg_chan w)(m := Some c)"
    using assms(2) send_shrinks [OF s(1)] receive_shrinks [OF s(2)]
    by (auto simp: shrink_leq_def set_senders_def set_recvers_def split: if_splits)
  ultimately show ?thesis using operation_frame [of w c m oneshot] assms(2) by (auto simp: frame_leq_def)
qed

section \<open>Invariant\<close>

definition waits_in :: "('d :: zero) world \<Rightarrow> nat \<Rightarrow> bool" where
  "waits_in w m \<longleftrightarrow> (\<exists>c. m \<in> set (senders (chans w c)) \<union> set (recvers (chans w c)))"

definition calls_inv :: "('d :: zero) world \<Rightarrow> (nat \<rightharpoonup> nat) \<Rightarrow> bool" where
  "calls_inv w P \<longleftrightarrow> tidy w \<and> (\<forall>c. plain c w) \<and> (\<forall>m. waits_in w m \<longrightarrow> m \<in> dom P) \<and> inj_on P (dom P) \<and>
     (\<forall>m g. P m = Some g \<longrightarrow> (\<exists>d. msg w m = Simplex d (Some g)) \<and> sems w g = (if waits_in w m then 0 else 1) \<and>
        msg_chan w m \<noteq> None)"

lemma waits_in_unqueued: "waits_in w m \<longleftrightarrow> \<not> unqueued w m"
  by (auto simp: waits_in_def unqueued_def)

lemma calls_invD:
  assumes "calls_inv w P"
  shows "tidy w" "plain c w" "waits_in w m \<Longrightarrow> \<exists>g. P m = Some g" "P m = Some g \<Longrightarrow> P i = Some g \<Longrightarrow> m = i"
    "P m = Some g \<Longrightarrow> \<exists>d. msg w m = Simplex d (Some g)" "P m = Some g \<Longrightarrow> sems w g = (if waits_in w m then 0 else 1)"
    "P m = Some g \<Longrightarrow> msg_chan w m \<noteq> None"
  using assms unfolding calls_inv_def by (blast, blast, blast, (metis domI inj_onD), blast, blast, blast)

text \<open>
  An operation with message \<open>m\<close> and semaphore \<open>g\<close> (\<open>None\<close> for \<open>Nowait\<close>) that leaves the queued messages
  \<open>W'\<close> and releases the semaphores of those that left: the calls keep their invariant.
\<close>

lemma calls_inv_operation:
  assumes inv: "calls_inv w P" and m: "m \<notin> dom P"
    and tidy': "tidy w'" and plain': "\<And>c. plain c w'" and msgs: "\<And>i. i \<noteq> m \<Longrightarrow> msg w' i = msg w i"
    and chan': "\<And>i. i \<noteq> m \<Longrightarrow> msg_chan w' i = msg_chan w i"
    and waits: "\<And>i. waits_in w' i \<Longrightarrow> i \<noteq> m \<Longrightarrow> waits_in w i"
    and others: "\<And>i h. P i = Some h \<Longrightarrow> sems w' h = (if waits_in w i \<and> \<not> waits_in w' i then Suc (sems w h) else sems w h)"
  shows "\<not> waits_in w' m \<Longrightarrow> calls_inv w' P"
    "(\<exists>d. msg w' m = Simplex d (Some g)) \<Longrightarrow> g \<notin> ran P \<Longrightarrow> sems w' g = (if waits_in w' m then 0 else 1) \<Longrightarrow> msg_chan w' m \<noteq> None \<Longrightarrow>
       calls_inv w' (P(m \<mapsto> g))"
proof -
  have keep: "(\<exists>d. msg w' i = Simplex d (Some h)) \<and> sems w' h = (if waits_in w' i then 0 else 1) \<and> msg_chan w' i \<noteq> None"
    if "P i = Some h" for i h
  proof -
    have i: "i \<noteq> m" using that m by auto
    from calls_invD(5-7) [OF inv that] others [OF that] waits [OF _ i] msgs [OF i] chan' [OF i] show ?thesis by auto
  qed
  have dom: "i \<in> dom P" if "waits_in w' i" "i \<noteq> m" for i using calls_invD(3) [OF inv waits [OF that]] by blast
  have inj: "inj_on P (dom P)" using inv by (simp add: calls_inv_def)
  show "calls_inv w' P" if "\<not> waits_in w' m"
    unfolding calls_inv_def using tidy' plain' keep dom inj that by metis
  show "calls_inv w' (P(m \<mapsto> g))"
    if "\<exists>d. msg w' m = Simplex d (Some g)" "g \<notin> ran P" "sems w' g = (if waits_in w' m then 0 else 1)" "msg_chan w' m \<noteq> None"
    unfolding calls_inv_def
  proof (intro conjI allI impI)
    show "inj_on (P(m \<mapsto> g)) (dom (P(m \<mapsto> g)))"
      using inj that(2) by (auto simp: inj_on_def ran_def split: if_splits)
  next
    fix i assume "waits_in w' i"
    then show "i \<in> dom (P(m \<mapsto> g))" using dom by (cases "i = m") auto
  next
    fix i h assume "(P(m \<mapsto> g)) i = Some h"
    then show "\<exists>d. msg w' i = Simplex d (Some h)" "sems w' h = (if waits_in w' i then 0 else 1)" "msg_chan w' i \<noteq> None"
      using that keep [of i h] by (cases "i = m"; simp)+
  qed (use tidy' plain' in auto)
qed

definition queue_set :: "nat \<Rightarrow> ('d :: zero) world \<Rightarrow> nat set" where
  "queue_set c w = set (senders (chans w c)) \<union> set (recvers (chans w c))"

lemma plain_cong: "chans w' c = chans w c \<Longrightarrow> msg w' = msg w \<Longrightarrow> plain c w' = plain c w"
  by (simp add: plain_def)

lemma call_operation:
  assumes inv: "calls_inv w P" and m: "m \<notin> dom P" and sg: "\<And>h. sg = Some h \<Longrightarrow> h \<notin> ran P"
    and op: "w' = snd (chan_recv_from c m oneshot w) \<or> w' = snd (chan_send_to c m oneshot w)" and pl: "plain c w'"
    and q: "queue_set c w' = (queue_set c w - R) \<union> M" and R: "R \<subseteq> queue_set c w" and M: "M \<subseteq> {m}"
    and s: "\<And>h. sems w' h = sems w h + (if M = {} \<and> sg = Some h then 1 else 0) + (if \<exists>r \<in> R. signal_of (msg w r) = Some h then 1 else 0)"
  shows "M = {} \<Longrightarrow> calls_inv w' P"
    "sg = Some g \<Longrightarrow> msg w m = Simplex d (Some g) \<Longrightarrow> sems w g = 0 \<Longrightarrow> calls_inv w' (P(m \<mapsto> g))"
proof -
  note D = calls_invD [OF inv]
  have un: "unqueued w m" using D(3) [of m] m by (auto simp: waits_in_unqueued)
  note oq = operation_queues [OF un op]
  have home: "i \<notin> queue_set e w" if "i \<in> queue_set c w" "e \<noteq> c" for i e
    using tidyD [OF D(1), of i c] tidyD [OF D(1), of i e] that by (auto simp: queue_set_def)
  have W: "waits_in w i \<longleftrightarrow> (\<exists>e. i \<in> queue_set e w)" "waits_in w' i \<longleftrightarrow> (\<exists>e. i \<in> queue_set e w')" for i
    by (auto simp: waits_in_def queue_set_def)
  have other: "queue_set e w' = queue_set e w" if "e \<noteq> c" for e using oq [of e] that by (simp add: queue_set_def)
  have waits': "waits_in w' i \<longleftrightarrow> waits_in w i \<and> i \<notin> R" if "i \<noteq> m" for i
  proof -
    have "i \<in> queue_set e w' \<longleftrightarrow> i \<in> queue_set e w \<and> i \<notin> R" for e
      using q R M other [of e] home [of i e] that by (cases "e = c") auto
    then show ?thesis by (simp add: W)
  qed
  have mw: "waits_in w' m \<longleftrightarrow> M \<noteq> {}"
  proof -
    have "m \<notin> queue_set e w" for e using un by (auto simp: unqueued_def queue_set_def)
    then have "m \<in> queue_set e w' \<longleftrightarrow> e = c \<and> m \<in> M" for e using q other [of e] by (cases "e = c") auto
    then show ?thesis using M by (auto simp: W)
  qed
  have sig: "signal_of (msg w r) = Some h \<longleftrightarrow> P r = Some h" if "r \<in> R" for r h
  proof -
    have "waits_in w r" using that R by (auto simp: W)
    then obtain k where "P r = Some k" using D(3) by blast
    with D(5) [OF this] show ?thesis by auto
  qed
  have others: "sems w' h = (if waits_in w i \<and> \<not> waits_in w' i then Suc (sems w h) else sems w h)" if i: "P i = Some h" for i h
  proof -
    have "i \<noteq> m" "sg \<noteq> Some h" using i m sg [of h] by (auto simp: ran_def)
    moreover have "waits_in w i" if "i \<in> R" using that R by (auto simp: W)
    moreover have "(\<exists>r \<in> R. signal_of (msg w r) = Some h) \<longleftrightarrow> i \<in> R" using sig D(4) i by metis
    ultimately show ?thesis using s [of h] waits' [of i] by auto
  qed
  have tidy': "tidy w'" and pl': "plain e w'" for e
    using oq [of e] D(1,2) pl plain_cong [of w' e w] by (cases "e = c"; simp)+
  have ch: "msg_chan w' i = msg_chan w i" if "i \<noteq> m" for i using oq that by simp
  have msgs: "msg w' i = msg w i" for i using oq by simp
  have ws: "waits_in w' i \<Longrightarrow> i \<noteq> m \<Longrightarrow> waits_in w i" for i using waits' by blast
  note keep = calls_inv_operation [OF inv m tidy' pl' msgs ch ws others]
  show "calls_inv w' P" if "M = {}" using keep(1) mw that by simp
  show "calls_inv w' (P(m \<mapsto> g))" if g: "sg = Some g" "msg w m = Simplex d (Some g)" "sems w g = 0"
  proof (rule keep(2))
    show "g \<notin> ran P" by (rule sg [OF g(1)])
    then have "\<not> (\<exists>r \<in> R. signal_of (msg w r) = Some g)" using sig by (auto simp: ran_def)
    then show "sems w' g = (if waits_in w' m then 0 else 1)" using s [of g] g mw by simp
  qed (use oq g in auto)
qed

section \<open>The calls\<close>

lemma released_apply: "released g f h = f h + (if g = Some h then 1 else 0)"
  by (auto simp: released_def split: option.split)

lemma calls_inv_cong:
  assumes "calls_inv w P" "msg w' = msg w" "chans w' = chans w" "msg_chan w' = msg_chan w"
    "\<And>h. h \<in> ran P \<Longrightarrow> sems w' h = sems w h"
  shows "calls_inv w' P"
proof -
  have "sems w' g = sems w g" if "P m = Some g" for m g using assms(5) that by (auto simp: ran_def)
  then show ?thesis using assms(1-4) by (simp add: calls_inv_def tidy_def plain_def waits_in_def)
qed

lemma calls_inv_new_msg:
  assumes "calls_inv w P" "m \<notin> dom P"
  shows "calls_inv (new_msg m (Simplex d g) w) P"
proof -
  let ?w = "new_msg m (Simplex d g) w"
  have un: "unqueued w m" using calls_invD(3) [OF assms(1), of m] assms(2) by (auto simp: waits_in_unqueued)
  have "tidy ?w" using tidy_step [OF step_new [OF un, of "\<lambda>_. True"] calls_invD(1) [OF assms(1)]] by simp
  moreover have "plain c ?w" for c using plain_new_msg [OF calls_invD(2) [OF assms(1)] un] by blast
  moreover have "waits_in ?w i = waits_in w i" for i by (simp add: waits_in_def new_msg_def)
  moreover have "sems ?w = sems w" by (simp add: new_msg_def)
  moreover have "msg ?w i = msg w i" "msg_chan ?w i = msg_chan w i" if "P i = Some h" for i h
    using that assms(2) by (auto simp: new_msg_def)
  ultimately show ?thesis using assms(1) by (auto simp: calls_inv_def)
qed

lemma calls_inv_send:
  assumes inv: "calls_inv w P" and m: "m \<notin> dom P" and msg: "msg w m = Simplex (Some x) sg"
    and sg: "\<And>h. sg = Some h \<Longrightarrow> h \<notin> ran P" and op: "chan_recv_from c m oneshot w = (res, w')"
  shows "oneshot \<Longrightarrow> calls_inv w' P" "sg = Some g \<Longrightarrow> sems w g = 0 \<Longrightarrow> \<not> oneshot \<Longrightarrow> calls_inv w' (P(m \<mapsto> g))"
proof -
  note D = calls_invD [OF inv]
  have w': "w' = snd (chan_recv_from c m oneshot w) \<or> w' = snd (chan_send_to c m oneshot w)" using op by simp
  have pl: "plain c w'" using send_effect [OF D(2) msg op] by blast
  have un: "unqueued w m" using D(3) [of m] m by (auto simp: waits_in_unqueued)
  note use = call_operation [OF inv m _ w' pl]
  consider (full) "sems w' = sems w" "senders (chans w' c) = senders (chans w c) @ (if oneshot then [] else [m])"
      "recvers (chans w' c) = recvers (chans w c)"
    | (stored) "sems w' = released sg (sems w)" "senders (chans w' c) = senders (chans w c)" "recvers (chans w' c) = recvers (chans w c)"
    | (served) r q d gd where "recvers (chans w c) = r # q" "msg w r = Simplex d gd" "sems w' = released sg (released gd (sems w))"
      "senders (chans w' c) = senders (chans w c)" "recvers (chans w' c) = q"
    using send_effect [OF D(2) msg op] by blast
  then have "(oneshot \<longrightarrow> calls_inv w' P) \<and> (sg = Some g \<longrightarrow> sems w g = 0 \<longrightarrow> \<not> oneshot \<longrightarrow> calls_inv w' (P(m \<mapsto> g)))"
  proof cases
    case full
    have "queue_set c w' = (queue_set c w - {}) \<union> (if oneshot then {} else {m})" using full by (auto simp: queue_set_def)
    note u = use [OF _ this]
    from u(1) [where sg = None] u(2) [where sg = sg and g = g and d = "Some x"] sg full(1) msg show ?thesis by simp
  next
    case stored
    have "queue_set c w' = (queue_set c w - {}) \<union> {}" using stored by (simp add: queue_set_def)
    note u = use [OF sg this]
    from u(1) u(2) [where g = g and d = "Some x"] stored(1) msg show ?thesis by (simp add: released_apply)
  next
    case (served r q d gd)
    have "distinct (senders (chans w c) @ recvers (chans w c))" using D(1) by (simp add: tidy_def)
    then have "queue_set c w' = (queue_set c w - {r}) \<union> {}" "{r} \<subseteq> queue_set c w" using served by (auto simp: queue_set_def)
    note u = use [OF sg this]
    from u(1) u(2) [where g = g and d = "Some x"] served(2,3) msg show ?thesis by (simp add: released_apply)
  qed
  then show "oneshot \<Longrightarrow> calls_inv w' P" "sg = Some g \<Longrightarrow> sems w g = 0 \<Longrightarrow> \<not> oneshot \<Longrightarrow> calls_inv w' (P(m \<mapsto> g))"
    by simp_all
qed

lemma calls_inv_receive:
  assumes inv: "calls_inv w P" and m: "m \<notin> dom P" and msg: "msg w m = Simplex d (Some g)"
    and g: "g \<notin> ran P" "sems w g = 0" and op: "chan_send_to c m False w = (res, w')"
  shows "calls_inv w' (P(m \<mapsto> g))"
proof -
  note D = calls_invD [OF inv]
  have w': "w' = snd (chan_recv_from c m False w) \<or> w' = snd (chan_send_to c m False w)" using op by simp
  have pl: "plain c w'" using receive_effect [OF D(2) msg op] by blast
  note use = call_operation(2) [OF inv m _ w' pl, where sg = "Some g" and g = g and d = d]
  consider (empty) "sems w' = sems w" "senders (chans w' c) = senders (chans w c)" "recvers (chans w' c) = recvers (chans w c) @ [m]"
    | (buffered) "sems w' = released (Some g) (sems w)" "senders (chans w' c) = senders (chans w c)"
      "recvers (chans w' c) = recvers (chans w c)"
    | (refilled) s q x gs where "senders (chans w c) = s # q" "msg w s = Simplex (Some x) gs"
      "sems w' = released gs (released (Some g) (sems w))" "senders (chans w' c) = q" "recvers (chans w' c) = recvers (chans w c)"
    using receive_effect [OF D(2) msg op] by blast
  then show ?thesis
  proof cases
    case empty
    have "queue_set c w' = (queue_set c w - {}) \<union> {m}" using empty by (auto simp: queue_set_def)
    from use [OF _ this] g empty(1) msg show ?thesis by simp
  next
    case buffered
    have "queue_set c w' = (queue_set c w - {}) \<union> {}" using buffered by (simp add: queue_set_def)
    from use [OF _ this] g buffered(1) msg show ?thesis by (simp add: released_apply)
  next
    case (refilled s q x gs)
    have "distinct (senders (chans w c) @ recvers (chans w c))" using D(1) by (simp add: tidy_def)
    then have "queue_set c w' = (queue_set c w - {s}) \<union> {}" "{s} \<subseteq> queue_set c w" using refilled by (auto simp: queue_set_def)
    from use [OF _ this] g refilled(2,3) msg show ?thesis by (simp add: released_apply)
  qed
qed

lemma calls_inv_fresh: "calls_inv w P \<Longrightarrow> g \<notin> ran P \<Longrightarrow> calls_inv (fresh_sem g w) P"
  by (erule calls_inv_cong) (auto simp: fresh_sem_def)

lemma calls_inv_finish:
  assumes "calls_inv w P" "P m = Some g" "channel_finish m g w = Some w'"
  shows "calls_inv w' (P(m := None))"
proof -
  note D = calls_invD [OF assms(1)]
  have sg: "sems w g \<noteq> 0" using assms(3) by (auto simp: channel_finish_def split: if_splits)
  then have out: "\<not> waits_in w m" using D(6) [OF assms(2)] by (auto split: if_splits)
  then have un: "unqueued w m" by (simp add: waits_in_unqueued)
  let ?w = "w\<lparr>sems := (sems w)(g := sems w g - 1)\<rparr>"
  obtain c where c: "w' = upd_chan c (\<lambda>ch. ch\<lparr>senders := remove1 m (senders ch), recvers := remove1 m (recvers ch)\<rparr>) ?w"
    using assms(3) sg by (auto simp: channel_finish_def drop_msg_def split: option.splits)
  have id: "chans w' = chans w" using un by (auto simp: c unqueued_def remove1_idem fun_eq_iff)
  have eq: "msg w' = msg w" "msg_chan w' = msg_chan w" "sems w' = (sems w)(g := sems w g - 1)" by (simp_all add: c)
  have other: "sems w' h = sems w h" if "P i = Some h" "i \<noteq> m" for i h
    using D(4) [OF assms(2), of i] that by (auto simp: eq)
  have W: "waits_in w' i = waits_in w i" for i by (simp add: waits_in_def id)
  have "inj_on (P(m := None)) (dom (P(m := None)))"
    using assms(1) by (auto simp: calls_inv_def inj_on_def split: if_splits)
  moreover have "tidy w'" "plain e w'" for e using D(1,2) by (simp_all add: tidy_def plain_def id eq)
  moreover have "i \<in> dom (P(m := None))" if "waits_in w' i" for i using D(3) [of i] that out W by auto
  ultimately show ?thesis using D(5-7) other W unfolding calls_inv_def eq(1,2) by (auto split: if_splits)
qed

lemma call_step_inv:
  assumes "call_step (w, P) (w', P')" "calls_inv w P"
  shows "calls_inv w' P'"
  using assms(1)
proof cases
  case (call_send m g c x r)
  let ?w = "new_msg m (Simplex (Some x) (Some g)) (fresh_sem g w)"
  have "calls_inv ?w P" by (rule calls_inv_new_msg [OF calls_inv_fresh]) (use call_send assms(2) in auto)
  moreover have "chan_recv_from c m False ?w = (r, w')" using call_send by (simp add: channel_send_def)
  ultimately show ?thesis
    using calls_inv_send(2) [of ?w P m x "Some g" c False r w' g] call_send by (simp add: new_msg_def fresh_sem_def)
next
  case (call_receive m g c d r)
  let ?w = "new_msg m (Simplex d (Some g)) (fresh_sem g w)"
  have "calls_inv ?w P" by (rule calls_inv_new_msg [OF calls_inv_fresh]) (use call_receive assms(2) in auto)
  moreover have "chan_send_to c m False ?w = (r, w')" using call_receive by (simp add: channel_receive_def)
  ultimately show ?thesis
    using calls_inv_receive [of ?w P m d g c r w'] call_receive by (simp add: new_msg_def fresh_sem_def)
next
  case (call_nowait m c x b)
  let ?w = "new_msg m (Simplex (Some x) None) w"
  have "calls_inv ?w P" by (rule calls_inv_new_msg) (use call_nowait assms(2) in auto)
  moreover obtain r where "chan_recv_from c m True ?w = (r, w')"
    using call_nowait by (auto simp: channel_nowait_send_def Let_def split: prod.splits)
  ultimately show ?thesis
    using calls_inv_send(1) [of ?w P m x None c True r w'] call_nowait by (simp add: new_msg_def)
next
  case (call_finish m g)
  with calls_inv_finish assms(2) show ?thesis by blast
next
  case (call_write a y)
  with calls_inv_cong [OF assms(2), of w'] show ?thesis by simp
qed

lemma call_reach_inv: "call_reach caps w P \<Longrightarrow> calls_inv w P"
proof (induction rule: call_reach.induct)
  case calls_none
  show ?case by (simp add: calls_inv_def tidy_def plain_def waits_in_def new_world_def new_chan_def)
next
  case (calls_step w P w' P')
  then show ?case using call_step_inv by blast
qed

text \<open>
  C9: Waiting on channels is exact: in every state that sends, receives, \<open>Nowait\<close> sends and their
  returns on any number of channels can reach, a coroutine that has called a channel operation is
  blocked if and only if its message is still in a queue, it has been released once otherwise,
  and a channel never has senders and receivers waiting at once: senders wait only while the buffer
  is full, receivers only while it is empty.
\<close>

theorem blocked_exactly_while_queued:
  assumes "call_reach caps w P" "P m = Some g"
  shows "(channel_finish m g w = None \<longleftrightarrow> (\<exists>c. m \<in> set (senders (chans w c)) \<union> set (recvers (chans w c)))) \<and>
    sems w g = (if channel_finish m g w = None then 0 else 1) \<and>
    (senders (chans w c) \<noteq> [] \<longrightarrow> recvers (chans w c) = [] \<and> length (buffer (chans w c)) = capacity (chans w c)) \<and>
    (recvers (chans w c) \<noteq> [] \<longrightarrow> buffer (chans w c) = [])"
proof -
  note D = calls_invD [OF call_reach_inv [OF assms(1)]]
  have "channel_finish m g w = None \<longleftrightarrow> sems w g = 0"
    using D(7) [OF assms(2)] by (auto simp: channel_finish_def drop_msg_def split: option.splits)
  moreover have "sems w g = 0 \<longleftrightarrow> waits_in w m" "sems w g = (if waits_in w m then 0 else 1)"
    using D(6) [OF assms(2)] by simp_all
  ultimately show ?thesis using D(2) [of c] by (auto simp: waits_in_def plain_def)
qed

theorem blocked_exactly_while_queued_witness:
  "\<exists>w :: int world. call_reach (\<lambda>_. 0) w [5 \<mapsto> 35] \<and> recvers (chans w 0) = [5] \<and> channel_finish 5 35 w = None"
proof -
  obtain r w where w: "channel_receive 0 5 (Some 25) 35 (new_world id (\<lambda>_. 0) :: int world) = (r, w)" by fastforce
  have "call_reach (\<lambda>_. 0) w [5 \<mapsto> 35]" by (rule calls_step [OF calls_none call_receive [OF _ _ w]]) simp_all
  moreover have "recvers (chans w 0) = [5]"
    using w by (auto simp: channel_receive_def chan_defs new_world_def)
  moreover from this have "\<exists>c. 5 \<in> set (senders (chans w c)) \<union> set (recvers (chans w c))"
    by (intro exI [of _ 0]) simp
  then have "channel_finish 5 35 w = None"
    using blocked_exactly_while_queued [OF calculation(1), of 5 35 0] by simp
  ultimately show ?thesis by blast
qed

end
