(* ===== verification/Allocators.thy ===== *)
theory Allocators
  imports Scheduling
begin

text \<open>
  \<open>SchedContext::Allocator\<close> and \<open>Handler\<close> (\<open>src/include/core/schedule.h\<close>, \<open>src/core/schedule.cpp\<close>): each
  partition keeps its tasks in a \<open>std::list\<close> with an index from ids to iterators, and workers refer
  to tasks by pointer. The theory of schedulers has one map from ids to tasks instead; here
  the lists and pointers are shown to implement that map, step by step. What a coroutine can
  ask about itself, its id, its context and its locals, goes through the pointer of its worker.
\<close>

section \<open>Tasks in memory\<close>

text \<open>A \<open>Task\<close> with the constant part from \<open>BaseTask\<close>; locals are values of any type (\<open>std::any\<close>).\<close>

record ('e, 'v, 'l) task_node =
  node_ctx :: nat
  node_id :: nat
  node_task :: "('e, 'v) task"
  node_locals :: "'l list"

text \<open>
  An allocator: \<open>_pool\<close>, the addresses of its list nodes in order, and \<open>_index\<close>. An iterator of
  a list is the address of its node, which never moves.
\<close>

record allocator =
  alloc_pool :: "nat list"
  alloc_index :: "nat \<rightharpoonup> nat"

text \<open>
  All allocators of a context with the memory of their nodes, and \<open>_running_task\<close> of each worker
  thread. A \<open>Handler\<close> is a pointer.
\<close>

type_synonym task_handle = "nat option"

record ('e, 'v, 'l) arena =
  node_at :: "nat \<rightharpoonup> ('e, 'v, 'l) task_node"
  next_addr :: nat
  allocs :: "allocator list"
  running_task :: "nat \<Rightarrow> task_handle"

definition arena_init :: "nat \<Rightarrow> ('e, 'v, 'l) arena" where
  "arena_init n = \<lparr>node_at = (\<lambda>_. None), next_addr = 0,
     allocs = replicate n \<lparr>alloc_pool = [], alloc_index = (\<lambda>_. None)\<rparr>, running_task = (\<lambda>_. None)\<rparr>"

definition alloc_slot :: "nat \<Rightarrow> ('e, 'v, 'l) arena \<Rightarrow> 'e fault + nat" where
  "alloc_slot i r = (if allocs r = [] then Inl DivByZero else Inr (i mod length (allocs r)))"

definition new_node :: "nat \<Rightarrow> nat \<Rightarrow> (request, 'e, 'v) body \<Rightarrow> ('e, 'v, 'l) task_node" where
  "new_node c i b = \<lparr>node_ctx = c, node_id = i,
     node_task = \<lparr>fn = b, execute_cnt = 0, suspend_cnt = 0, yield_cnt = 0\<rparr>, node_locals = []\<rparr>"

definition alloc_create ::
    "nat \<Rightarrow> nat \<Rightarrow> (request, 'e, 'v) body \<Rightarrow> ('e, 'v, 'l) arena \<Rightarrow> 'e fault + (task_handle \<times> ('e, 'v, 'l) arena)" where
  "alloc_create c i b r = and_then (alloc_slot i r) (\<lambda>p.
     let a = next_addr r; al = allocs r ! p
     in Inr (Some a, r\<lparr>node_at := (node_at r)(a \<mapsto> new_node c i b), next_addr := Suc a,
          allocs := (allocs r)[p := \<lparr>alloc_pool = alloc_pool al @ [a], alloc_index = (alloc_index al)(i \<mapsto> a)\<rparr>]\<rparr>))"

text \<open>
  \<open>destroy\<close>: the id is read through the handle, and \<open>_index.at(id)\<close> throws if it is not there.
\<close>

definition deref :: "task_handle \<Rightarrow> ('e, 'v, 'l) arena \<Rightarrow> ('e, 'v, 'l) task_node option" where
  "deref h r = (case h of None \<Rightarrow> None | Some a \<Rightarrow> node_at r a)"

definition alloc_destroy :: "task_handle \<Rightarrow> ('e, 'v, 'l) arena \<Rightarrow> 'e fault + ('e, 'v, 'l) arena" where
  "alloc_destroy h r =
     (case deref h r of
        None \<Rightarrow> Inl NoTask
      | Some nd \<Rightarrow>
          and_then (alloc_slot (node_id nd) r) (\<lambda>p.
            let al = allocs r ! p
            in case alloc_index al (node_id nd) of
                 None \<Rightarrow> Inl NoTask
               | Some a \<Rightarrow> Inr (r\<lparr>node_at := (node_at r)(a := None),
                   allocs := (allocs r)[p := \<lparr>alloc_pool = remove1 a (alloc_pool al),
                     alloc_index = (alloc_index al)(node_id nd := None)\<rparr>]\<rparr>)))"

section \<open>What a coroutine asks about itself\<close>

text \<open>
  \<open>this_coroutine_id\<close>: the function of \<open>SchedContext\<close> returns an \<open>int\<close>, which the free function turns
  back into a \<open>size_t\<close>. \<open>None\<close> is a null dereference.
\<close>

definition through_int :: "size_t \<Rightarrow> size_t" where
  "through_int i = scast (ucast i :: int32)"

definition this_coroutine_id :: "nat \<Rightarrow> ('e, 'v, 'l) arena \<Rightarrow> size_t option" where
  "this_coroutine_id w r = map_option (\<lambda>nd. through_int (of_nat (node_id nd))) (deref (running_task r w) r)"

definition this_coroutine_ctx :: "nat \<Rightarrow> ('e, 'v, 'l) arena \<Rightarrow> nat option" where
  "this_coroutine_ctx w r = map_option node_ctx (deref (running_task r w) r)"

definition this_coroutine_locals :: "nat \<Rightarrow> ('e, 'v, 'l) arena \<Rightarrow> 'l list option" where
  "this_coroutine_locals w r = map_option node_locals (deref (running_task r w) r)"

text \<open>Writing to a node through a handle.\<close>

definition write_node ::
    "task_handle \<Rightarrow> (('e, 'v, 'l) task_node \<Rightarrow> ('e, 'v, 'l) task_node) \<Rightarrow> ('e, 'v, 'l) arena \<Rightarrow> 'e fault + ('e, 'v, 'l) arena" where
  "write_node h f r =
     (case (h, deref h r) of
        (Some a, Some nd) \<Rightarrow> Inr (r\<lparr>node_at := (node_at r)(a \<mapsto> f nd)\<rparr>)
      | _ \<Rightarrow> Inl NoTask)"

text \<open>The vector that \<open>this_coroutine_locals\<close> returns by reference is written by user code.\<close>

definition set_locals :: "nat \<Rightarrow> 'l list \<Rightarrow> ('e, 'v, 'l) arena \<Rightarrow> 'e fault + ('e, 'v, 'l) arena" where
  "set_locals w ls r = write_node (running_task r w) (\<lambda>nd. nd\<lparr>node_locals := ls\<rparr>) r"

section \<open>Executing through the handle\<close>

definition execute_start :: "nat \<Rightarrow> task_handle \<Rightarrow> ('e, 'v, 'l) arena \<Rightarrow> 'e fault + ('e, 'v, 'l) arena" where
  "execute_start w h r =
     write_node h (\<lambda>nd. nd\<lparr>node_task := (node_task nd)\<lparr>execute_cnt := Suc (execute_cnt (node_task nd))\<rparr>\<rparr>)
       (r\<lparr>running_task := (running_task r)(w := h)\<rparr>)"

text \<open>
  The end of \<open>_execute\<close>. Handing the handle on with \<open>std::move\<close> copies its pointer: the moved-from
  \<open>_running_task\<close> keeps it.
\<close>

definition execute_end :: "nat \<Rightarrow> ('e, 'v, 'l) arena \<Rightarrow> 'e fault + ('e, 'v, 'l) arena" where
  "execute_end w r =
     (let h = running_task r w in
      case deref h r of
        None \<Rightarrow> Inl NoTask
      | Some nd \<Rightarrow>
          (case slice (fn (node_task nd)) of
             Escaped ex \<Rightarrow> Inl (Uncaught ex)
           | Completed v \<Rightarrow> alloc_destroy h r
           | Yielded b \<Rightarrow> write_node h (\<lambda>nd. nd\<lparr>node_task := (node_task nd)\<lparr>fn := b, yield_cnt := Suc (yield_cnt (node_task nd))\<rparr>\<rparr>) r
           | Waits c b \<Rightarrow> write_node h (\<lambda>nd. nd\<lparr>node_task := (node_task nd)\<lparr>fn := b, suspend_cnt := Suc (suspend_cnt (node_task nd))\<rparr>\<rparr>) r))"

section \<open>The map that the allocators implement\<close>

definition handle_of :: "('e, 'v, 'l) arena \<Rightarrow> nat \<Rightarrow> task_handle" where
  "handle_of r i =
     (if allocs r = [] then None else alloc_index (allocs r ! (i mod length (allocs r))) i)"

definition pool_of :: "('e, 'v, 'l) arena \<Rightarrow> nat \<rightharpoonup> ('e, 'v) task" where
  "pool_of r i = map_option node_task (deref (handle_of r i) r)"

text \<open>
  The order of a partition's pool, in which \<open>final_schedule\<close> visits it.
\<close>

definition pool_ids :: "('e, 'v, 'l) arena \<Rightarrow> nat \<Rightarrow> nat list" where
  "pool_ids r p = map (\<lambda>a. case node_at r a of None \<Rightarrow> 0 | Some nd \<Rightarrow> node_id nd) (alloc_pool (allocs r ! p))"

text \<open>
  Handles and nodes correspond: the index of an id's partition leads to the node with that id,
  every node is indexed under its own id, new addresses are unused, and each partition's pool
  lists exactly its nodes, each once.
\<close>

definition arena_ok :: "('e, 'v, 'l) arena \<Rightarrow> bool" where
  "arena_ok r \<longleftrightarrow>
     (\<forall>i a. handle_of r i = Some a \<longrightarrow> (\<exists>nd. node_at r a = Some nd \<and> node_id nd = i)) \<and>
     (\<forall>a nd. node_at r a = Some nd \<longrightarrow> handle_of r (node_id nd) = Some a \<and> a < next_addr r) \<and>
     (\<forall>p < length (allocs r). set (alloc_pool (allocs r ! p)) = {a. \<exists>nd. node_at r a = Some nd \<and> node_id nd mod length (allocs r) = p}) \<and>
     (\<forall>p < length (allocs r). distinct (alloc_pool (allocs r ! p)))"

lemma arena_okD:
  assumes "arena_ok r"
  shows "handle_of r i = Some a \<Longrightarrow> \<exists>nd. node_at r a = Some nd \<and> node_id nd = i"
    "node_at r a = Some nd \<Longrightarrow> handle_of r (node_id nd) = Some a \<and> a < next_addr r"
    "p < length (allocs r) \<Longrightarrow> set (alloc_pool (allocs r ! p)) = {a. \<exists>nd. node_at r a = Some nd \<and> node_id nd mod length (allocs r) = p}"
    "p < length (allocs r) \<Longrightarrow> distinct (alloc_pool (allocs r ! p))"
  using assms unfolding arena_ok_def by blast+

lemma arena_init_ok: "arena_ok (arena_init n)"
  by (auto simp: arena_ok_def arena_init_def handle_of_def)

lemma pool_of_node: "arena_ok r \<Longrightarrow> node_at r a = Some nd \<Longrightarrow> pool_of r (node_id nd) = Some (node_task nd)"
  using arena_okD(2) by (force simp: pool_of_def deref_def)

lemma pool_of_Some: "arena_ok r \<Longrightarrow> pool_of r i = Some t \<Longrightarrow> \<exists>a nd. handle_of r i = Some a \<and> node_at r a = Some nd \<and> node_id nd = i \<and> node_task nd = t"
  using arena_okD(1) by (force simp: pool_of_def deref_def split: option.splits)

lemma pool_of_None: "arena_ok r \<Longrightarrow> pool_of r i = None \<longleftrightarrow> handle_of r i = None"
  using arena_okD(1) by (force simp: pool_of_def deref_def split: option.splits)

text \<open>Creating a task with an unused id.\<close>

lemma alloc_create_ok:
  fixes r :: "('e, 'v, 'l) arena"
  assumes ok: "arena_ok r" and n: "allocs r \<noteq> []" and fresh: "\<And>a nd. node_at r a = Some nd \<Longrightarrow> node_id nd \<noteq> i"
  shows "\<exists>r'. (alloc_create c i b r :: 'e fault + _) = Inr (Some (next_addr r), r') \<and> arena_ok r' \<and> length (allocs r') = length (allocs r) \<and>
    running_task r' = running_task r \<and> node_at r' = (node_at r)(next_addr r \<mapsto> new_node c i b) \<and>
    pool_of r' = (pool_of r)(i \<mapsto> \<lparr>fn = b, execute_cnt = 0, suspend_cnt = 0, yield_cnt = 0\<rparr>) \<and>
    (\<forall>q < length (allocs r). pool_ids r' q = pool_ids r q @ (if q = i mod length (allocs r) then [i] else []))"
proof -
  let ?a = "next_addr r" and ?n = "length (allocs r)"
  let ?p = "i mod ?n" and ?nd = "new_node c i b :: ('e, 'v, 'l) task_node"
  let ?al = "allocs r ! ?p"
  define r' where "r' = r\<lparr>node_at := (node_at r)(?a \<mapsto> ?nd), next_addr := Suc ?a,
    allocs := (allocs r)[?p := \<lparr>alloc_pool = alloc_pool ?al @ [?a], alloc_index = (alloc_index ?al)(i \<mapsto> ?a)\<rparr>]\<rparr>"
  have p: "?p < ?n" using n by simp
  have a: "node_at r ?a = None" using arena_okD(2) [OF ok, of ?a] by (cases "node_at r ?a") auto
  have id: "node_id ?nd = i" by (simp add: new_node_def)
  have h: "handle_of r' j = (if j = i then Some ?a else handle_of r j)" for j
    using n p by (auto simp: handle_of_def r'_def nth_list_update)
  have hne: "handle_of r j \<noteq> Some ?a" for j using arena_okD(1) [OF ok, of j ?a] a by auto
  have at: "node_at r' = (node_at r)(?a \<mapsto> ?nd)" by (simp add: r'_def)
  have notin: "?a \<notin> set (alloc_pool (allocs r ! q))" if "q < ?n" for q using arena_okD(3) [OF ok that] a by auto
  have ids: "pool_ids r' q = pool_ids r q @ (if q = ?p then [i] else [])" if "q < ?n" for q
  proof -
    have "pool_ids r q = map (\<lambda>x. case node_at r' x of None \<Rightarrow> 0 | Some nd \<Rightarrow> node_id nd) (alloc_pool (allocs r ! q))"
      using notin [OF that] by (auto simp: pool_ids_def at)
    then show ?thesis using that p by (simp add: pool_ids_def r'_def id nth_list_update)
  qed
  have "arena_ok r'"
    unfolding arena_ok_def
  proof (intro conjI allI impI)
    fix j x assume "handle_of r' j = Some x"
    then show "\<exists>nd. node_at r' x = Some nd \<and> node_id nd = j"
      using arena_okD(1) [OF ok] h hne by (auto simp: at id split: if_splits)
  next
    fix x nd assume "node_at r' x = Some nd"
    then show "handle_of r' (node_id nd) = Some x" "x < next_addr r'"
      using arena_okD(2) [OF ok, of x nd] h [of "node_id nd"] fresh [of x nd] id
      by (auto simp: at split: if_splits) (auto simp: r'_def)
  next
    fix q assume q: "q < length (allocs r')"
    then show "set (alloc_pool (allocs r' ! q)) = {x. \<exists>nd. node_at r' x = Some nd \<and> node_id nd mod length (allocs r') = q}"
      using arena_okD(3) [OF ok, of q] a p id by (auto simp: r'_def nth_list_update)
    from q show "distinct (alloc_pool (allocs r' ! q))"
      using arena_okD(4) [OF ok, of q] notin p by (auto simp: r'_def nth_list_update)
  qed
  moreover have "pool_of r' = (pool_of r)(i \<mapsto> \<lparr>fn = b, execute_cnt = 0, suspend_cnt = 0, yield_cnt = 0\<rparr>)"
  proof
    fix j show "pool_of r' j = ((pool_of r)(i \<mapsto> \<lparr>fn = b, execute_cnt = 0, suspend_cnt = 0, yield_cnt = 0\<rparr>)) j"
      using h [of j] hne [of j] by (auto simp: pool_of_def deref_def at new_node_def split: option.split)
  qed
  ultimately show ?thesis
    using n ids by (intro exI [of _ r']) (simp add: alloc_create_def alloc_slot_def r'_def Let_def)
qed

text \<open>Destroying a task that exists.\<close>

lemma alloc_destroy_ok:
  fixes r :: "('e, 'v, 'l) arena"
  assumes ok: "arena_ok r" and nd: "node_at r a = Some nd"
  shows "\<exists>r'. (alloc_destroy (Some a) r :: 'e fault + _) = Inr r' \<and> arena_ok r' \<and> length (allocs r') = length (allocs r) \<and>
    running_task r' = running_task r \<and> node_at r' = (node_at r)(a := None) \<and> pool_of r' = (pool_of r)(node_id nd := None)"
proof -
  let ?i = "node_id nd" and ?n = "length (allocs r)"
  let ?p = "?i mod ?n"
  let ?al = "allocs r ! ?p"
  note ha = arena_okD(2) [OF ok nd]
  have n: "allocs r \<noteq> []" using ha by (auto simp: handle_of_def split: if_splits)
  define r' where "r' = r\<lparr>node_at := (node_at r)(a := None),
    allocs := (allocs r)[?p := \<lparr>alloc_pool = remove1 a (alloc_pool ?al), alloc_index = (alloc_index ?al)(?i := None)\<rparr>]\<rparr>"
  have p: "?p < ?n" using n by simp
  have h: "handle_of r' j = (if j = ?i then None else handle_of r j)" for j
    using n p by (auto simp: handle_of_def r'_def nth_list_update)
  have hne: "handle_of r j = Some a \<Longrightarrow> j = ?i" for j using arena_okD(1) [OF ok, of j a] nd by auto
  have at: "node_at r' = (node_at r)(a := None)" by (simp add: r'_def)
  have pool: "alloc_pool (allocs r' ! q) = (if q = ?p then remove1 a (alloc_pool (allocs r ! q)) else alloc_pool (allocs r ! q))" if "q < ?n" for q
    using that p by (simp add: r'_def nth_list_update)
  have "arena_ok r'"
    unfolding arena_ok_def
  proof (intro conjI allI impI)
    fix j x assume "handle_of r' j = Some x"
    then show "\<exists>nd. node_at r' x = Some nd \<and> node_id nd = j"
      using arena_okD(1) [OF ok, of j x] h hne by (auto simp: at split: if_splits)
  next
    fix x nd' assume "node_at r' x = Some nd'"
    then show "handle_of r' (node_id nd') = Some x" "x < next_addr r'"
      using arena_okD(2) [OF ok, of x nd'] h ha by (auto simp: at r'_def split: if_splits)
  next
    fix q assume q: "q < length (allocs r')"
    then have q': "q < ?n" by (simp add: r'_def)
    show "set (alloc_pool (allocs r' ! q)) = {x. \<exists>nd. node_at r' x = Some nd \<and> node_id nd mod length (allocs r') = q}"
      using arena_okD(3,4) [OF ok q'] nd by (auto simp: pool [OF q'] at) (auto simp: r'_def)
    show "distinct (alloc_pool (allocs r' ! q))"
      using arena_okD(4) [OF ok q'] by (auto simp: pool [OF q'])
  qed
  moreover have "pool_of r' = (pool_of r)(?i := None)"
  proof
    fix j show "pool_of r' j = ((pool_of r)(?i := None)) j"
      using h [of j] hne [of j] by (auto simp: pool_of_def deref_def at split: option.split)
  qed
  ultimately show ?thesis
    using nd ha n by (intro exI [of _ r']) (simp add: alloc_destroy_def deref_def alloc_slot_def handle_of_def r'_def Let_def)
qed

text \<open>Writing to a task without changing its id.\<close>

lemma write_node_ok:
  fixes r :: "('e, 'v, 'l) arena"
  assumes ok: "arena_ok r" and nd: "node_at r a = Some nd" and f: "node_id (f nd) = node_id nd"
  shows "\<exists>r'. (write_node (Some a) f r :: 'e fault + _) = Inr r' \<and> arena_ok r' \<and> length (allocs r') = length (allocs r) \<and>
    running_task r' = running_task r \<and> node_at r' = (node_at r)(a \<mapsto> f nd) \<and>
    pool_of r' = (pool_of r)(node_id nd \<mapsto> node_task (f nd))"
proof -
  define r' where "r' = r\<lparr>node_at := (node_at r)(a \<mapsto> f nd)\<rparr>"
  have h: "handle_of r' = handle_of r" by (simp add: fun_eq_iff handle_of_def r'_def)
  have at: "node_at r' = (node_at r)(a \<mapsto> f nd)" and al: "allocs r' = allocs r" "next_addr r' = next_addr r"
    by (simp_all add: r'_def)
  have "arena_ok r'"
    unfolding arena_ok_def h al
  proof (intro conjI allI impI)
    fix i x assume "handle_of r i = Some x"
    then show "\<exists>nd. node_at r' x = Some nd \<and> node_id nd = i" using arena_okD(1) [OF ok, of i x] nd f by (auto simp: at)
  next
    fix x nd' assume "node_at r' x = Some nd'"
    then show "handle_of r (node_id nd') = Some x" "x < next_addr r"
      using arena_okD(2) [OF ok, of x] nd f by (auto simp: at split: if_splits)
  next
    fix q assume q: "q < length (allocs r)"
    have "(\<exists>nd. node_at r' x = Some nd \<and> node_id nd mod length (allocs r) = q) \<longleftrightarrow>
        (\<exists>nd. node_at r x = Some nd \<and> node_id nd mod length (allocs r) = q)" for x
      using nd f by (auto simp: at)
    then show "set (alloc_pool (allocs r ! q)) = {x. \<exists>nd. node_at r' x = Some nd \<and> node_id nd mod length (allocs r) = q}"
      using arena_okD(3) [OF ok q] by simp
  qed (use arena_okD(4) [OF ok] in auto)
  moreover have "pool_of r' = (pool_of r)(node_id nd \<mapsto> node_task (f nd))"
  proof
    fix j show "pool_of r' j = ((pool_of r)(node_id nd \<mapsto> node_task (f nd))) j"
    proof (cases "j = node_id nd")
      case True
      then show ?thesis using arena_okD(2) [OF ok nd] by (simp add: pool_of_def deref_def h at)
    next
      case False
      then have "handle_of r j \<noteq> Some a" using arena_okD(1) [OF ok, of j a] nd by auto
      with False show ?thesis by (simp add: pool_of_def deref_def h at split: option.split)
    qed
  qed
  ultimately show ?thesis using nd by (intro exI [of _ r']) (simp add: write_node_def deref_def r'_def)
qed

section \<open>Simulation\<close>

text \<open>
  How the nodes and handles of a context \<open>c\<close> represent the state of its schedulers.
\<close>

definition implements :: "nat \<Rightarrow> ('e, 'v, 'l) arena \<Rightarrow> ('e, 'v) sched \<Rightarrow> bool" where
  "implements c r s \<longleftrightarrow> arena_ok r \<and> length (allocs r) = n_partition s \<and> pool_of r = pool s \<and>
     (\<forall>a nd. node_at r a = Some nd \<longrightarrow> node_ctx nd = c) \<and>
     (\<forall>w i. running s w = Some i \<longrightarrow> (\<exists>a nd. running_task r w = Some a \<and> node_at r a = Some nd \<and> node_id nd = i))"

lemma implementsD:
  assumes "implements c r s"
  shows "arena_ok r" "length (allocs r) = n_partition s" "pool_of r = pool s"
    "node_at r a = Some nd \<Longrightarrow> node_ctx nd = c"
    "running s w = Some i \<Longrightarrow> \<exists>a nd. running_task r w = Some a \<and> node_at r a = Some nd \<and> node_id nd = i"
  using assms unfolding implements_def by blast+

lemma implements_frame:
  assumes "implements c r s" "pool t = pool s" "n_partition t = n_partition s" "running t = running s"
  shows "implements c r t"
  using assms by (simp add: implements_def)

lemma implements_init: "implements c (arena_init n) (sched_init n)"
  using arena_init_ok
  by (auto simp: implements_def sched_init_def arena_init_def pool_of_def handle_of_def deref_def fun_eq_iff)

text \<open>Fetching an id and pushing a new task leave the allocators alone; between them it is allocated.\<close>

lemma implements_fetch: "implements c r s \<Longrightarrow> implements c r (fetch_id b s)"
  by (erule implements_frame) (simp_all add: fetch_id_def)

lemma implements_push: "implements c r s \<Longrightarrow> push_new i s = Inr t \<Longrightarrow> implements c r t"
  by (erule implements_frame) (auto simp: push_new_def push_task_Inr)

lemma implements_allocate:
  fixes r :: "('e, 'v, 'l) arena" and s :: "('e, 'v) sched"
  assumes im: "implements c r s" and new: "pool s i = None" and t: "allocate i b s = Inr t"
  shows "\<exists>r' a. (alloc_create c i b r :: 'e fault + _) = Inr (Some a, r') \<and> implements c r' t \<and> handle_of r' i = Some a \<and>
    (\<forall>q < n_partition s. pool_ids r' q = pool_ids r q @ (if q = i mod n_partition s then [i] else []))"
proof -
  note ok = implementsD [OF im]
  have t': "n_partition s \<noteq> 0" "running t = running s" "n_partition t = n_partition s"
    "pool t = (pool s)(i \<mapsto> \<lparr>fn = b, execute_cnt = 0, suspend_cnt = 0, yield_cnt = 0\<rparr>)"
    using t by (auto simp: allocate_def and_then_Inr slot_Inr allocator_create_def)
  have fresh: "node_id nd \<noteq> i" if "node_at r a = Some nd" for a nd
    using pool_of_node [OF ok(1) that] ok(3) new by auto
  have "allocs r \<noteq> []" using ok(2) t'(1) by auto
  from alloc_create_ok [OF ok(1) this, where i = i and c = c and b = b] fresh obtain r' where r':
    "(alloc_create c i b r :: 'e fault + _) = Inr (Some (next_addr r), r')" "arena_ok r'"
    "length (allocs r') = length (allocs r)" "running_task r' = running_task r"
    "node_at r' = (node_at r)(next_addr r \<mapsto> new_node c i b)"
    "pool_of r' = (pool_of r)(i \<mapsto> \<lparr>fn = b, execute_cnt = 0, suspend_cnt = 0, yield_cnt = 0\<rparr>)"
    "\<forall>q < length (allocs r). pool_ids r' q = pool_ids r q @ (if q = i mod length (allocs r) then [i] else [])" by blast
  have "\<exists>a nd. running_task r' w = Some a \<and> node_at r' a = Some nd \<and> node_id nd = i" if "running t w = Some i" for w i
  proof -
    obtain a nd where a: "running_task r w = Some a" "node_at r a = Some nd" "node_id nd = i"
      using ok(5) \<open>running t w = Some i\<close> t'(2) by metis
    then have "a \<noteq> next_addr r" using arena_okD(2) [OF ok(1)] by blast
    with a show ?thesis by (simp add: r')
  qed
  moreover have "node_ctx nd = c" if "node_at r' a = Some nd" for a nd
    using that ok(4) by (auto simp: r' new_node_def split: if_splits)
  ultimately have "implements c r' t" using r' ok t' by (simp add: implements_def)
  moreover have "handle_of r' i = Some (next_addr r)"
    using arena_okD(2) [OF r'(2), of "next_addr r" "new_node c i b"] by (simp add: r'(5) new_node_def)
  ultimately show ?thesis using r'(1,7) ok(2) by auto
qed

lemma implements_write:
  fixes r :: "('e, 'v, 'l) arena" and s :: "('e, 'v) sched"
  assumes im: "implements c r s" and nd: "node_at r a = Some nd" and f: "node_id (f nd) = node_id nd" "node_ctx (f nd) = node_ctx nd"
    and t: "pool t = (pool s)(node_id nd \<mapsto> node_task (f nd))" "n_partition t = n_partition s"
      "\<And>w i. running t w = Some i \<Longrightarrow> running s w = Some i"
  shows "\<exists>r'. (write_node (Some a) f r :: 'e fault + _) = Inr r' \<and> implements c r' t"
proof -
  note ok = implementsD [OF im]
  from write_node_ok [of r a nd f, OF ok(1) nd f(1)] obtain r' where r': "(write_node (Some a) f r :: 'e fault + _) = Inr r'" "arena_ok r'"
    "length (allocs r') = length (allocs r)" "running_task r' = running_task r" "node_at r' = (node_at r)(a \<mapsto> f nd)"
    "pool_of r' = (pool_of r)(node_id nd \<mapsto> node_task (f nd))" by blast
  have "\<exists>a nd. running_task r' w = Some a \<and> node_at r' a = Some nd \<and> node_id nd = i" if "running t w = Some i" for w i
    using ok(5) [OF t(3) [OF that]] nd f(1) by (auto simp: r')
  moreover have "node_ctx x = c" if "node_at r' b = Some x" for b x
    using that ok(4) nd f(2) by (auto simp: r' split: if_splits)
  ultimately have "implements c r' t" using r' ok t by (simp add: implements_def)
  with r'(1) show ?thesis by blast
qed

lemma implements_take:
  fixes r :: "('e, 'v, 'l) arena" and s :: "('e, 'v) sched"
  assumes im: "implements c r s" and pl: "placed s" and t: "take_task w i s = Inr (True, t)" and j: "running t w = Some j"
  shows "\<exists>r'. (execute_start w (handle_of r j) r :: 'e fault + _) = Inr r' \<and> implements c r' t"
proof -
  note ok = implementsD [OF im]
  from t show ?thesis
  proof (cases rule: take_task_Inr)
    case (hit k q)
    then have k: "k = j" using j by simp
    have "at_place s (InRunq (i mod n_partition s)) j" using hit k by simp
    then obtain tk where tk: "pool s j = Some tk" using placed_pool [OF pl] by blast
    then obtain a nd where a: "handle_of r j = Some a" "node_at r a = Some nd" "node_id nd = j" "node_task nd = tk"
      using pool_of_Some [OF ok(1)] ok(3) by metis
    define r1 where "r1 = r\<lparr>running_task := (running_task r)(w := Some a)\<rparr>"
    define s1 where "s1 = s\<lparr>running := (running s)(w := Some j)\<rparr>"
    have same: "handle_of r1 = handle_of r" "pool_of r1 = pool_of r" "arena_ok r1 = arena_ok r"
      by (simp_all add: fun_eq_iff handle_of_def pool_of_def deref_def arena_ok_def r1_def split: option.split)
    have "implements c r1 s1"
      using ok a unfolding implements_def same by (auto simp: r1_def s1_def)
    from implements_write [OF this, of a nd "\<lambda>nd. nd\<lparr>node_task := (node_task nd)\<lparr>execute_cnt := Suc (execute_cnt (node_task nd))\<rparr>\<rparr>" t]
    show ?thesis using a hit k tk by (simp add: execute_start_def r1_def s1_def)
  qed simp
qed

lemma implements_end:
  fixes r :: "('e, 'v, 'l) arena" and s :: "('e, 'v) sched"
  assumes im: "implements c r s" and pl: "placed s" and t: "end_task w s = Inr t"
  shows "\<exists>r'. execute_end w r = Inr r' \<and> implements c r' t"
proof -
  note ok = implementsD [OF im]
  have node: "\<exists>a nd. running_task r w = Some a \<and> node_at r a = Some nd \<and> node_id nd = i \<and> node_task nd = k"
    if "running s w = Some i" "pool s i = Some k" for i k
    using ok(5) [OF that(1)] that(2) pool_of_node [OF ok(1)] ok(3) by fastforce
  from t show ?thesis
  proof (cases rule: end_task_Inr)
    case (complete i k v)
    obtain a nd where a: "running_task r w = Some a" "node_at r a = Some nd" "node_id nd = i" "node_task nd = k"
      using node [OF complete(1,2)] by blast
    obtain r' where r': "(alloc_destroy (Some a) r :: 'e fault + _) = Inr r'" "arena_ok r'" "length (allocs r') = length (allocs r)"
      "running_task r' = running_task r" "node_at r' = (node_at r)(a := None)" "pool_of r' = (pool_of r)(i := None)"
      using alloc_destroy_ok [OF ok(1) a(2)] a(3) by blast
    have "\<exists>b x. running_task r' v = Some b \<and> node_at r' b = Some x \<and> node_id x = j" if v: "running t v = Some j" for v j
    proof -
      have "v \<noteq> w" "running s v = Some j" using v by (auto simp: complete(4) split: if_splits)
      then have "j \<noteq> i" using placed_unique [OF pl, of "OnWorker v" i "OnWorker w"] complete(1) by auto
      with ok(5) [OF \<open>running s v = Some j\<close>] a(2,3) show ?thesis by (metis fun_upd_apply option.inject r'(4,5))
    qed
    moreover have "node_ctx x = c" if "node_at r' b = Some x" for b x
      using that ok(4) by (auto simp: r' split: if_splits)
    ultimately have "implements c r' t" using r' ok by (simp add: implements_def complete(4))
    with r'(1) a complete(3) show ?thesis by (simp add: execute_end_def deref_def)
  next
    case (yielded i k b)
    obtain a nd where a: "running_task r w = Some a" "node_at r a = Some nd" "node_id nd = i" "node_task nd = k"
      using node [OF yielded(1,2)] by blast
    have "running s v = Some j" if "running t v = Some j" for v j using that by (auto simp: yielded(5) split: if_splits)
    with implements_write [OF im a(2), of "\<lambda>nd. nd\<lparr>node_task := (node_task nd)\<lparr>fn := b, yield_cnt := Suc (yield_cnt (node_task nd))\<rparr>\<rparr>" t]
    show ?thesis using a yielded(3) by (simp add: execute_end_def deref_def yielded(5))
  next
    case (waits i k d b)
    obtain a nd where a: "running_task r w = Some a" "node_at r a = Some nd" "node_id nd = i" "node_task nd = k"
      using node [OF waits(1,2)] by blast
    have "running s v = Some j" if "running t v = Some j" for v j using that by (auto simp: waits(4) split: if_splits)
    with implements_write [OF im a(2), of "\<lambda>nd. nd\<lparr>node_task := (node_task nd)\<lparr>fn := b, suspend_cnt := Suc (suspend_cnt (node_task nd))\<rparr>\<rparr>" t]
    show ?thesis using a waits(3) by (simp add: execute_end_def deref_def waits(4))
  qed
qed

text \<open>
  Both descriptions run side by side: each step of the schedulers, with what it does to the
  memory of the allocators; and user code that writes to its locals.
\<close>

inductive joint :: "nat \<Rightarrow> nat \<Rightarrow> ('e, 'v, 'l) arena \<Rightarrow> ('e, 'v) sched \<Rightarrow> bool" for c n where
  joint_init: "joint c n (arena_init n) (sched_init n)"
| joint_fetch: "joint c n r s \<Longrightarrow> joint c n r (fetch_id b s)"
| joint_allocate: "joint c n r s \<Longrightarrow> spawns s i = Some (Fetched b) \<Longrightarrow> allocate i b s = Inr t \<Longrightarrow>
    (alloc_create c i b r :: 'e fault + _) = Inr (h, r') \<Longrightarrow> joint c n r' t"
| joint_push: "joint c n r s \<Longrightarrow> spawns s i = Some Allocated \<Longrightarrow> push_new i s = Inr t \<Longrightarrow> joint c n r t"
| joint_take: "joint c n r s \<Longrightarrow> running s w = None \<Longrightarrow> take_task w i s = Inr (True, t) \<Longrightarrow> running t w = Some j \<Longrightarrow>
    (execute_start w (handle_of r j) r :: 'e fault + _) = Inr r' \<Longrightarrow> joint c n r' t"
| joint_end: "joint c n r s \<Longrightarrow> end_task w s = Inr t \<Longrightarrow> execute_end w r = Inr r' \<Longrightarrow> joint c n r' t"
| joint_notify: "joint c n r s \<Longrightarrow> notify d s = Inr t \<Longrightarrow> joint c n r t"
| joint_locals: "joint c n r s \<Longrightarrow> running s w = Some i \<Longrightarrow> (set_locals w ls r :: 'e fault + _) = Inr r' \<Longrightarrow> joint c n r' s"

lemma implements_locals:
  fixes r :: "('e, 'v, 'l) arena" and s :: "('e, 'v) sched"
  assumes "implements c r s" "running s w = Some i"
  shows "\<exists>r'. (set_locals w ls r :: 'e fault + _) = Inr r' \<and> implements c r' s"
proof -
  obtain a nd where a: "running_task r w = Some a" "node_at r a = Some nd" "node_id nd = i"
    using implementsD(5) [OF assms] by blast
  have "pool s i = Some (node_task nd)"
    using pool_of_node [OF implementsD(1) [OF assms(1)] a(2)] implementsD(3) [OF assms(1)] a(3) by simp
  with implements_write [OF assms(1) a(2), of "\<lambda>nd. nd\<lparr>node_locals := ls\<rparr>" s] a show ?thesis
    by (simp add: set_locals_def fun_upd_idem)
qed

lemma joint_invariant: "joint c n r s \<Longrightarrow> sched_reach n s \<and> n_partition s = n \<and> implements c r s"
proof (induction rule: joint.induct)
  case joint_init
  have "n_partition (sched_init n) = n" by (simp add: sched_init_def)
  then show ?case by (blast intro: sched_reach.reach_init implements_init)
next
  case (joint_fetch r s b)
  then show ?case using sched_reach.reach_fetch implements_fetch by (auto simp: fetch_id_def)
next
  case (joint_allocate r s i b t h r')
  then have s: "sched_reach n s" "implements c r s" by blast+
  have "pool s i = None" using sched_reach_placed [OF s(1)] joint_allocate.hyps(2) unfolding placed_def by blast
  then have "implements c r' t"
    using implements_allocate [OF s(2) _ joint_allocate.hyps(3)] joint_allocate.hyps(4) by auto
  moreover have "n_partition t = n_partition s"
    using joint_allocate.hyps(3) by (auto simp: allocate_def and_then_Inr allocator_create_def)
  ultimately show ?case
    using sched_reach.reach_allocate [OF s(1) joint_allocate.hyps(2,3)] joint_allocate.IH by simp
next
  case (joint_push r s i t)
  then have s: "sched_reach n s" "implements c r s" by blast+
  have "n_partition t = n_partition s" using joint_push.hyps(3) by (auto simp: push_new_def push_task_Inr)
  then show ?case
    using sched_reach.reach_push [OF s(1) joint_push.hyps(2,3)] implements_push [OF s(2) joint_push.hyps(3)] joint_push.IH by simp
next
  case (joint_take r s w i t j r')
  then have s: "sched_reach n s" "implements c r s" by blast+
  have "implements c r' t"
    using implements_take [OF s(2) sched_reach_placed [OF s(1)] joint_take.hyps(3,4)] joint_take.hyps(5) by (metis sum.inject(2))
  then show ?case
    using sched_reach.reach_take [OF s(1) joint_take.hyps(2,3)] take_task_n_partition [OF joint_take.hyps(3)] joint_take.IH by simp
next
  case (joint_end r s w t r')
  then have s: "sched_reach n s" "implements c r s" by blast+
  have "implements c r' t"
    using implements_end [OF s(2) sched_reach_placed [OF s(1)] joint_end.hyps(2)] joint_end.hyps(3) by (metis sum.inject(2))
  then show ?case
    using sched_reach.reach_end [OF s(1) joint_end.hyps(2)] end_task_n_partition [OF joint_end.hyps(2)] joint_end.IH by simp
next
  case (joint_notify r s d t)
  have t: "pool t = pool s" "n_partition t = n_partition s" "running t = running s"
    using joint_notify.hyps(2) by (auto simp: notify_def push_task_Inr split: list.splits)
  with joint_notify.IH implements_frame sched_reach.reach_notify [OF _ joint_notify.hyps(2)] show ?case by metis
next
  case (joint_locals r s w i ls r')
  with implements_locals [of c r s w i ls] show ?case by auto
qed

lemma pool_ids_of:
  assumes "arena_ok r" "p < length (allocs r)"
  shows "set (pool_ids r p) = {i. pool_of r i \<noteq> None \<and> i mod length (allocs r) = p}" "distinct (pool_ids r p)"
proof -
  let ?f = "\<lambda>a. case node_at r a of None \<Rightarrow> 0 | Some nd \<Rightarrow> node_id nd"
  note al = arena_okD(3) [OF assms]
  show "set (pool_ids r p) = {i. pool_of r i \<noteq> None \<and> i mod length (allocs r) = p}"
  proof (intro equalityI subsetI)
    fix i assume "i \<in> set (pool_ids r p)"
    then show "i \<in> {i. pool_of r i \<noteq> None \<and> i mod length (allocs r) = p}"
      using al pool_of_node [OF assms(1)] by (auto simp: pool_ids_def)
  next
    fix i assume i: "i \<in> {i. pool_of r i \<noteq> None \<and> i mod length (allocs r) = p}"
    then obtain a nd where "node_at r a = Some nd" "node_id nd = i" using pool_of_Some [OF assms(1)] by blast
    with i al show "i \<in> set (pool_ids r p)" by (force simp: pool_ids_def)
  qed
  have "inj_on ?f (set (alloc_pool (allocs r ! p)))"
  proof (rule inj_onI)
    fix a b assume "a \<in> set (alloc_pool (allocs r ! p))" "b \<in> set (alloc_pool (allocs r ! p))" "?f a = ?f b"
    moreover from this(1,2) obtain x y where "node_at r a = Some x" "node_at r b = Some y" unfolding al by blast
    ultimately show "a = b" using arena_okD(2) [OF assms(1), of a x] arena_okD(2) [OF assms(1), of b y] by simp
  qed
  then show "distinct (pool_ids r p)" using arena_okD(4) [OF assms] by (simp add: pool_ids_def distinct_map)
qed

text \<open>
  C7: The allocators are correct: however the steps of concurrent spawns (fetching an id,
  allocating, pushing), worker steps, notifications and writes to locals interleave, looking an id
  up in the lists and indices gives exactly the task that the abstract map of the schedulers has for
  it, each partition's pool lists its tasks, each once, and each worker's \<open>_running_task\<close> points to
  the live node of the task it runs, with the right id and context; no step that the schedulers
  can take ever fails in the allocator, neither by \<open>_index.at\<close> nor by a dangling handle; and an
  allocation puts the new task behind those of its partition and no other, and answers the handle
  under which the index has it.
\<close>

theorem allocators_implement_pool:
  fixes r :: "('e, 'v, 'l) arena" and s :: "('e, 'v) sched"
  assumes "joint c n r s"
  shows "pool_of r = pool s \<and>
    (\<forall>p < n. distinct (pool_ids r p) \<and> set (pool_ids r p) = {i. pool s i \<noteq> None \<and> i mod n = p}) \<and>
    (\<forall>w i. running s w = Some i \<longrightarrow> (\<exists>nd. deref (running_task r w) r = Some nd \<and> node_id nd = i \<and> node_ctx nd = c)) \<and>
    (\<forall>w t. end_task w s = Inr t \<longrightarrow> (\<exists>r'. execute_end w r = Inr r' \<and> joint c n r' t)) \<and>
    (\<forall>i b t. spawns s i = Some (Fetched b) \<longrightarrow> allocate i b s = Inr t \<longrightarrow>
      (\<exists>a r'. (alloc_create c i b r :: 'e fault + _) = Inr (Some a, r') \<and> joint c n r' t \<and> handle_of r' i = Some a \<and>
        (\<forall>p < n. pool_ids r' p = pool_ids r p @ (if p = i mod n then [i] else [])))) \<and>
    (\<forall>w i t j. running s w = None \<longrightarrow> take_task w i s = Inr (True, t) \<longrightarrow> running t w = Some j \<longrightarrow>
      (\<exists>r'. (execute_start w (handle_of r j) r :: 'e fault + _) = Inr r' \<and> joint c n r' t))"
proof -
  have j: "sched_reach n s" "n_partition s = n" and im: "implements c r s" using joint_invariant [OF assms] by auto
  note ok = implementsD [OF im] and pl = sched_reach_placed [OF j(1)]
  have len: "length (allocs r) = n" using ok(2) j(2) by simp
  have run: "\<exists>nd. deref (running_task r w) r = Some nd \<and> node_id nd = i \<and> node_ctx nd = c" if "running s w = Some i" for w i
    using ok(5) [OF that] ok(4) by (auto simp: deref_def)
  have "\<exists>r'. execute_end w r = Inr r' \<and> joint c n r' t" if "end_task w s = Inr t" for w t
    using implements_end [OF im pl that] joint_end [OF assms that] by blast
  moreover have "\<exists>a r'. (alloc_create c i b r :: 'e fault + _) = Inr (Some a, r') \<and> joint c n r' t \<and> handle_of r' i = Some a \<and>
      (\<forall>p < n. pool_ids r' p = pool_ids r p @ (if p = i mod n then [i] else []))"
    if i: "spawns s i = Some (Fetched b)" "allocate i b s = Inr t" for i b t
  proof -
    have "pool s i = None" using pl i(1) unfolding placed_def by blast
    from implements_allocate [OF im this i(2)] joint_allocate [OF assms i] j(2) show ?thesis by blast
  qed
  moreover have "\<exists>r'. (execute_start w (handle_of r j) r :: 'e fault + _) = Inr r' \<and> joint c n r' t"
    if "running s w = None" "take_task w i s = Inr (True, t)" "running t w = Some j" for w i t j
    using implements_take [OF im pl that(2,3)] joint_take [OF assms that] by blast
  moreover have "distinct (pool_ids r p) \<and> set (pool_ids r p) = {i. pool s i \<noteq> None \<and> i mod n = p}" if "p < n" for p
    using pool_ids_of [OF ok(1), of p] that len ok(3) by simp
  ultimately show ?thesis using run ok(3) by blast
qed

text \<open>
  Two threads spawn at once in a context of one worker, which then runs the first task: the second
  id is allocated first, so a pool need not list its tasks in the order of their ids.
\<close>

definition demo_body :: "(request, nat, int) body" where
  "demo_body = Leaf Yield (Return 1)"

lemma two_tasks:
  "\<exists>(r :: (nat, int, nat) arena) s. joint 7 1 r s \<and> running s 0 = Some 0 \<and> pool_ids r 0 = [1, 0] \<and> runq s 0 = [1]"
proof -
  let ?r0 = "arena_init 1 :: (nat, int, nat) arena"
  let ?s1 = "fetch_id demo_body (fetch_id demo_body (sched_init 1)) :: (nat, int) sched"
  have j1: "joint 7 1 ?r0 ?s1" by (intro joint_fetch joint_init)
  have s1: "spawns ?s1 1 = Some (Fetched demo_body)" "spawns ?s1 0 = Some (Fetched demo_body)" "n_partition ?s1 = 1"
    "runq ?s1 = (\<lambda>_. [])" "running ?s1 = (\<lambda>_. None)"
    by (simp_all add: fetch_id_def sched_init_def)
  obtain s2 where s2: "allocate 1 demo_body ?s1 = Inr s2" "spawns s2 = (spawns ?s1)(1 \<mapsto> Allocated)" "n_partition s2 = 1"
    "runq s2 = (\<lambda>_. [])" "running s2 = (\<lambda>_. None)"
    using s1 by (simp add: allocate_def slot_def allocator_create_def)
  obtain r2 where r2: "(alloc_create 7 1 demo_body ?r0 :: nat fault + _) = Inr (Some 0, r2)" "next_addr r2 = 1"
    "allocs r2 = [\<lparr>alloc_pool = [0], alloc_index = [1 \<mapsto> 0]\<rparr>]" "node_at r2 = [0 \<mapsto> new_node 7 1 demo_body]"
    by (simp add: alloc_create_def alloc_slot_def arena_init_def Let_def)
  have j2: "joint 7 1 r2 s2" by (rule joint_allocate [OF j1 s1(1) s2(1) r2(1)])
  obtain s3 where s3: "allocate 0 demo_body s2 = Inr s3" "spawns s3 = (spawns s2)(0 \<mapsto> Allocated)" "n_partition s3 = 1"
    "runq s3 = (\<lambda>_. [])" "running s3 = (\<lambda>_. None)"
    using s2 by (simp add: allocate_def slot_def allocator_create_def)
  obtain r3 where r3: "(alloc_create 7 0 demo_body r2 :: nat fault + _) = Inr (Some 1, r3)"
    "allocs r3 = [\<lparr>alloc_pool = [0, 1], alloc_index = [1 \<mapsto> 0, 0 \<mapsto> 1]\<rparr>]"
    "node_at r3 = [0 \<mapsto> new_node 7 1 demo_body, 1 \<mapsto> new_node 7 0 demo_body]"
    using r2 by (simp add: alloc_create_def alloc_slot_def Let_def)
  have "spawns s2 0 = Some (Fetched demo_body)" using s1 s2 by simp
  then have j3: "joint 7 1 r3 s3" by (rule joint_allocate [OF j2 _ s3(1) r3(1)])
  obtain s4 where s4: "push_new 0 s3 = Inr s4" "spawns s4 = (spawns s3)(0 := None)" "n_partition s4 = 1"
    "runq s4 0 = [0]" "running s4 = (\<lambda>_. None)"
    using s3 by (simp add: push_new_def push_task_def slot_def)
  obtain s5 where s5: "push_new 1 s4 = Inr s5" "n_partition s5 = 1" "runq s5 0 = [0, 1]" "running s5 0 = None"
    using s4 by (simp add: push_new_def push_task_def slot_def)
  have "spawns s3 0 = Some Allocated" "spawns s4 1 = Some Allocated" using s2(2) s3(2) s4(2) by simp_all
  then have j5: "joint 7 1 r3 s5" by (metis joint_push j3 s4(1) s5(1))
  obtain s6 where s6: "take_task 0 0 s5 = Inr (True, s6)" "running s6 0 = Some 0" "runq s6 0 = [1]"
    using s5 by (simp add: take_task_def pop_task_def slot_def)
  have h: "handle_of r3 0 = Some 1" by (simp add: handle_of_def r3)
  obtain r6 where r6: "(execute_start 0 (Some 1) r3 :: nat fault + _) = Inr r6" "pool_ids r6 0 = [1, 0]"
    using r3(3) by (simp add: execute_start_def write_node_def deref_def pool_ids_def r3(2) new_node_def)
  have "joint 7 1 r6 s6" using joint_take [OF j5 s5(4) s6(1,2)] r6(1) h by simp
  with s6 r6 show ?thesis by blast
qed

theorem allocators_implement_pool_witness:
  "\<exists>(r :: (nat, int, nat) arena) (s :: (nat, int) sched). pool_ids r 0 = [1, 0] \<and> running s 0 = Some 0 \<and>
     pool_of r = pool s \<and> (\<exists>nd. deref (running_task r 0) r = Some nd \<and> node_id nd = 0 \<and> node_ctx nd = 7)"
proof -
  obtain r :: "(nat, int, nat) arena" and s where j: "joint 7 1 r s" "running s 0 = Some 0" "pool_ids r 0 = [1, 0]"
    using two_tasks by blast
  note a = allocators_implement_pool [OF j(1)]
  from a have "pool_of r = pool s" by (rule conjunct1)
  moreover from a j(2) have "\<exists>nd. deref (running_task r 0) r = Some nd \<and> node_id nd = 0 \<and> node_ctx nd = 7"
    by (elim conjE) simp
  ultimately show ?thesis using j(2,3) by (intro exI [of _ r] exI [of _ s]) simp
qed

section \<open>The id a coroutine sees\<close>

lemma through_int_of_nat: "through_int (of_nat i) = of_int (signed_take_bit 31 (int i))"
proof -
  have "(ucast (of_nat i :: size_t) :: int32) = of_nat (take_bit 64 i)" by (rule unsigned_of_nat [where 'b = 64, simplified])
  then have "through_int (of_nat i) = of_int (signed_take_bit 31 (int (take_bit 64 i)))"
    unfolding through_int_def by (simp only: signed_of_nat) simp
  then show ?thesis by (simp add: of_nat_take_bit signed_take_bit_take_bit)
qed

lemma signed_take_bit_31_cong: "x mod 2 ^ 32 = y mod 2 ^ 32 \<Longrightarrow> signed_take_bit 31 x = signed_take_bit 31 (y :: int)"
  unfolding signed_take_bit_eq_iff_take_bit_eq by (simp add: take_bit_eq_mod)

lemma through_int_same: "i < 2 ^ 31 \<Longrightarrow> through_int (of_nat i) = of_nat i"
  by (simp add: through_int_of_nat signed_take_bit_int_eq_self)

lemma through_int_other:
  assumes "2 ^ 31 \<le> i" "i < 2 ^ 32"
  shows "through_int (of_nat i) = of_nat i - 2 ^ 32" "through_int (of_nat i) \<noteq> of_nat i"
proof -
  have "signed_take_bit 31 (int i) = signed_take_bit 31 (int i - 2 ^ 32)"
    by (rule signed_take_bit_31_cong) (simp add: mod_diff_right_eq [symmetric])
  also have "\<dots> = int i - 2 ^ 32" using assms by (simp add: signed_take_bit_int_eq_self)
  finally show "through_int (of_nat i) = of_nat i - 2 ^ 32" by (simp add: through_int_of_nat)
  then show "through_int (of_nat i) \<noteq> of_nat i" by simp
qed

lemma through_int_collides: "through_int (of_nat (i + 2 ^ 32)) = through_int (of_nat i)"
proof -
  have "signed_take_bit 31 (int (i + 2 ^ 32)) = signed_take_bit 31 (int i)" by (rule signed_take_bit_31_cong) simp
  then show ?thesis by (simp only: through_int_of_nat)
qed

text \<open>
  A running coroutine sees itself: its context is its own, its id is its own as long as
  that fits an \<open>int\<close> (an id from \<open>2 ^ 31\<close> to \<open>2 ^ 32\<close> comes out different), and what it writes to its
  locals is what it reads back, while the locals of the tasks on all other workers, their ids and
  the tasks themselves stay as they were.
\<close>

theorem coroutine_sees_itself:
  fixes r :: "('e, 'v, 'l) arena" and s :: "('e, 'v) sched"
  assumes "joint c n r s" "running s w = Some i"
  shows "this_coroutine_ctx w r = Some c \<and>
    (\<exists>k. this_coroutine_id w r = Some k \<and> (i < 2 ^ 32 \<longrightarrow> (k = of_nat i \<longleftrightarrow> i < 2 ^ 31))) \<and>
    (\<exists>r'. (set_locals w ls r :: 'e fault + _) = Inr r' \<and> this_coroutine_locals w r' = Some ls \<and> pool_of r' = pool_of r \<and>
      (\<forall>v j. v \<noteq> w \<longrightarrow> running s v = Some j \<longrightarrow>
        this_coroutine_locals v r' = this_coroutine_locals v r \<and> this_coroutine_id v r' = this_coroutine_id v r))"
proof -
  have j: "sched_reach n s" and im: "implements c r s" using joint_invariant [OF assms(1)] by auto
  note ok = implementsD [OF im] and pl = sched_reach_placed [OF j]
  obtain a nd where a: "running_task r w = Some a" "node_at r a = Some nd" "node_id nd = i" using ok(5) [OF assms(2)] by blast
  define r' where "r' = r\<lparr>node_at := (node_at r)(a \<mapsto> nd\<lparr>node_locals := ls\<rparr>)\<rparr>"
  have set: "(set_locals w ls r :: 'e fault + _) = Inr r'" using a by (simp add: set_locals_def write_node_def deref_def r'_def)
  have other: "this_coroutine_locals v r' = this_coroutine_locals v r \<and> this_coroutine_id v r' = this_coroutine_id v r"
    if v: "v \<noteq> w" "running s v = Some k" for v k
  proof -
    have "k \<noteq> i" using placed_unique [OF pl, of "OnWorker v" i "OnWorker w"] assms(2) v by auto
    moreover obtain b x where "running_task r v = Some b" "node_at r b = Some x" "node_id x = k" using ok(5) [OF v(2)] by blast
    ultimately show ?thesis using a by (auto simp: this_coroutine_locals_def this_coroutine_id_def deref_def r'_def)
  qed
  have "pool_of r' = pool_of r"
    using implements_locals [OF im assms(2), of ls] set ok(3) by (auto dest: implementsD(3))
  moreover have "this_coroutine_locals w r' = Some ls" using a by (simp add: this_coroutine_locals_def deref_def r'_def)
  moreover have "through_int (of_nat i) = of_nat i \<longleftrightarrow> i < 2 ^ 31" if "i < 2 ^ 32"
    using through_int_same [of i] through_int_other(2) [of i] that by (cases "i < 2 ^ 31") auto
  moreover have "this_coroutine_id w r = Some (through_int (of_nat i))" "this_coroutine_ctx w r = Some c"
    using a ok(4) by (simp_all add: this_coroutine_id_def this_coroutine_ctx_def deref_def)
  ultimately show ?thesis using set other by blast
qed

theorem coroutine_sees_itself_witness:
  "\<exists>(r :: (nat, int, nat) arena) r'. this_coroutine_ctx 0 r = Some 7 \<and> this_coroutine_id 0 r = Some 0 \<and>
     (set_locals 0 [3, 4] r :: nat fault + _) = Inr r' \<and> this_coroutine_locals 0 r' = Some [3, 4]"
proof -
  obtain r :: "(nat, int, nat) arena" and s where j: "joint 7 1 r s" "running s 0 = Some 0" "pool_ids r 0 = [1, 0]"
    using two_tasks by blast
  note t = coroutine_sees_itself [OF j(1,2), of "[3, 4]"]
  from t have "this_coroutine_ctx 0 r = Some 7" by (rule conjunct1)
  moreover from t have "this_coroutine_id 0 r = Some 0" by (elim conjE exE) simp
  moreover from t have "\<exists>r'. (set_locals 0 [3, 4] r :: nat fault + _) = Inr r' \<and> this_coroutine_locals 0 r' = Some [3, 4]" by blast
  ultimately show ?thesis by blast
qed

text \<open>
  After its task has completed, the \<open>_running_task\<close> of a worker still points to the node that was
  freed: moving a \<open>Handler\<close> copies its pointer.
\<close>

lemma completed_handle_dangles:
  fixes r :: "('e, 'v, 'l) arena" and s :: "('e, 'v) sched"
  assumes "joint c n r s" "running s w = Some i" "execute_end w r = Inr r'" "end_task w s = Inr t" "pool t i = None"
  shows "running_task r' w \<noteq> None \<and> deref (running_task r' w) r' = None"
proof -
  have j: "sched_reach n s" and im: "implements c r s" using joint_invariant [OF assms(1)] by auto
  note ok = implementsD [OF im]
  obtain a nd where a: "running_task r w = Some a" "node_at r a = Some nd" "node_id nd = i" using ok(5) [OF assms(2)] by blast
  have task: "pool s i = Some (node_task nd)" using pool_of_node [OF ok(1) a(2)] ok(3) a(3) by simp
  obtain v where v: "slice (fn (node_task nd)) = Completed v"
    using assms(2,4,5) task by (cases rule: end_task_Inr [OF assms(4)]) (auto split: if_splits)
  obtain r1 where "(alloc_destroy (Some a) r :: 'e fault + _) = Inr r1" "running_task r1 = running_task r" "node_at r1 = (node_at r)(a := None)"
    using alloc_destroy_ok [OF ok(1) a(2)] by blast
  with assms(3) a v show ?thesis by (simp add: execute_end_def deref_def)
qed

end
