(* ===== verification/Workers.thy ===== *)
theory Workers
  imports Contexts
begin

text \<open>
  The threads of a \<open>Context\<close> (\<open>src/core/context.cpp\<close>): \<open>_run\<close> on every worker, with its two barriers,
  under every interleaving of the workers with each other, with \<open>shutdown\<close>, and with other
  threads that spawn tasks and create timers. The start of a worker, a turn of its loop and
  its end are steps; what they do is defined in the theory of contexts.
\<close>

section \<open>State\<close>

text \<open>
  Where a worker is: before the first barrier, waiting at the first (0) or second (1), in its loop,
  after the second barrier, or returned.
\<close>

datatype worker_pc = Starting | AtBarrier nat | Looping | Closing | Exited

text \<open>
  \<open>std::barrier\<close> for \<open>n\<close> threads: how many have arrived in the current phase, and how many phases
  are complete. \<open>signal_of\<close> is the \<open>EventLazySignal\<close> on the stack of a worker, while it exists.
\<close>

record ('e, 'v, 'f, 'c) crew =
  at_pc :: "nat \<Rightarrow> worker_pc"
  arrivals :: nat
  phase :: nat
  stopping :: bool
  signal_of :: "nat \<Rightarrow> lazy option"
  core :: "('e, 'v, 'f, 'c) engine"

definition new_crew :: "('e, 'v, 'f, 'c) engine \<Rightarrow> ('e, 'v, 'f, 'c) crew" where
  "new_crew g = \<lparr>at_pc = (\<lambda>_. Starting), arrivals = 0, phase = 0, stopping = False, signal_of = (\<lambda>_. None), core = g\<rparr>"

text \<open>What \<open>startup\<close> makes: \<open>n\<close> partitions of everything.\<close>

definition new_engine :: "nat \<Rightarrow> ('e, 'v, 'f, 'c) engine" where
  "new_engine n = \<lparr>tasks = sched_init n, clocks = timed_init n, handlers = replicate n new_handler, last_poll = (\<lambda>_. 0)\<rparr>"

definition move_to :: "nat \<Rightarrow> worker_pc \<Rightarrow> ('e, 'v, 'f, 'c) crew \<Rightarrow> ('e, 'v, 'f, 'c) crew" where
  "move_to w p c = c\<lparr>at_pc := (at_pc c)(w := p)\<rparr>"

text \<open>\<open>arrive_and_wait\<close> up to waiting: the last one to arrive completes the phase.\<close>

definition arrive :: "nat \<Rightarrow> nat \<Rightarrow> nat \<Rightarrow> ('e, 'v, 'f, 'c) crew \<Rightarrow> ('e, 'v, 'f, 'c) crew" where
  "arrive n w k c =
     (let c' = move_to w (AtBarrier k) c
      in if Suc (arrivals c) = n then c'\<lparr>arrivals := 0, phase := Suc (phase c)\<rparr> else c'\<lparr>arrivals := Suc (arrivals c)\<rparr>)"

section \<open>Steps\<close>

text \<open>
  What the steps of other threads leave alone while a worker is in its loop: who has registered a
  signal, the number of partitions, and the local variables of the worker. That nobody registers or
  drops a signal then is what the barriers are for, and follows from the theorem on them.
\<close>

definition same_signals :: "('e, 'v) sched \<Rightarrow> ('e, 'v) sched \<Rightarrow> bool" where
  "same_signals s t \<longleftrightarrow> signalled t = signalled s \<and> n_partition t = n_partition s"

definition same_timer_signals :: "'f timed \<Rightarrow> 'f timed \<Rightarrow> bool" where
  "same_timer_signals s t \<longleftrightarrow> has_signal t = has_signal s"

definition others_keep :: "nat \<Rightarrow> ('e, 'v, 'f, 'c) engine \<Rightarrow> ('e, 'v, 'f, 'c) engine \<Rightarrow> bool" where
  "others_keep w g h \<longleftrightarrow> same_signals (tasks g) (tasks h) \<and> same_timer_signals (clocks g) (clocks h) \<and>
     length (handlers h) = length (handlers g) \<and> last_poll h w = last_poll g w"

text \<open>
  The steps of worker \<open>w\<close>. In the gaps of a turn the other threads may do anything of this kind.
\<close>

inductive worker_step :: "nat \<Rightarrow> nat \<Rightarrow> ('e, 'v::zero, 'f, 'c) crew \<Rightarrow> ('e, 'v, 'f, 'c) crew \<Rightarrow> bool" for n w where
  run_start: "at_pc c w = Starting \<Longrightarrow> worker_start ok fd f w (core c) = (Inr s, g) \<Longrightarrow>
    worker_step n w c (arrive n w 0 (c\<lparr>core := g, signal_of := (signal_of c)(w \<mapsto> s)\<rparr>))"
| run_enter: "at_pc c w = AtBarrier 0 \<Longrightarrow> phase c > 0 \<Longrightarrow>
    worker_step n w c (move_to w Looping (c\<lparr>core := enter_loop clock w (core c)\<rparr>))"
| run_turn: "at_pc c w = Looping \<Longrightarrow> \<not> stopping c \<Longrightarrow> (\<And>k g. others_keep w g (others k g)) \<Longrightarrow>
    worker_turn clock epoll others w (core c) = Inr (p, calls, g) \<Longrightarrow>
    worker_step n w c (c\<lparr>core := g\<rparr>)"
| run_leave: "at_pc c w = Looping \<Longrightarrow> stopping c \<Longrightarrow> worker_step n w c (arrive n w 1 c)"
| run_close: "at_pc c w = AtBarrier 1 \<Longrightarrow> phase c > 1 \<Longrightarrow> worker_step n w c (move_to w Closing c)"
| run_return: "at_pc c w = Closing \<Longrightarrow> signal_of c w = Some s \<Longrightarrow> worker_stop s w (core c) = Inr g \<Longrightarrow>
    worker_step n w c (move_to w Exited (c\<lparr>core := g, signal_of := (signal_of c)(w := None)\<rparr>))"

text \<open>All steps; \<open>shutdown\<close> sets \<open>_finished\<close> before it joins.\<close>

inductive crew_step :: "nat \<Rightarrow> ('e, 'v::zero, 'f, 'c) crew \<Rightarrow> ('e, 'v, 'f, 'c) crew \<Rightarrow> bool" for n where
  crew_worker: "w < n \<Longrightarrow> worker_step n w c c' \<Longrightarrow> crew_step n c c'"
| crew_shutdown: "crew_step n c (c\<lparr>stopping := True\<rparr>)"
| crew_spawn: "create_scheduled b (tasks (core c)) = Inr ts \<Longrightarrow> crew_step n c (c\<lparr>core := (core c)\<lparr>tasks := ts\<rparr>\<rparr>)"
| crew_timeout: "create_timeout clock f ms (clocks (core c)) = Inr tm \<Longrightarrow> crew_step n c (c\<lparr>core := (core c)\<lparr>clocks := tm\<rparr>\<rparr>)"

inductive crew_reach :: "nat \<Rightarrow> ('e, 'v::zero, 'f, 'c) crew \<Rightarrow> bool" for n where
  crew_start: "crew_reach n (new_crew (new_engine n))"
| crew_next: "crew_reach n c \<Longrightarrow> crew_step n c c' \<Longrightarrow> crew_reach n c'"

section \<open>What a turn leaves alone\<close>

lemma same_signals_end: "end_task w s = Inr t \<Longrightarrow> same_signals s t"
  by (erule end_task_Inr) (simp_all add: same_signals_def)

lemma same_signals_take: "take_task w i s = Inr (ok, t) \<Longrightarrow> same_signals s t"
  by (erule take_task_Inr) (simp_all add: same_signals_def)

lemma same_signals_try: "try_task w i s = Inr (ok, t) \<Longrightarrow> same_signals s t"
proof (erule try_task_Inr)
  fix s1 assume "take_task w i s = Inr (True, s1)" "end_task w s1 = Inr t"
  then show ?thesis using same_signals_take same_signals_end unfolding same_signals_def by metis
qed (simp add: same_signals_def)

interpretation steady: batch_order "try_task w" "(=)" same_signals for w
  by unfold_locales (auto simp: same_signals_def dest: same_signals_try worker.miss)

interpretation steady_timers: batch_order "try_timer clock" only_reads same_timer_signals for clock
  by unfold_locales (auto simp: same_timer_signals_def elim: try_timer_Inr)

definition same_shape :: "('e, 'v, 'f, 'c) engine \<Rightarrow> ('e, 'v, 'f, 'c) engine \<Rightarrow> bool" where
  "same_shape g h \<longleftrightarrow> same_signals (tasks g) (tasks h) \<and> same_timer_signals (clocks g) (clocks h) \<and>
     length (handlers h) = length (handlers g)"

lemma same_shape_trans [trans]: "same_shape f g \<Longrightarrow> same_shape g h \<Longrightarrow> same_shape f h"
  by (simp add: same_shape_def same_signals_def same_timer_signals_def)

lemma read_clock_shape: "read_clock clock g = (now, h) \<Longrightarrow> same_shape g h"
  by (auto simp: read_clock_def same_shape_def same_signals_def same_timer_signals_def)

lemma enter_loop_shape: "same_shape g (enter_loop clock w g)"
  by (simp add: enter_loop_def read_clock_def same_shape_def same_signals_def same_timer_signals_def)

lemma run_tasks_shape: "run_tasks w g = Inr (n, h) \<Longrightarrow> same_shape g h"
  using steady.batch_leq
  by (auto simp: run_tasks_def run_scheduled_def and_then_Inr lift_fault_Inr same_shape_def same_timer_signals_def)

lemma fire_timers_shape: "fire_timers clock w g = Inr (n, h) \<Longrightarrow> same_shape g h"
  using steady_timers.batch_leq
  by (auto simp: fire_timers_def run_timeout_def and_then_Inr lift_fault_Inr same_shape_def same_signals_def)

lemma poll_events_shape: "poll_events clock epoll w t g = Inr (p, calls, h) \<Longrightarrow> same_shape g h"
  by (auto simp: poll_events_def run_handler_def at_handler_def and_then_Inr lift_fault_Inr enter_loop_def read_clock_def
      same_shape_def same_signals_def same_timer_signals_def Let_def split: prod.splits if_splits)

lemma worker_turn_shape:
  assumes "worker_turn clock epoll others w g = Inr (p, calls, h)" "\<And>k e. others_keep w e (others k e)"
  shows "same_shape g h"
proof -
  have o: "same_shape e (others k e)" for k e using assms(2) [of e k] by (simp add: others_keep_def same_shape_def)
  obtain n1 g1 where 1: "run_tasks w g = Inr (n1, g1)" using assms(1) by (auto simp: worker_turn_def and_then_Inr)
  obtain n2 g2 where 2: "fire_timers clock w (others 0 g1) = Inr (n2, g2)"
    using assms(1) 1 by (auto simp: worker_turn_def and_then_Inr)
  obtain now g3 where 3: "read_clock clock (others 1 g2) = (now, g3)" by fastforce
  have 4: "h = others 2 g3 \<or> (\<exists>t. poll_events clock epoll w t (others 3 (others 2 g3)) = Inr (p, calls, h))"
    using assms(1) 1 2 3 by (auto simp: worker_turn_def and_then_Inr Let_def simp del: One_nat_def split: option.splits)
  have "same_shape g (others 2 g3)"
    using run_tasks_shape [OF 1] o [of g1 0] fire_timers_shape [OF 2] o [of g2 1] read_clock_shape [OF 3] o [of g3 2]
      same_shape_trans by metis
  with 4 o [of "others 2 g3" 3] poll_events_shape same_shape_trans show ?thesis by metis
qed

section \<open>Phases\<close>

text \<open>Which program points go with a phase of the barrier.\<close>

definition in_phase :: "nat \<Rightarrow> worker_pc \<Rightarrow> bool" where
  "in_phase k p \<longleftrightarrow>
     k = 0 \<and> p \<in> {Starting, AtBarrier 0} \<or> k = 1 \<and> p \<in> {AtBarrier 0, Looping, AtBarrier 1} \<or>
     k = 2 \<and> p \<in> {AtBarrier 1, Closing, Exited}"

definition waiting_in :: "nat \<Rightarrow> ('e, 'v, 'f, 'c) crew \<Rightarrow> nat set" where
  "waiting_in n c = {w. w < n \<and> at_pc c w = AtBarrier (phase c)}"

definition barrier_inv :: "nat \<Rightarrow> ('e, 'v, 'f, 'c) crew \<Rightarrow> bool" where
  "barrier_inv n c \<longleftrightarrow> (\<forall>w < n. in_phase (phase c) (at_pc c w)) \<and> arrivals c = card (waiting_in n c) \<and>
     (n > 0 \<longrightarrow> card (waiting_in n c) < n)"

definition runs :: "worker_pc \<Rightarrow> bool" where
  "runs p \<longleftrightarrow> p \<noteq> Starting \<and> p \<noteq> Exited"

definition signals_inv :: "nat \<Rightarrow> ('e, 'v, 'f, 'c) crew \<Rightarrow> bool" where
  "signals_inv n c \<longleftrightarrow>
     (\<forall>w < n. (signal_of c w \<noteq> None) = runs (at_pc c w) \<and> signalled (tasks (core c)) w = runs (at_pc c w) \<and>
        has_signal (clocks (core c)) w = (at_pc c w \<noteq> Starting)) \<and>
     n_partition (tasks (core c)) = n \<and> length (handlers (core c)) = n \<and>
     (\<forall>w < n. at_pc c w \<in> {AtBarrier 1, Closing, Exited} \<longrightarrow> stopping c)"

lemma move_to_fields [simp]:
  "at_pc (move_to w p c) = (at_pc c)(w := p)" "arrivals (move_to w p c) = arrivals c" "phase (move_to w p c) = phase c"
  "stopping (move_to w p c) = stopping c" "signal_of (move_to w p c) = signal_of c" "core (move_to w p c) = core c"
  by (simp_all add: move_to_def)

lemma arrive_fields [simp]:
  "at_pc (arrive n w k c) = (at_pc c)(w := AtBarrier k)" "stopping (arrive n w k c) = stopping c"
  "signal_of (arrive n w k c) = signal_of c" "core (arrive n w k c) = core c"
  "phase (arrive n w k c) = (if Suc (arrivals c) = n then Suc (phase c) else phase c)"
  "arrivals (arrive n w k c) = (if Suc (arrivals c) = n then 0 else Suc (arrivals c))"
  by (simp_all add: arrive_def Let_def)

lemma barrier_move:
  assumes "barrier_inv n c" "at_pc c w \<noteq> AtBarrier (phase c)" "p \<noteq> AtBarrier (phase c)" "in_phase (phase c) p"
  shows "barrier_inv n (move_to w p c)"
proof -
  have "waiting_in n (move_to w p c) = waiting_in n c" using assms(2,3) by (auto simp: waiting_in_def)
  with assms(1,4) show ?thesis by (simp add: barrier_inv_def)
qed

lemma barrier_arrive:
  assumes inv: "barrier_inv n c" and w: "w < n" and pc: "at_pc c w \<noteq> AtBarrier (phase c)" and k: "phase c \<le> 1"
  shows "barrier_inv n (arrive n w (phase c) c)"
proof -
  let ?c = "move_to w (AtBarrier (phase c)) c"
  have set: "waiting_in n ?c = insert w (waiting_in n c)" "w \<notin> waiting_in n c" "finite (waiting_in n c)"
    using w pc by (auto simp: waiting_in_def)
  then have card: "card (waiting_in n ?c) = Suc (arrivals c)" using inv by (simp add: barrier_inv_def)
  show ?thesis
  proof (cases "Suc (arrivals c) = n")
    case True
    have sub: "waiting_in n ?c \<subseteq> {..<n}" by (auto simp: waiting_in_def)
    have "waiting_in n ?c = {..<n}" using card True by (intro card_subset_eq sub) simp_all
    then have mem: "v \<in> waiting_in n ?c" if "v < n" for v using that by blast
    have all: "\<forall>v < n. at_pc (arrive n w (phase c) c) v = AtBarrier (phase c)"
      using mem unfolding waiting_in_def by simp
    then have "waiting_in n (arrive n w (phase c) c) = {}" using True by (auto simp: waiting_in_def)
    moreover have "in_phase (Suc (phase c)) (AtBarrier (phase c))" using k by (cases "phase c") (auto simp: in_phase_def)
    ultimately show ?thesis unfolding barrier_inv_def using True all by (simp del: arrive_fields(1))
  next
    case False
    have "waiting_in n (arrive n w (phase c) c) = waiting_in n ?c" using False by (simp add: waiting_in_def)
    moreover have "in_phase (phase c) (AtBarrier (phase c))" using k by (cases "phase c") (auto simp: in_phase_def)
    moreover have "Suc (arrivals c) < n" using False inv w by (auto simp: barrier_inv_def)
    ultimately show ?thesis using False card inv by (simp add: barrier_inv_def)
  qed
qed

lemma phase_of:
  assumes "barrier_inv n c" "w < n"
  shows "at_pc c w = Starting \<Longrightarrow> phase c = 0" "at_pc c w = Looping \<Longrightarrow> phase c = 1" "at_pc c w = Closing \<Longrightarrow> phase c = 2"
    "at_pc c w = Exited \<Longrightarrow> phase c = 2" "at_pc c w = AtBarrier k \<Longrightarrow> k \<le> 1 \<and> (phase c = k \<or> phase c = Suc k)" "phase c \<le> 2"
  using assms by (auto simp: barrier_inv_def in_phase_def)

lemma barrier_step:
  assumes "worker_step n w c c'" "w < n" "barrier_inv n c"
  shows "barrier_inv n c'"
  using assms(1)
proof cases
  case (run_start ok fd f s g)
  let ?c = "c\<lparr>core := g, signal_of := (signal_of c)(w \<mapsto> s)\<rparr>"
  have "barrier_inv n ?c" using assms(3) by (simp add: barrier_inv_def waiting_in_def)
  from barrier_arrive [OF this assms(2)] phase_of(1) [OF assms(3,2) run_start(2)] run_start show ?thesis by simp
next
  case (run_enter clock)
  let ?c = "c\<lparr>core := enter_loop clock w (core c)\<rparr>"
  have "barrier_inv n ?c" using assms(3) by (simp add: barrier_inv_def waiting_in_def)
  moreover have "phase c = 1" using run_enter phase_of(5) [OF assms(3,2), of 0] by auto
  ultimately show ?thesis using run_enter by (auto simp: in_phase_def intro!: barrier_move)
next
  case (run_turn others clock epoll p calls g)
  with assms(3) show ?thesis by (simp add: barrier_inv_def waiting_in_def)
next
  case run_leave
  with phase_of(2) [OF assms(3,2)] barrier_arrive [OF assms(3,2)] show ?thesis by simp
next
  case run_close
  then have "phase c = 2" using phase_of(5) [OF assms(3,2), of 1] by auto
  with run_close show ?thesis by (auto simp: in_phase_def intro!: barrier_move [OF assms(3)])
next
  case (run_return s g)
  let ?c = "c\<lparr>core := g, signal_of := (signal_of c)(w := None)\<rparr>"
  have "barrier_inv n ?c" using assms(3) by (simp add: barrier_inv_def waiting_in_def)
  from barrier_move [OF this, of w Exited] phase_of(3) [OF assms(3,2) run_return(2)] run_return show ?thesis
    by (simp add: in_phase_def)
qed

lemma signals_step:
  assumes "worker_step n w c c'" "w < n" "barrier_inv n c" "signals_inv n c"
  shows "signals_inv n c'"
  using assms(1)
proof cases
  case (run_start ok fd f s g)
  have "signalled (tasks g) = (signalled (tasks (core c)))(w := True)" "n_partition (tasks g) = n_partition (tasks (core c))"
    "length (handlers g) = length (handlers (core c))" "has_signal (clocks g) = (has_signal (clocks (core c)))(w := True)"
    using run_start(3) assms(2,4)
    by (auto simp: worker_start_def signal_new_def on_scheduled_def on_timeout_def and_then_Inr slot_Inr signals_inv_def at_handler_def
        split: prod.splits sum.splits if_splits)
  with assms(4) run_start show ?thesis by (auto simp: signals_inv_def runs_def)
next
  case (run_enter clock)
  with assms(4) enter_loop_shape [of "core c" clock w] show ?thesis
    by (auto simp: signals_inv_def runs_def same_shape_def same_signals_def same_timer_signals_def)
next
  case (run_turn others clock epoll p calls g)
  with worker_turn_shape [OF run_turn(5,4)] assms(4) show ?thesis
    by (simp add: signals_inv_def same_shape_def same_signals_def same_timer_signals_def)
next
  case run_leave
  with assms(4) show ?thesis by (auto simp: signals_inv_def runs_def)
next
  case run_close
  with assms(2,4) show ?thesis by (auto simp: signals_inv_def runs_def)
next
  case (run_return s g)
  have "signalled (tasks g) = (signalled (tasks (core c)))(w := False)" "n_partition (tasks g) = n_partition (tasks (core c))"
    "length (handlers g) = length (handlers (core c))" "clocks g = clocks (core c)"
    using run_return(4) assms(2,4)
    by (auto simp: worker_stop_def signal_close_def drop_signal_def and_then_Inr slot_Inr lift_fault_Inr signals_inv_def at_handler_def
        split: prod.splits sum.splits if_splits)
  with assms(2,4) run_return show ?thesis by (auto simp: signals_inv_def runs_def)
qed

lemma crew_step_inv:
  assumes "crew_step n c c'" "barrier_inv n c" "signals_inv n c"
  shows "barrier_inv n c' \<and> signals_inv n c'"
  using assms(1)
proof cases
  case (crew_worker w)
  with assms(2,3) barrier_step signals_step show ?thesis by blast
next
  case (crew_spawn b ts)
  then have "signalled ts = signalled (tasks (core c))" "n_partition ts = n_partition (tasks (core c))"
    by (auto simp: create_scheduled_unfold and_then_Inr push_task_Inr allocator_create_def)
  with crew_spawn assms(2,3) show ?thesis by (simp add: barrier_inv_def waiting_in_def signals_inv_def)
next
  case (crew_timeout clock f ms tm)
  then have "has_signal tm = has_signal (clocks (core c))"
    by (auto simp: create_timeout_def timer_push_def and_then_Inr Let_def split: option.splits if_splits)
  with crew_timeout assms(2,3) show ?thesis by (simp add: barrier_inv_def waiting_in_def signals_inv_def)
qed (use assms(2,3) in \<open>simp_all add: barrier_inv_def waiting_in_def signals_inv_def\<close>)

lemma crew_reach_inv: "crew_reach n c \<Longrightarrow> barrier_inv n c \<and> signals_inv n c"
proof (induction rule: crew_reach.induct)
  case crew_start
  show ?case
    by (simp add: barrier_inv_def signals_inv_def waiting_in_def in_phase_def runs_def new_crew_def new_engine_def sched_init_def timed_init_def)
next
  case (crew_next c c')
  then show ?case using crew_step_inv by blast
qed

section \<open>Properties\<close>

text \<open>
  C13: The barriers separate the phases of the workers, in every interleaving: while any worker is in its
  loop, every worker's signal exists, and both its task scheduler and its timer scheduler have it, so
  that a push or a new timer finds a signal to emit for a worker that has not entered its loop yet; when any worker closes, every worker has
  left its loop and a shutdown was asked for; a task scheduler never keeps a signal that is gone with
  the stack of its worker; but the timer scheduler of a worker that has returned does.
\<close>

theorem barriers_separate_phases:
  assumes "crew_reach n c" "w < n" "v < n"
  shows "(at_pc c w = Looping \<longrightarrow> signal_of c v \<noteq> None \<and> signalled (tasks (core c)) v \<and> has_signal (clocks (core c)) v) \<and>
    (at_pc c w \<in> {Closing, Exited} \<longrightarrow> at_pc c v \<in> {AtBarrier 1, Closing, Exited} \<and> stopping c) \<and>
    (signalled (tasks (core c)) v \<longrightarrow> signal_of c v \<noteq> None) \<and>
    (at_pc c v = Exited \<longrightarrow> signal_of c v = None \<and> has_signal (clocks (core c)) v)"
proof -
  have inv: "barrier_inv n c" "signals_inv n c" using crew_reach_inv [OF assms(1)] by auto
  have sg: "(signal_of c v \<noteq> None) = runs (at_pc c v)" "signalled (tasks (core c)) v = runs (at_pc c v)"
    "has_signal (clocks (core c)) v = (at_pc c v \<noteq> Starting)" "at_pc c w \<in> {Closing, Exited} \<longrightarrow> stopping c"
    using inv(2) assms(2,3) unfolding signals_inv_def by blast+
  have pv: "in_phase (phase c) (at_pc c v)" using inv(1) assms(3) by (simp add: barrier_inv_def)
  have "runs (at_pc c v)" if "at_pc c w = Looping"
    using phase_of(2) [OF inv(1) assms(2) that] pv by (auto simp: in_phase_def runs_def)
  moreover have "at_pc c v \<in> {AtBarrier 1, Closing, Exited}" if "at_pc c w \<in> {Closing, Exited}"
    using phase_of(3,4) [OF inv(1) assms(2)] that pv by (auto simp: in_phase_def)
  moreover have "runs p \<Longrightarrow> p \<noteq> Starting" "\<not> runs Exited" for p by (auto simp: runs_def)
  ultimately show ?thesis using sg by (metis worker_pc.distinct)
qed

text \<open>How far a worker is from its end.\<close>

fun distance :: "worker_pc \<Rightarrow> nat" where
  "distance Starting = 5"
| "distance (AtBarrier k) = (if k = 0 then 4 else 2)"
| "distance Looping = 3"
| "distance Closing = 1"
| "distance Exited = 0"

definition work_left :: "nat \<Rightarrow> ('e, 'v, 'f, 'c) crew \<Rightarrow> nat" where
  "work_left n c = (\<Sum>w < n. distance (at_pc c w))"

lemma work_left_less:
  assumes "w < n" "at_pc c' = (at_pc c)(w := p)" "distance p < distance (at_pc c w)"
  shows "work_left n c' < work_left n c"
  unfolding work_left_def
  by (rule sum_strict_mono_ex1) (use assms in auto)

lemma stopping_step:
  assumes "worker_step n w c c'" "w < n" "stopping c"
  shows "stopping c' \<and> work_left n c' < work_left n c"
  using assms(1) by cases (use assms(2,3) in \<open>auto intro!: work_left_less\<close>)

lemma worker_start_succeeds: "handlers g \<noteq> [] \<Longrightarrow> n_partition (tasks g) \<noteq> 0 \<Longrightarrow> \<exists>s g'. worker_start (\<lambda>_. True) fd f w g = (Inr s, g')"
  by (simp add: worker_start_def signal_new_def at_handler_def handler_add_def on_scheduled_def slot_def Let_def)

lemma worker_stop_succeeds: "handlers g \<noteq> [] \<Longrightarrow> n_partition (tasks g) \<noteq> 0 \<Longrightarrow> \<exists>g'. worker_stop s w g = Inr g'"
  by (simp add: worker_stop_def signal_close_def at_handler_def drop_signal_def slot_def)

lemma not_all_waiting:
  assumes "barrier_inv n c" "n > 0"
  shows "\<exists>w < n. at_pc c w \<noteq> AtBarrier (phase c)"
proof (rule ccontr)
  assume "\<not> ?thesis"
  then have "waiting_in n c = {..<n}" by (auto simp: waiting_in_def)
  with assms show False by (simp add: barrier_inv_def)
qed

lemma some_step:
  fixes c :: "('e, 'v::zero, 'f, 'c) crew"
  assumes inv: "barrier_inv n c" "signals_inv n c" and stop: "stopping c" and w: "w < n" "at_pc c w \<noteq> Exited"
  shows "\<exists>v < n. \<exists>c'. worker_step n v c c'"
proof -
  have g: "handlers (core c) \<noteq> []" "n_partition (tasks (core c)) \<noteq> 0" using inv(2) w(1) by (auto simp: signals_inv_def)
  have ph: "in_phase (phase c) (at_pc c v)" if "v < n" for v using inv(1) that by (simp add: barrier_inv_def)
  obtain u where u: "u < n" "at_pc c u \<noteq> AtBarrier (phase c)" using not_all_waiting [OF inv(1)] w(1) by auto
  consider "phase c = 0" | "phase c = 1" | "phase c = 2" using ph [OF w(1)] by (auto simp: in_phase_def)
  then show ?thesis
  proof cases
    case 1
    then have "at_pc c u = Starting" using ph [OF u(1)] u(2) by (auto simp: in_phase_def)
    with u(1) worker_start_succeeds [OF g, of 0 undefined u] run_start show ?thesis by metis
  next
    case 2
    then have "at_pc c u = AtBarrier 0 \<or> at_pc c u = Looping" using ph [OF u(1)] u(2) by (auto simp: in_phase_def)
    then show ?thesis
    proof
      assume "at_pc c u = AtBarrier 0"
      from run_enter [OF this, of n] 2 u(1) show ?thesis by auto
    next
      assume "at_pc c u = Looping"
      from run_leave [OF this stop, of n] u(1) show ?thesis by blast
    qed
  next
    case 3
    then have "at_pc c w = AtBarrier 1 \<or> at_pc c w = Closing" using ph [OF w(1)] w(2) by (auto simp: in_phase_def)
    then show ?thesis
    proof
      assume "at_pc c w = AtBarrier 1"
      from run_close [OF this, of n] 3 w(1) show ?thesis by auto
    next
      assume cl: "at_pc c w = Closing"
      then obtain s where "signal_of c w = Some s" using inv(2) w(1) by (auto simp: signals_inv_def runs_def)
      with cl w(1) worker_stop_succeeds [OF g, of s w] run_return show ?thesis by metis
    qed
  qed
qed

text \<open>
  C14: Shutdown ends: once \<open>_finished\<close> is set, in any reachable state, workers that have not even
  passed the first barrier included, as long as a worker has not returned some worker can make a
  step, and every step of a worker brings the end nearer, so every run of the workers ends
  with all of them returned, and the joins of \<open>shutdown\<close> return.
\<close>

theorem shutdown_ends:
  fixes c :: "('e, 'v::zero, 'f, 'c) crew"
  assumes "crew_reach n c" "stopping c"
  shows "((\<exists>w < n. at_pc c w \<noteq> Exited) \<longrightarrow> (\<exists>v < n. \<exists>c'. worker_step n v c c')) \<and>
    (\<forall>w < n. \<forall>c'. worker_step n w c c' \<longrightarrow> stopping c' \<and> work_left n c' < work_left n c) \<and>
    (\<exists>c'. (crew_step n)\<^sup>*\<^sup>* c c' \<and> (\<forall>w < n. at_pc c' w = Exited))"
proof -
  have inv: "barrier_inv n c" "signals_inv n c" using crew_reach_inv [OF assms(1)] by auto
  have "\<exists>c'. (crew_step n)\<^sup>*\<^sup>* c c' \<and> (\<forall>w < n. at_pc c' w = Exited)"
    using assms(2) inv
  proof (induction "work_left n c" arbitrary: c rule: less_induct)
    case less
    show ?case
    proof (cases "\<forall>w < n. at_pc c w = Exited")
      case False
      then obtain v c1 where v: "v < n" "worker_step n v c c1" using some_step less.prems by blast
      have "crew_step n c c1" by (rule crew_worker [OF v])
      moreover obtain c' where "(crew_step n)\<^sup>*\<^sup>* c1 c'" "\<forall>w < n. at_pc c' w = Exited"
        using less.hyps [of c1] stopping_step [OF v(2,1) less.prems(1)] crew_step_inv [OF calculation less.prems(2,3)] by blast
      ultimately show ?thesis by (meson converse_rtranclp_into_rtranclp)
    qed blast
  qed
  with some_step [OF inv assms(2)] stopping_step assms(2) show ?thesis by blast
qed

text \<open>
  A worker of a context of its own that starts, runs its loop, is shut down and returns.
\<close>

lemma lone_worker:
  "\<exists>(c :: (nat, int, string, string) crew) (c' :: (nat, int, string, string) crew). crew_reach 1 c \<and> at_pc c 0 = Looping \<and> stopping c \<and>
     crew_reach 1 c' \<and> at_pc c' 0 = Exited \<and> signal_of c' 0 = None \<and> has_signal (clocks (core c')) 0 \<and>
     slots (clocks (core c')) = [[]]"
proof -
  let ?g = "new_engine 1 :: (nat, int, string, string) engine"
  obtain s g where g: "worker_start (\<lambda>_. True) 9 ''wake'' 0 ?g = (Inr s, g)" "handlers g \<noteq> []" "n_partition (tasks g) \<noteq> 0"
    "has_signal (clocks g) 0" "slots (clocks g) = [[]]"
    by (simp add: worker_start_def signal_new_def at_handler_def handler_add_def on_scheduled_def slot_def Let_def
        new_engine_def sched_init_def on_timeout_def timed_init_def)
  define c1 where "c1 = arrive 1 0 0 ((new_crew ?g)\<lparr>core := g, signal_of := (signal_of (new_crew ?g))(0 \<mapsto> s)\<rparr>)"
  have c1: "crew_reach 1 c1" unfolding c1_def
    by (rule crew_next [OF crew_start], rule crew_worker [of 0], simp, rule run_start) (use g in \<open>simp_all add: new_crew_def\<close>)
  have f1: "at_pc c1 0 = AtBarrier 0" "phase c1 = 1" "signal_of c1 0 = Some s" "core c1 = g" "arrivals c1 = 0"
    by (simp_all add: c1_def new_crew_def)
  define c2 where "c2 = move_to 0 Looping (c1\<lparr>stopping := True, core := enter_loop int 0 g\<rparr>)"
  have el: "handlers (enter_loop int 0 g) = handlers g" "tasks (enter_loop int 0 g) = tasks g"
    "has_signal (clocks (enter_loop int 0 g)) = has_signal (clocks g)" "slots (clocks (enter_loop int 0 g)) = slots (clocks g)"
    by (simp_all add: enter_loop_def read_clock_def)
  have "crew_reach 1 (c1\<lparr>stopping := True\<rparr>)" by (rule crew_next [OF c1 crew_shutdown])
  moreover have "worker_step 1 0 (c1\<lparr>stopping := True\<rparr>) c2"
    using run_enter [of "c1\<lparr>stopping := True\<rparr>" 0 1 int] f1 by (simp add: c2_def)
  ultimately have c2: "crew_reach 1 c2" by (blast intro: crew_next crew_worker zero_less_one)
  have f2: "at_pc c2 0 = Looping" "stopping c2" "phase c2 = 1" "signal_of c2 0 = Some s" "core c2 = enter_loop int 0 g" "arrivals c2 = 0"
    by (simp_all add: c2_def f1)
  have c3: "crew_reach 1 (arrive 1 0 1 c2)"
    by (rule crew_next [OF c2], rule crew_worker [of 0], simp, rule run_leave) (use f2 in simp_all)
  have c4: "crew_reach 1 (move_to 0 Closing (arrive 1 0 1 c2))"
    by (rule crew_next [OF c3], rule crew_worker [of 0], simp, rule run_close) (use f2 in simp_all)
  obtain g' where g': "worker_stop s 0 (enter_loop int 0 g) = Inr g'" "clocks g' = clocks (enter_loop int 0 g)"
    using g(2,3) el by (simp add: worker_stop_def signal_close_def at_handler_def drop_signal_def slot_def)
  let ?c4 = "move_to 0 Closing (arrive 1 0 1 c2)"
  define c5 where "c5 = move_to 0 Exited (?c4\<lparr>core := g', signal_of := (signal_of ?c4)(0 := None)\<rparr>)"
  have "crew_reach 1 c5" unfolding c5_def
    by (rule crew_next [OF c4], rule crew_worker [of 0], simp, rule run_return) (use f2 g' in simp_all)
  moreover have "at_pc c5 0 = Exited" "signal_of c5 0 = None" "has_signal (clocks (core c5)) 0" "slots (clocks (core c5)) = [[]]"
    using g(4,5) g'(2) el by (simp_all add: c5_def)
  ultimately have "crew_reach 1 c2 \<and> at_pc c2 0 = Looping \<and> stopping c2 \<and> crew_reach 1 c5 \<and> at_pc c5 0 = Exited \<and>
      signal_of c5 0 = None \<and> has_signal (clocks (core c5)) 0 \<and> slots (clocks (core c5)) = [[]]"
    using c2 f2(1,2) by blast
  then show ?thesis by blast
qed

theorem barriers_separate_phases_witness:
  "\<exists>c :: (nat, int, string, string) crew. at_pc c 0 = Looping \<and> signal_of c 0 \<noteq> None \<and> signalled (tasks (core c)) 0"
proof -
  obtain c :: "(nat, int, string, string) crew" where c: "crew_reach 1 c" "at_pc c 0 = Looping" using lone_worker by blast
  from barriers_separate_phases [OF c(1), of 0 0] c(2) show ?thesis by auto
qed

theorem shutdown_ends_witness:
  "\<exists>(c :: (nat, int, string, string) crew) (c' :: (nat, int, string, string) crew). at_pc c 0 = Looping \<and> (crew_step 1)\<^sup>*\<^sup>* c c' \<and> at_pc c' 0 = Exited"
proof -
  obtain c :: "(nat, int, string, string) crew" where c: "crew_reach 1 c" "at_pc c 0 = Looping" "stopping c" using lone_worker by blast
  from shutdown_ends [OF c(1,3)] c(2) show ?thesis by auto
qed

text \<open>
  Timers keep the signal of a worker that has returned: \<open>final_schedule\<close> clears the \<open>_signal\<close> of the task
  scheduler, but nothing clears that of the timer scheduler, and a timer that another thread creates
  afterwards emits it.
\<close>

theorem timer_signal_dangles:
  "\<exists>c :: (nat, int, string, string) crew. crew_reach 1 c \<and> at_pc c 0 = Exited \<and> signal_of c 0 = None \<and>
     (\<exists>tm. create_timeout int ''late'' 1 (clocks (core c)) = Inr tm \<and> emits tm = emits (clocks (core c)) @ [0])"
proof -
  obtain c :: "(nat, int, string, string) crew" where c: "crew_reach 1 c" "at_pc c 0 = Exited" "signal_of c 0 = None"
    "has_signal (clocks (core c)) 0" "slots (clocks (core c)) = [[]]" using lone_worker by blast
  then have "\<exists>tm. create_timeout int ''late'' 1 (clocks (core c)) = Inr tm \<and> emits tm = emits (clocks (core c)) @ [0]"
    by (simp add: create_timeout_def timer_slot_def timer_push_def Let_def pq_top_def)
  with c show ?thesis by blast
qed

end
