(* ===== verification/Promises.thy ===== *)
theory Promises
  imports Prelude
begin

text \<open>
  The results of coroutines (\<open>src/include/core/coroutine.h\<close>): the promise of a \<open>Coroutine<T>\<close> stores
  a value, of a \<open>Coroutine<T&>\<close> a pointer, of a \<open>Coroutine<void>\<close> nothing; \<open>co_return\<close> and \<open>co_yield\<close> write
  it, \<open>await_resume\<close> reads it. The theory of the call stack has one value per promise instead; here
  it is shown what that value stands for, with the objects it is copied or moved from.
\<close>

section \<open>Promises\<close>

text \<open>
  \<open>VoidPromise\<close>, \<open>ValuePromise<T>\<close> (and \<open>T&&\<close>, which derives from it) and \<open>ValuePromise<T&>\<close>, with \<open>_value\<close>.
\<close>

datatype 'v promise = VoidPromise | ValuePromise 'v | RefPromise "nat option"

datatype result_type = VoidType | ValueType | RefType

definition new_promise :: "result_type \<Rightarrow> 'v::zero promise" where
  "new_promise t = (case t of VoidType \<Rightarrow> VoidPromise | ValueType \<Rightarrow> ValuePromise 0 | RefType \<Rightarrow> RefPromise None)"

fun result_type_of :: "'v promise \<Rightarrow> result_type" where
  "result_type_of VoidPromise = VoidType"
| "result_type_of (ValuePromise v) = ValueType"
| "result_type_of (RefPromise p) = RefType"

text \<open>
  The overloads: the object that is returned or yielded, by its address, as an lvalue or as an rvalue.
  An overload that the promise does not have is not a C++ program: \<open>None\<close>. \<open>moved v\<close> is what a move
  leaves of an object with value \<open>v\<close>.
\<close>

datatype promise_op = ReturnVoid | ReturnValue bool nat | YieldValue bool nat

definition set_result :: "('v \<Rightarrow> 'v) \<Rightarrow> bool \<Rightarrow> nat \<Rightarrow> 'v promise \<times> (nat \<Rightarrow> 'v) \<Rightarrow> ('v promise \<times> (nat \<Rightarrow> 'v)) option" where
  "set_result moved rvalue a s =
     (case s of
        (VoidPromise, m) \<Rightarrow> None
      | (ValuePromise _, m) \<Rightarrow> Some (ValuePromise (m a), if rvalue then m(a := moved (m a)) else m)
      | (RefPromise _, m) \<Rightarrow> if rvalue then None else Some (RefPromise (Some a), m))"

fun promise_step :: "('v \<Rightarrow> 'v) \<Rightarrow> promise_op \<Rightarrow> 'v promise \<times> (nat \<Rightarrow> 'v) \<Rightarrow> ('v promise \<times> (nat \<Rightarrow> 'v)) option" where
  "promise_step moved ReturnVoid s = (case s of (VoidPromise, m) \<Rightarrow> Some s | _ \<Rightarrow> None)"
| "promise_step moved (ReturnValue rvalue a) s = set_result moved rvalue a s"
| "promise_step moved (YieldValue rvalue a) s = set_result moved rvalue a s"

fun promise_run :: "('v \<Rightarrow> 'v) \<Rightarrow> promise_op list \<Rightarrow> 'v promise \<times> (nat \<Rightarrow> 'v) \<Rightarrow> ('v promise \<times> (nat \<Rightarrow> 'v)) option" where
  "promise_run moved [] s = Some s"
| "promise_run moved (p # ps) s = (case promise_step moved p s of None \<Rightarrow> None | Some s' \<Rightarrow> promise_run moved ps s')"

text \<open>
  The end of \<open>await_resume\<close>, after the test for an exception: \<open>void\<close>, a value moved out of the promise,
  or a reference to an object. \<open>None\<close> is a null dereference.
\<close>

datatype 'v awaited = AwaitedVoid | AwaitedValue 'v | AwaitedRef nat

fun await_value :: "('v \<Rightarrow> 'v) \<Rightarrow> 'v promise \<Rightarrow> ('v awaited \<times> 'v promise) option" where
  "await_value moved VoidPromise = Some (AwaitedVoid, VoidPromise)"
| "await_value moved (ValuePromise v) = Some (AwaitedValue v, ValuePromise (moved v))"
| "await_value moved (RefPromise None) = None"
| "await_value moved (RefPromise (Some a)) = Some (AwaitedRef a, RefPromise (Some a))"

section \<open>Properties\<close>

lemma promise_step_type: "promise_step moved p (x, m) = Some (x', m') \<Longrightarrow> result_type_of x' = result_type_of x"
  by (cases p; cases x) (auto simp: set_result_def split: if_splits)

lemma promise_run_type: "promise_run moved ps (x, m) = Some (x', m') \<Longrightarrow> result_type_of x' = result_type_of x"
proof (induction ps arbitrary: x m)
  case (Cons p ps)
  then obtain y n where "promise_step moved p (x, m) = Some (y, n)" "promise_run moved ps (y, n) = Some (x', m')"
    by (auto split: option.splits)
  with Cons.IH promise_step_type show ?case by metis
qed simp

text \<open>
  What awaiting a coroutine gives is what it returned last: whatever it yielded before, a
  \<open>Coroutine<T>\<close> gives the value that the returned object had when it was returned, and leaves a
  moved-from value behind for anyone who awaits it again; a \<open>Coroutine<T&>\<close> gives the object itself,
  so that its present value is seen; and a \<open>Coroutine<void>\<close> gives nothing.
\<close>

theorem await_gives_last_return:
  assumes "promise_run moved ps (new_promise t, m) = Some (p1, m1)" "promise_step moved (ReturnValue rvalue a) (p1, m1) = Some (p2, m2)"
  shows "case t of
      VoidType \<Rightarrow> False
    | ValueType \<Rightarrow> await_value moved p2 = Some (AwaitedValue (m1 a), ValuePromise (moved (m1 a))) \<and>
        m2 a = (if rvalue then moved (m1 a) else m1 a)
    | RefType \<Rightarrow> await_value moved p2 = Some (AwaitedRef a, p2) \<and> m2 = m1 \<and> \<not> rvalue"
proof -
  have "result_type_of p1 = t"
    using promise_run_type [OF assms(1)] by (cases t) (simp_all add: new_promise_def)
  with assms(2) show ?thesis
    by (cases p1) (auto simp: set_result_def split: if_splits)
qed

theorem await_gives_last_return_witness:
  "\<exists>p m. promise_run (\<lambda>_. 0) [YieldValue False 3, ReturnValue True 4] (new_promise ValueType, (\<lambda>a. int a)) = Some (p, m) \<and>
     await_value (\<lambda>_. 0) p = Some (AwaitedValue 4, ValuePromise 0) \<and> m 4 = 0"
proof -
  let ?m = "(\<lambda>a. int a)"
  have 1: "promise_run (\<lambda>_. 0) [YieldValue False 3] (new_promise ValueType, ?m) = Some (ValuePromise 3, ?m)"
    by (simp add: new_promise_def set_result_def)
  obtain p m where 2: "promise_step (\<lambda>_. 0) (ReturnValue True 4) (ValuePromise 3, ?m) = Some (p, m)"
    by (simp add: set_result_def)
  have "promise_run (\<lambda>_. 0) [YieldValue False 3, ReturnValue True 4] (new_promise ValueType, ?m) = Some (p, m)"
    using 2 by (simp add: new_promise_def set_result_def)
  with await_gives_last_return [OF 1 2] show ?thesis by auto
qed

text \<open>A \<open>Coroutine<T&>\<close> that ends without a \<open>co_return\<close> leaves a null pointer, which awaiting dereferences.\<close>

lemma await_without_return: "await_value moved (new_promise RefType) = None"
  by (simp add: new_promise_def)

end
