(* ===== verification/Signals.thy ===== *)
theory Signals
  imports Prelude Guards
begin

text \<open>
  \<open>BaseLazySignal\<close> (\<open>schedule.h\<close>, \<open>schedule.cpp\<close>) with its default \<open>_emit\<close> and \<open>_wait\<close>, one access of
  the shared state per step: the two flags, the lock \<open>_mtx\<close> and the condition variable \<open>_cond\<close>, used
  by any number of threads. It shows that testing the flags before taking the lock is sound, so
  that the signal behaves as the two-flag specification of \<open>Guards\<close>, and what the flags promise to
  a thread that sleeps.
\<close>

section \<open>Threads that emit and wait\<close>

text \<open>
  Where a thread is, named by the access it makes next. In \<open>emit\<close>: the tests before the lock, the
  lock, the tests under it, \<open>_emit\<close>, the write of \<open>_emitted\<close>, and the end of the guard. In \<open>wait\<close>
  likewise, with \<open>W_block\<close> for the call of \<open>wait_for\<close>, which gives up the lock and sleeps in one step,
  \<open>W_sleep\<close> until it is notified or its time is up, and \<open>W_relock\<close>, where it takes the lock again.
\<close>

datatype sig_pc =
    Outside
  | E_waited | E_emitted | E_lock | E_waited2 | E_emitted2 | E_notify | E_store | E_unlock
  | W_emitted | W_lock | W_emitted2 | W_clear | W_set | W_block | W_sleep | W_relock | W_reset | W_unlock

text \<open>
  \<open>sleeping\<close> is what waits on \<open>_cond\<close>. The last three fields record the run: the calls begun, by
  thread; the point at which each takes effect, as an operation of \<open>Guards\<close>; and the calls of
  \<open>notify_one\<close> and \<open>wait_for\<close> that were made.
\<close>

record csignal =
  flags :: lazy_signal
  lock_of :: "nat option"
  sleeping :: "nat list"
  pc :: "nat \<Rightarrow> sig_pc"
  calls :: "(nat \<times> signal_op) list"
  effects :: "(nat \<times> signal_op) list"
  trace :: "signal_event list"

definition new_csignal :: csignal where
  "new_csignal = \<lparr>flags = new_signal, lock_of = None, sleeping = [], pc = (\<lambda>_. Outside),
     calls = [], effects = [], trace = []\<rparr>"

definition goto :: "nat \<Rightarrow> sig_pc \<Rightarrow> csignal \<Rightarrow> csignal" where
  "goto t p s = s\<lparr>pc := (pc s)(t := p)\<rparr>"

definition takes_effect :: "nat \<Rightarrow> signal_op \<Rightarrow> csignal \<Rightarrow> csignal" where
  "takes_effect t p s = s\<lparr>effects := effects s @ [(t, p)]\<rparr>"

definition call_emit :: "nat \<Rightarrow> csignal \<Rightarrow> csignal" where
  "call_emit t s = goto t E_waited (s\<lparr>calls := calls s @ [(t, Emit)]\<rparr>)"

definition call_wait :: "nat \<Rightarrow> csignal \<Rightarrow> csignal" where
  "call_wait t s = goto t W_emitted (s\<lparr>calls := calls s @ [(t, EnterWait)]\<rparr>)"

text \<open>
  Taking \<open>_mtx\<close>, which is not possible while another thread has it, and giving it back.
\<close>

definition lock_sig :: "nat \<Rightarrow> csignal \<Rightarrow> csignal option" where
  "lock_sig t s = (if lock_of s = None then Some (s\<lparr>lock_of := Some t\<rparr>) else None)"

definition unlock_sig :: "csignal \<Rightarrow> csignal" where
  "unlock_sig s = s\<lparr>lock_of := None\<rparr>"

text \<open>
  The default \<open>_emit\<close>: \<open>notify_one\<close> wakes one of the threads that sleep, if there is one; the
  standard does not say which, so the step is told. The default \<open>_wait\<close>: \<open>wait_for\<close> gives up
  the lock and sleeps.
\<close>

definition default_emit :: "nat option \<Rightarrow> csignal \<Rightarrow> csignal option" where
  "default_emit w s =
     (case w of
        None \<Rightarrow> if sleeping s = [] then Some (s\<lparr>trace := trace s @ [Notified]\<rparr>) else None
      | Some u \<Rightarrow> if u \<in> set (sleeping s)
          then Some (goto u W_relock (s\<lparr>sleeping := remove1 u (sleeping s), trace := trace s @ [Notified]\<rparr>))
          else None)"

definition default_wait :: "nat \<Rightarrow> csignal \<Rightarrow> csignal" where
  "default_wait t s =
     goto t W_sleep (unlock_sig (s\<lparr>sleeping := sleeping s @ [t], trace := trace s @ [Blocked]\<rparr>))"

text \<open>
  One access of thread \<open>t\<close> in \<open>emit\<close>. \<open>w\<close> says whom \<open>notify_one\<close> wakes.
\<close>

definition emit_step :: "nat \<Rightarrow> nat option \<Rightarrow> csignal \<Rightarrow> csignal option" where
  "emit_step t w s =
     (case pc s t of
        E_waited \<Rightarrow> Some (if waited (flags s) then goto t E_emitted s else goto t Outside (takes_effect t Emit s))
      | E_emitted \<Rightarrow> Some (if \<not> emitted (flags s) then goto t E_lock s else goto t Outside (takes_effect t Emit s))
      | E_lock \<Rightarrow> map_option (goto t E_waited2) (lock_sig t s)
      | E_waited2 \<Rightarrow> Some (if waited (flags s) then goto t E_emitted2 s else goto t E_unlock (takes_effect t Emit s))
      | E_emitted2 \<Rightarrow> Some (if \<not> emitted (flags s) then goto t E_notify s else goto t E_unlock (takes_effect t Emit s))
      | E_notify \<Rightarrow> map_option (\<lambda>s. goto t E_store (takes_effect t Emit s)) (default_emit w s)
      | E_store \<Rightarrow> Some (goto t E_unlock (s\<lparr>flags := (flags s)\<lparr>emitted := True\<rparr>\<rparr>))
      | E_unlock \<Rightarrow> Some (goto t Outside (unlock_sig s))
      | _ \<Rightarrow> None)"

text \<open>One access of thread \<open>t\<close> in \<open>wait\<close>.\<close>

definition wait_step :: "nat \<Rightarrow> csignal \<Rightarrow> csignal option" where
  "wait_step t s =
     (case pc s t of
        W_emitted \<Rightarrow> Some (if \<not> emitted (flags s) then goto t W_lock s else goto t Outside (takes_effect t EnterWait s))
      | W_lock \<Rightarrow> map_option (goto t W_emitted2) (lock_sig t s)
      | W_emitted2 \<Rightarrow> Some (if \<not> emitted (flags s) then goto t W_clear s else goto t W_unlock (takes_effect t EnterWait s))
      | W_clear \<Rightarrow> Some (goto t W_set (s\<lparr>flags := (flags s)\<lparr>emitted := False\<rparr>\<rparr>))
      | W_set \<Rightarrow> Some (goto t W_block (takes_effect t EnterWait (s\<lparr>flags := (flags s)\<lparr>waited := True\<rparr>\<rparr>)))
      | W_block \<Rightarrow> Some (default_wait t s)
      | W_sleep \<Rightarrow> Some (goto t W_relock (s\<lparr>sleeping := remove1 t (sleeping s)\<rparr>))
      | W_relock \<Rightarrow> map_option (goto t W_reset) (lock_sig t s)
      | W_reset \<Rightarrow> Some (goto t W_unlock (takes_effect t LeaveWait (s\<lparr>flags := (flags s)\<lparr>waited := False\<rparr>\<rparr>)))
      | W_unlock \<Rightarrow> Some (goto t Outside (unlock_sig s))
      | _ \<Rightarrow> None)"

text \<open>
  What may happen next: a thread begins a call, or makes the next access of the one it is in. A
  sleeping thread may go on by itself: its time is up, or the wakeup is spurious.
\<close>

datatype sig_action = BeginEmit nat | BeginWait nat | Access nat "nat option"

definition csignal_step :: "sig_action \<Rightarrow> csignal \<Rightarrow> csignal option" where
  "csignal_step a s =
     (case a of
        BeginEmit t \<Rightarrow> if pc s t = Outside then Some (call_emit t s) else None
      | BeginWait t \<Rightarrow> if pc s t = Outside then Some (call_wait t s) else None
      | Access t w \<Rightarrow> (case emit_step t w s of Some s' \<Rightarrow> Some s' | None \<Rightarrow> wait_step t s))"

fun csignal_run :: "sig_action list \<Rightarrow> csignal \<Rightarrow> csignal option" where
  "csignal_run [] s = Some s"
| "csignal_run (a # as) s = (case csignal_step a s of None \<Rightarrow> None | Some s' \<Rightarrow> csignal_run as s')"

section \<open>The lock and the flags\<close>

fun holds_sig :: "sig_pc \<Rightarrow> bool" where
  "holds_sig E_waited2 \<longleftrightarrow> True" | "holds_sig E_emitted2 \<longleftrightarrow> True" | "holds_sig E_notify \<longleftrightarrow> True" | "holds_sig E_store \<longleftrightarrow> True"
| "holds_sig E_unlock \<longleftrightarrow> True" | "holds_sig W_emitted2 \<longleftrightarrow> True" | "holds_sig W_clear \<longleftrightarrow> True" | "holds_sig W_set \<longleftrightarrow> True"
| "holds_sig W_block \<longleftrightarrow> True" | "holds_sig W_reset \<longleftrightarrow> True" | "holds_sig W_unlock \<longleftrightarrow> True"
| "holds_sig _ \<longleftrightarrow> False"

text \<open>What a thread that has passed a test under the lock knows of the flags.\<close>

fun knows :: "sig_pc \<Rightarrow> lazy_signal \<Rightarrow> bool" where
  "knows E_emitted2 f \<longleftrightarrow> waited f"
| "knows E_notify f \<longleftrightarrow> waited f \<and> \<not> emitted f"
| "knows E_store f \<longleftrightarrow> waited f \<and> \<not> emitted f"
| "knows W_clear f \<longleftrightarrow> \<not> emitted f"
| "knows W_set f \<longleftrightarrow> \<not> emitted f"
| "knows W_block f \<longleftrightarrow> waited f \<and> \<not> emitted f"
| "knows _ f \<longleftrightarrow> True"

definition csignal_inv :: "csignal \<Rightarrow> bool" where
  "csignal_inv s \<longleftrightarrow>
     (\<forall>t. holds_sig (pc s t) \<longleftrightarrow> lock_of s = Some t) \<and>
     (\<forall>t. pc s t = W_sleep \<longleftrightarrow> t \<in> set (sleeping s)) \<and> distinct (sleeping s) \<and>
     (\<forall>t. knows (pc s t) (flags s))"

lemmas csignal_ops = goto_def takes_effect_def call_emit_def call_wait_def lock_sig_def unlock_sig_def
  default_emit_def default_wait_def

lemma knows_outside_lock: "\<not> holds_sig p \<Longrightarrow> knows p f"
  by (cases p) auto

lemma new_csignal_inv: "csignal_inv new_csignal"
  by (simp add: csignal_inv_def new_csignal_def)

text \<open>
  What a step of thread \<open>t\<close> may do without disturbing the others: take a free lock, give up its
  own, write the flags while it has the lock, and enter or leave the sleepers itself.
\<close>

lemma csignal_inv_move:
  assumes "csignal_inv s" "pc s' = (pc s)(t := p)"
    and "lock_of s' = lock_of s \<or> lock_of s \<in> {None, Some t} \<and> lock_of s' \<in> {None, Some t}"
    and "flags s' = flags s \<or> lock_of s = Some t"
    and "set (sleeping s') - {t} = set (sleeping s) - {t}" "distinct (sleeping s')"
    and "holds_sig p \<longleftrightarrow> lock_of s' = Some t" "p = W_sleep \<longleftrightarrow> t \<in> set (sleeping s')" "knows p (flags s')"
  shows "csignal_inv s'"
proof -
  have I: "\<And>u. holds_sig (pc s u) \<longleftrightarrow> lock_of s = Some u" "\<And>u. pc s u = W_sleep \<longleftrightarrow> u \<in> set (sleeping s)"
    "\<And>u. knows (pc s u) (flags s)"
    using assms(1) by (auto simp only: csignal_inv_def)
  have "holds_sig (pc s' u) \<longleftrightarrow> lock_of s' = Some u" for u
    using I(1) [of u] assms(2,3,7) by (cases "u = t") auto
  moreover have "pc s' u = W_sleep \<longleftrightarrow> u \<in> set (sleeping s')" for u
    using I(2) [of u] assms(2,5,8) by (cases "u = t") auto
  moreover have "knows (pc s' u) (flags s')" for u
  proof (cases "u = t")
    case False
    then have "pc s' u = pc s u" using assms(2) by simp
    with False I(3) [of u] I(1) [of u] knows_outside_lock [of "pc s u"] assms(4) show ?thesis by auto
  qed (use assms(2,9) in simp)
  ultimately show ?thesis using assms(6) unfolding csignal_inv_def by blast
qed

lemma csignal_inv_at:
  assumes "csignal_inv s"
  shows "holds_sig (pc s t) \<longleftrightarrow> lock_of s = Some t" "pc s t = W_sleep \<longleftrightarrow> t \<in> set (sleeping s)"
    "distinct (sleeping s)" "knows (pc s t) (flags s)"
  using assms by (auto simp only: csignal_inv_def)

lemma default_emit_inv:
  assumes "default_emit w s = Some s'" "csignal_inv s" "pc s t = E_notify"
  shows "csignal_inv s' \<and> pc s' t = E_notify \<and> lock_of s' = lock_of s \<and> flags s' = flags s"
proof (cases w)
  case None
  with assms show ?thesis by (auto simp: csignal_inv_def default_emit_def split: if_splits)
next
  case (Some u)
  with assms(1) have u: "u \<in> set (sleeping s)"
    "s' = goto u W_relock (s\<lparr>sleeping := remove1 u (sleeping s), trace := trace s @ [Notified]\<rparr>)"
    by (auto simp: default_emit_def split: if_splits)
  note I = csignal_inv_at [OF assms(2)]
  have "u \<noteq> t" using I(2) [of u] u(1) assms(3) by auto
  moreover have "lock_of s \<noteq> Some u" using I(1) [of u] I(2) [of u] u(1) by auto
  ultimately show ?thesis
    using I(3) assms(3) by (auto intro!: csignal_inv_move [OF assms(2), of _ u W_relock] simp: u(2) goto_def)
qed

lemma emit_step_inv:
  assumes "emit_step t w s = Some s'" "csignal_inv s"
  shows "csignal_inv s'"
proof (cases "pc s t = E_notify")
  case True
  then obtain r where r: "default_emit w s = Some r" "s' = goto t E_store (takes_effect t Emit r)"
    using assms(1) by (auto simp: emit_step_def)
  note D = default_emit_inv [OF r(1) assms(2) True]
  note I = csignal_inv_at(1,2,4) [of r t] csignal_inv_at(3) [of r]
  show ?thesis
    by (rule csignal_inv_move [of r _ t E_store]) (use D I r(2) in \<open>auto simp: goto_def takes_effect_def\<close>)
next
  case False
  note I = csignal_inv_at(1,2,4) [OF assms(2), of t] csignal_inv_at(3) [OF assms(2)]
  show ?thesis
    by (rule csignal_inv_move [OF assms(2), of _ t "pc s' t"])
      (use False I assms(1) in \<open>auto simp: emit_step_def csignal_ops split: sig_pc.splits if_splits\<close>)
qed

lemma wait_step_inv:
  assumes "wait_step t s = Some s'" "csignal_inv s"
  shows "csignal_inv s'"
proof -
  note I = csignal_inv_at(1,2,4) [OF assms(2), of t] csignal_inv_at(3) [OF assms(2)]
  show ?thesis
    by (rule csignal_inv_move [OF assms(2), of _ t "pc s' t"])
      (use I assms(1) in \<open>auto simp: wait_step_def csignal_ops split: sig_pc.splits if_splits\<close>)
qed

section \<open>Every call takes effect at one point\<close>

text \<open>
  The state of the specification after some operations. Between the call of \<open>notify_one\<close> and
  the write of \<open>_emitted\<close> the specification is ahead of the flags, and between the write of
  \<open>_waited\<close> and the call of \<open>wait_for\<close> it is ahead of what has happened; the lock hides both.
\<close>

fun signal_after :: "signal_op list \<Rightarrow> lazy_signal \<Rightarrow> lazy_signal" where
  "signal_after [] f = f"
| "signal_after (Emit # ps) f = signal_after ps (snd (signal_emit f))"
| "signal_after (EnterWait # ps) f = signal_after ps (snd (enter_wait f))"
| "signal_after (LeaveWait # ps) f = signal_after ps (leave_wait f)"

definition working :: "csignal \<Rightarrow> sig_pc" where
  "working s = (case lock_of s of None \<Rightarrow> Outside | Some t \<Rightarrow> pc s t)"

definition spec_flags :: "csignal \<Rightarrow> lazy_signal" where
  "spec_flags s = (if working s = E_store then (flags s)\<lparr>emitted := True\<rparr> else flags s)"

definition spec_trace :: "csignal \<Rightarrow> signal_event list" where
  "spec_trace s = trace s @ (if working s = W_block then [Blocked] else [])"

definition csignal_abs :: "csignal \<Rightarrow> bool" where
  "csignal_abs s \<longleftrightarrow> signal_run (map snd (effects s)) new_signal = spec_trace s \<and>
     signal_after (map snd (effects s)) new_signal = spec_flags s"

text \<open>The calls of a thread in a log, and the one it is in that has not taken effect.\<close>

definition calls_by :: "nat \<Rightarrow> (nat \<times> signal_op) list \<Rightarrow> signal_op list" where
  "calls_by t xs = map snd (filter (\<lambda>(u, p). u = t \<and> p \<noteq> LeaveWait) xs)"

fun call_open :: "sig_pc \<Rightarrow> signal_op list" where
  "call_open E_waited = [Emit]" | "call_open E_emitted = [Emit]" | "call_open E_lock = [Emit]"
| "call_open E_waited2 = [Emit]" | "call_open E_emitted2 = [Emit]" | "call_open E_notify = [Emit]"
| "call_open W_emitted = [EnterWait]" | "call_open W_lock = [EnterWait]" | "call_open W_emitted2 = [EnterWait]"
| "call_open W_clear = [EnterWait]" | "call_open W_set = [EnterWait]"
| "call_open _ = []"

definition calls_match :: "csignal \<Rightarrow> bool" where
  "calls_match s \<longleftrightarrow> (\<forall>t. calls_by t (calls s) = calls_by t (effects s) @ call_open (pc s t))"

lemma signal_run_snoc:
  "signal_run (ps @ [p]) f = signal_run ps f @ signal_run [p] (signal_after ps f)"
  "signal_after (ps @ [p]) f = signal_after [p] (signal_after ps f)"
  by (induction ps f rule: signal_after.induct) (auto split: prod.splits)

lemma calls_by_simps [simp]:
  "calls_by t [] = []" "calls_by t (xs @ [(u, p)]) = calls_by t xs @ (if u = t \<and> p \<noteq> LeaveWait then [p] else [])"
  by (simp_all add: calls_by_def)

lemma emit_step_abs:
  assumes "emit_step t w s = Some s'" "csignal_inv s" "csignal_abs s"
  shows "csignal_abs s'"
proof (cases "pc s t = E_notify")
  case True
  then obtain r where r: "default_emit w s = Some r" "s' = goto t E_store (takes_effect t Emit r)"
    using assms(1) by (auto simp: emit_step_def)
  note D = default_emit_inv [OF r(1) assms(2) True]
  note I = csignal_inv_at(1,2,4) [OF assms(2), of t] csignal_inv_at(3) [OF assms(2)]
  have T: "effects r = effects s \<and> trace r = trace s @ [Notified]"
    using r(1) by (auto simp: default_emit_def goto_def split: option.splits if_splits)
  show ?thesis
    using I D T True assms(3)
    by (simp add: r(2) csignal_abs_def spec_flags_def spec_trace_def working_def goto_def takes_effect_def
        signal_run_snoc signal_emit_def)
next
  case False
  note I = csignal_inv_at(1,2,4) [OF assms(2), of t] csignal_inv_at(3) [OF assms(2)]
  show ?thesis
    using False I assms(1,3)
    by (auto simp: emit_step_def csignal_ops csignal_abs_def spec_flags_def spec_trace_def working_def
        signal_run_snoc signal_emit_def split: sig_pc.splits if_splits option.splits)
qed

lemma wait_step_abs:
  assumes "wait_step t s = Some s'" "csignal_inv s" "csignal_abs s"
  shows "csignal_abs s'"
proof -
  note I = csignal_inv_at(1,2,4) [OF assms(2), of t] csignal_inv_at(3) [OF assms(2)]
  show ?thesis
    using I assms(1,3)
    by (auto simp: wait_step_def csignal_ops csignal_abs_def spec_flags_def spec_trace_def working_def
        signal_run_snoc enter_wait_def leave_wait_def split: sig_pc.splits if_splits option.splits)
qed

text \<open>The log of calls: only a thread's own step changes where it is in its call.\<close>

lemma emit_step_calls:
  assumes "emit_step t w s = Some s'" "csignal_inv s" "calls_match s"
  shows "calls_match s'"
proof (cases "pc s t = E_notify")
  case True
  then obtain r where r: "default_emit w s = Some r" "s' = goto t E_store (takes_effect t Emit r)"
    using assms(1) by (auto simp: emit_step_def)
  have R: "calls r = calls s \<and> effects r = effects s \<and> (\<forall>u. call_open (pc r u) = call_open (pc s u))"
    using r(1) csignal_inv_at(2) [OF assms(2), symmetric]
    by (auto simp: default_emit_def goto_def split: option.splits if_splits)
  with assms(3) True show ?thesis by (auto simp: calls_match_def r(2) goto_def takes_effect_def)
next
  case False
  with assms(1,3) show ?thesis
    by (simp add: calls_match_def emit_step_def csignal_ops split: sig_pc.splits if_splits) auto
qed

lemma wait_step_calls: "wait_step t s = Some s' \<Longrightarrow> calls_match s \<Longrightarrow> calls_match s'"
  by (simp add: calls_match_def wait_step_def csignal_ops split: sig_pc.splits if_splits) auto

lemma begin_call_abs:
  "pc s t = Outside \<Longrightarrow> csignal_abs s \<Longrightarrow> csignal_abs (call_emit t s) \<and> csignal_abs (call_wait t s)"
  by (auto simp: csignal_abs_def spec_flags_def spec_trace_def working_def call_emit_def call_wait_def goto_def
      split: option.splits if_splits)

lemma begin_call_calls:
  "pc s t = Outside \<Longrightarrow> calls_match s \<Longrightarrow> calls_match (call_emit t s) \<and> calls_match (call_wait t s)"
  by (auto simp: calls_match_def call_emit_def call_wait_def goto_def)

lemma begin_call_inv:
  assumes "pc s t = Outside" "csignal_inv s"
  shows "csignal_inv (call_emit t s) \<and> csignal_inv (call_wait t s)"
proof -
  note I = csignal_inv_at(1,2,4) [OF assms(2), of t] csignal_inv_at(3) [OF assms(2)]
  have "csignal_inv (call_emit t s)"
    by (rule csignal_inv_move [OF assms(2), of _ t E_waited]) (use I assms(1) in \<open>auto simp: call_emit_def goto_def\<close>)
  moreover have "csignal_inv (call_wait t s)"
    by (rule csignal_inv_move [OF assms(2), of _ t W_emitted]) (use I assms(1) in \<open>auto simp: call_wait_def goto_def\<close>)
  ultimately show ?thesis ..
qed

definition csignal_ok :: "csignal \<Rightarrow> bool" where
  "csignal_ok s \<longleftrightarrow> csignal_inv s \<and> csignal_abs s \<and> calls_match s"

lemma new_csignal_ok: "csignal_ok new_csignal"
  by (simp add: csignal_ok_def new_csignal_inv)
    (simp add: new_csignal_def csignal_abs_def calls_match_def spec_trace_def spec_flags_def working_def)

lemma csignal_step_ok:
  assumes "csignal_step a s = Some s'" "csignal_ok s"
  shows "csignal_ok s'"
  using assms emit_step_inv wait_step_inv emit_step_abs wait_step_abs emit_step_calls wait_step_calls
    begin_call_inv begin_call_abs begin_call_calls
  by (auto simp: csignal_step_def csignal_ok_def split: sig_action.splits if_splits option.splits)

text \<open>What every step keeps holds after every run.\<close>

lemma csignal_run_induct:
  assumes "csignal_run as s = Some s'" "P s" "\<And>a r r'. a \<in> set as \<Longrightarrow> csignal_step a r = Some r' \<Longrightarrow> P r \<Longrightarrow> P r'"
  shows "P s'"
  using assms
proof (induction as arbitrary: s)
  case (Cons a as)
  then obtain r where r: "csignal_step a s = Some r" "csignal_run as r = Some s'" by (auto split: option.splits)
  have "P r" using Cons.prems(3) [OF _ r(1) Cons.prems(2)] by simp
  then show ?case using Cons.IH [OF r(2)] Cons.prems(3) by auto
qed simp

lemma csignal_run_ok:
  assumes "csignal_run as new_csignal = Some s"
  shows "csignal_ok s"
  by (rule csignal_run_induct [where P = csignal_ok, OF assms]) (auto intro: new_csignal_ok csignal_step_ok)

text \<open>
  C28: The tests before the lock lose nothing. However the accesses of any number of threads
  interleave, every call of \<open>emit\<close> and \<open>wait\<close> takes effect at one point between its beginning and
  its end; in the order of these points the calls are a run of the two-flag specification of
  \<open>Guards\<close>, which notifies and blocks exactly when the code does; and one thread at a time is
  under the lock.
\<close>

theorem lazy_signal_linearizes:
  assumes "csignal_run as new_csignal = Some s"
  shows "signal_run (map snd (effects s)) new_signal = spec_trace s \<and>
    signal_after (map snd (effects s)) new_signal = spec_flags s \<and>
    calls_by t (calls s) = calls_by t (effects s) @ call_open (pc s t) \<and>
    (holds_sig (pc s t) \<longleftrightarrow> lock_of s = Some t)"
  using csignal_run_ok [OF assms] csignal_inv_at(1)
  by (auto simp: csignal_ok_def csignal_abs_def calls_match_def)

theorem lazy_signal_linearizes_witness:
  "\<exists>s. csignal_run
     ([BeginWait 1, BeginEmit 2] @ replicate 6 (Access 1 None) @ replicate 5 (Access 2 None) @ [Access 2 (Some 1)])
       new_csignal = Some s \<and>
     signal_run [EnterWait, Emit] new_signal = [Blocked, Notified] \<and>
     signal_run (map snd (effects s)) new_signal = spec_trace s \<and>
     calls_by 2 (calls s) = calls_by 2 (effects s) @ call_open (pc s 2)"
proof -
  have "\<exists>s. csignal_run
     ([BeginWait 1, BeginEmit 2] @ replicate 6 (Access 1 None) @ replicate 5 (Access 2 None) @ [Access 2 (Some 1)])
       new_csignal = Some s \<and> effects s = [(1, EnterWait), (2, Emit)] \<and> trace s = [Blocked, Notified] \<and>
       pc s 1 = W_relock \<and> working s = E_store"
    by (simp add: numeral_eq_Suc csignal_step_def emit_step_def wait_step_def csignal_ops new_csignal_def
        new_signal_def working_def)
  then obtain s where s: "csignal_run
     ([BeginWait 1, BeginEmit 2] @ replicate 6 (Access 1 None) @ replicate 5 (Access 2 None) @ [Access 2 (Some 1)])
       new_csignal = Some s" "effects s = [(1, EnterWait), (2, Emit)]" "trace s = [Blocked, Notified]"
    "working s = E_store" by blast
  show ?thesis
    using s lazy_signal_linearizes [OF s(1), of 2] by (auto simp: spec_trace_def)
qed

section \<open>What a sleeper is promised\<close>

text \<open>
  One thread \<open>v\<close> that waits, and any number that emit: no other is in \<open>wait\<close>; \<open>v\<close> sleeps only while the
  flags make the next \<open>emit\<close> notify; and nobody sleeps once there was a notification.
\<close>

definition in_wait :: "sig_pc \<Rightarrow> bool" where
  "in_wait p \<longleftrightarrow> p \<in> {W_emitted, W_lock, W_emitted2, W_clear, W_set, W_block, W_sleep, W_relock, W_reset, W_unlock}"

definition one_waiter :: "nat \<Rightarrow> csignal \<Rightarrow> bool" where
  "one_waiter v s \<longleftrightarrow> (\<forall>u. in_wait (pc s u) \<longrightarrow> u = v) \<and>
     (sleeping s \<noteq> [] \<longrightarrow> waited (flags s) \<and> \<not> emitted (flags s)) \<and>
     (Notified \<in> set (trace s) \<longrightarrow> sleeping s = [] \<and> emitted (spec_flags s)) \<and>
     (working s = E_store \<longrightarrow> Notified \<in> set (trace s))"

lemma one_waiter_sleeper:
  assumes "csignal_inv s" "one_waiter v s"
  shows "sleeping s = [] \<or> sleeping s = [v] \<and> pc s v = W_sleep"
proof -
  have *: "u = v \<and> pc s u = W_sleep" if "u \<in> set (sleeping s)" for u
    using that csignal_inv_at(2) [OF assms(1), of u] assms(2) by (auto simp: one_waiter_def in_wait_def)
  show ?thesis
  proof (cases "sleeping s")
    case (Cons u us)
    then have "us = []" using * [of u] * [of "hd us"] csignal_inv_at(3) [OF assms(1)] by (cases us) auto
    with Cons * [of u] show ?thesis by auto
  qed simp
qed

lemma one_waiter_at:
  assumes "one_waiter v s"
  shows "in_wait (pc s u) \<Longrightarrow> u = v"
    and "sleeping s \<noteq> [] \<Longrightarrow> waited (flags s) \<and> \<not> emitted (flags s)"
    and "Notified \<in> set (trace s) \<Longrightarrow> sleeping s = [] \<and> emitted (spec_flags s)"
    and "working s = E_store \<Longrightarrow> Notified \<in> set (trace s)"
  using assms by (auto simp: one_waiter_def)

lemma one_waiter_move:
  assumes "one_waiter v s" "pc s' = (pc s)(t := p)" "in_wait p \<Longrightarrow> t = v"
    and "sleeping s' \<noteq> [] \<Longrightarrow> waited (flags s') \<and> \<not> emitted (flags s')"
    and "Notified \<in> set (trace s') \<Longrightarrow> sleeping s' = [] \<and> emitted (spec_flags s')"
    and "working s' = E_store \<Longrightarrow> Notified \<in> set (trace s')"
  shows "one_waiter v s'"
  using assms one_waiter_at(1) [OF assms(1)] by (auto simp: one_waiter_def)

text \<open>A step that leaves the flags, the sleepers and the trace alone, and is not the write of \<open>_emitted\<close>.\<close>

lemma one_waiter_frame:
  assumes "csignal_inv s" "one_waiter v s" "pc s' = (pc s)(t := p)" "in_wait p \<Longrightarrow> t = v"
    and "flags s' = flags s" "sleeping s' = sleeping s" "trace s' = trace s"
    and "lock_of s' = lock_of s \<or> lock_of s \<in> {None, Some t} \<and> lock_of s' \<in> {None, Some t}"
    and "pc s t \<noteq> E_store" "p \<noteq> E_store"
  shows "one_waiter v s'"
proof -
  have W: "working s' = E_store \<longleftrightarrow> working s = E_store"
    using assms(3,8-10) by (auto simp: working_def split: option.splits)
  then have "emitted (spec_flags s') = emitted (spec_flags s)"
    using assms(5) by (simp add: spec_flags_def)
  with W show ?thesis
    using assms(5-7) one_waiter_at(2-4) [OF assms(2)]
    by (intro one_waiter_move [OF assms(2,3,4)]) simp_all
qed

lemma emit_step_one_waiter:
  assumes "emit_step t w s = Some s'" "csignal_inv s" "one_waiter v s"
  shows "one_waiter v s'"
proof (cases "pc s t = E_notify")
  case True
  then obtain r where r: "default_emit w s = Some r" "s' = goto t E_store (takes_effect t Emit r)"
    using assms(1) by (auto simp: emit_step_def)
  note D = default_emit_inv [OF r(1) assms(2) True]
  note I = csignal_inv_at(1,2,4) [OF assms(2), of t] csignal_inv_at(3) [OF assms(2)]
  have "sleeping r = [] \<and> Notified \<in> set (trace r)"
    using r(1) one_waiter_sleeper [OF assms(2,3)]
    by (auto simp: default_emit_def goto_def split: option.splits if_splits)
  moreover have "in_wait (pc r u) \<Longrightarrow> u = v" for u
    using r(1) one_waiter_sleeper [OF assms(2,3)] assms(3)
    by (auto simp: default_emit_def goto_def one_waiter_def split: option.splits if_splits)
  ultimately show ?thesis
    using D I True by (auto simp: r(2) one_waiter_def goto_def takes_effect_def spec_flags_def working_def in_wait_def)
next
  case notify: False
  note I = csignal_inv_at(1,2,4) [OF assms(2), of t] csignal_inv_at(3) [OF assms(2)]
  show ?thesis
  proof (cases "pc s t = E_store")
    case True
    with assms(1) have s': "s' = goto t E_unlock (s\<lparr>flags := (flags s)\<lparr>emitted := True\<rparr>\<rparr>)"
      by (simp add: emit_step_def)
    have "working s = E_store" using I True by (simp add: working_def)
    then have "Notified \<in> set (trace s)" "sleeping s = []"
      using one_waiter_at(3,4) [OF assms(3)] by simp_all
    then show ?thesis
      by (intro one_waiter_move [OF assms(3), of _ t E_unlock]) (simp_all add: s' goto_def in_wait_def spec_flags_def)
  next
    case False
    show ?thesis
      by (rule one_waiter_frame [OF assms(2,3), of _ t "pc s' t"])
        (use False notify I assms(1) in \<open>auto simp: emit_step_def csignal_ops in_wait_def split: sig_pc.splits if_splits\<close>)
  qed
qed

lemma wait_step_one_waiter:
  assumes "wait_step t s = Some s'" "csignal_inv s" "one_waiter v s"
  shows "one_waiter v s'"
proof -
  note I = csignal_inv_at(1,2,4) [OF assms(2), of t] csignal_inv_at(3) [OF assms(2)]
  have v: "t = v" using assms(1,3) by (auto simp: wait_step_def one_waiter_def in_wait_def split: sig_pc.splits)
  note S = one_waiter_sleeper [OF assms(2,3)]
  note O = one_waiter_at(2-4) [OF assms(3)]
  show ?thesis
  proof (cases "pc s t")
    case W_sleep
    then have s': "s' = goto t W_relock (s\<lparr>sleeping := remove1 t (sleeping s)\<rparr>)" and "lock_of s \<noteq> Some t"
      using assms(1) I by (auto simp: wait_step_def)
    then have "working s' = working s" by (auto simp: goto_def working_def split: option.splits)
    then show ?thesis
      using S O v W_sleep
      by (intro one_waiter_move [OF assms(3), of _ t W_relock]) (auto simp: s' goto_def spec_flags_def)
  next
    case W_reset
    then have "working s = W_reset" "sleeping s = []" using I S v by (auto simp: working_def)
    then show ?thesis
      using O W_reset assms(1) I v
      by (intro one_waiter_move [OF assms(3), of _ t W_unlock])
        (auto simp: wait_step_def csignal_ops spec_flags_def working_def)
  next
    case W_clear
    then have "Notified \<notin> set (trace s)" "sleeping s = []" using I S O(2) v by (auto simp: spec_flags_def working_def)
    then show ?thesis
      using W_clear assms(1) I v
      by (intro one_waiter_move [OF assms(3), of _ t W_set]) (auto simp: wait_step_def csignal_ops working_def)
  next
    case W_set
    then have "Notified \<notin> set (trace s)" "sleeping s = []" using I S O(2) v by (auto simp: spec_flags_def working_def)
    then show ?thesis
      using W_set assms(1) I v
      by (intro one_waiter_move [OF assms(3), of _ t W_block]) (auto simp: wait_step_def csignal_ops working_def)
  next
    case W_block
    then have "Notified \<notin> set (trace s)" "sleeping s = []" using I S O(2) v by (auto simp: spec_flags_def working_def)
    then show ?thesis
      using W_block assms(1) I v
      by (intro one_waiter_move [OF assms(3), of _ t W_sleep]) (auto simp: wait_step_def csignal_ops working_def)
  qed (rule one_waiter_frame [OF assms(2,3), of _ t "pc s' t"],
      use I v assms(1) in \<open>auto simp: wait_step_def csignal_ops split: if_splits\<close>)+
qed

text \<open>Runs in which only \<open>v\<close> waits.\<close>

lemma csignal_step_one_waiter:
  assumes "csignal_step a s = Some s'" "csignal_ok s" "one_waiter v s" "a \<in> range BeginWait \<longrightarrow> a = BeginWait v"
  shows "one_waiter v s'"
proof (cases a)
  case (BeginEmit t)
  show ?thesis
    by (rule one_waiter_frame [of s v _ t E_waited])
      (use assms BeginEmit in \<open>auto simp: csignal_step_def csignal_ok_def call_emit_def goto_def in_wait_def
        split: if_splits\<close>)
next
  case (BeginWait t)
  show ?thesis
    by (rule one_waiter_frame [of s v _ t W_emitted])
      (use assms BeginWait in \<open>auto simp: csignal_step_def csignal_ok_def call_wait_def goto_def in_wait_def
        split: if_splits\<close>)
next
  case (Access t w)
  with assms emit_step_one_waiter wait_step_one_waiter show ?thesis
    by (auto simp: csignal_step_def csignal_ok_def split: option.splits)
qed

lemma new_one_waiter: "one_waiter v new_csignal"
  by (simp add: one_waiter_def new_csignal_def in_wait_def working_def)

definition waits_by :: "nat \<Rightarrow> sig_action list \<Rightarrow> bool" where
  "waits_by v as \<longleftrightarrow> list_all (\<lambda>a. case a of BeginWait t \<Rightarrow> t = v | _ \<Rightarrow> True) as"

lemma csignal_run_one_waiter:
  assumes "csignal_run as new_csignal = Some s" "waits_by v as"
  shows "csignal_ok s \<and> one_waiter v s"
proof (rule csignal_run_induct [where P = "\<lambda>s. csignal_ok s \<and> one_waiter v s", OF assms(1)])
  fix a r r' assume a: "a \<in> set as" "csignal_step a r = Some r'" "csignal_ok r \<and> one_waiter v r"
  have "a \<in> range BeginWait \<longrightarrow> a = BeginWait v"
    using a(1) assms(2) by (auto simp: waits_by_def list_all_iff)
  then show "csignal_ok r' \<and> one_waiter v r'"
    using a csignal_step_ok csignal_step_one_waiter by blast
qed (simp add: new_csignal_ok new_one_waiter)

text \<open>
  A signal with one waiter loses no notification: while the waiter
  sleeps, \<open>_waited\<close> is set and \<open>_emitted\<close> is not, so that the next \<open>emit\<close> passes its tests; and once
  \<open>notify_one\<close> was called, nobody sleeps.
\<close>

lemma single_waiter_notified:
  assumes "csignal_run as new_csignal = Some s" "waits_by v as"
  shows "(sleeping s = [] \<or> sleeping s = [v] \<and> waited (flags s) \<and> \<not> emitted (flags s)) \<and>
    (Notified \<in> set (trace s) \<longrightarrow> sleeping s = [])"
  using csignal_run_one_waiter [OF assms] one_waiter_sleeper [of s v] one_waiter_at(2,3) [of v s]
  by (auto simp: csignal_ok_def)

text \<open>
  With two waiters this fails: the first of two sleepers whose time is up clears \<open>_waited\<close>, and an
  \<open>emit\<close> that begins then returns without notifying the second, which sleeps on.
\<close>

lemma second_waiter_not_notified:
  "\<exists>s. csignal_run
     ([BeginWait 1] @ replicate 6 (Access 1 None) @ [BeginWait 2] @ replicate 6 (Access 2 None) @
      replicate 4 (Access 1 None) @ [BeginEmit 3, Access 3 None]) new_csignal = Some s \<and>
     sleeping s = [2] \<and> pc s 3 = Outside \<and> calls_by 3 (effects s) = [Emit] \<and> Notified \<notin> set (trace s)"
  by (simp add: numeral_eq_Suc csignal_step_def emit_step_def wait_step_def csignal_ops new_csignal_def
      new_signal_def calls_by_def)

end
