(* ===== verification/SocketWaits.thy ===== *)
theory SocketWaits
  imports Sockets Timeouts
begin

text \<open>
  Sockets, the handlers of their context and its timers together: which coroutine an event wakes.
  The operations of \<open>Sockets\<close> run on the handlers of \<open>Events\<close>, the \<open>epoll\<close> discipline that \<open>Events\<close>
  asks for is derived from the life of the sockets, and what \<open>epoll_wait\<close> reports is arbitrary.
\<close>

section \<open>Sockets of one context\<close>

text \<open>
  A call of \<open>_wait_sock_event\<close>, with its shared \<open>Signal\<close>. The handlers' functions are the one of
  \<open>_set_sock_opt\<close>, which does nothing, and those of the waits, by number; a timer's function is the
  number of its wait.
\<close>

record wait_call =
  wc_fd :: int32
  wc_on :: event
  wc_timeout :: rat
  wc_signal :: wait_signal

datatype sock_fn = Ignored | Wakes nat

text \<open>
  \<open>sw_armed\<close> and \<open>sw_registered\<close> record the history: the open sockets, each with the last wait begun
  on it if there was one, and the number of registrations that were made.
\<close>

record sock_world =
  sw_handlers :: "sock_fn handler list"
  sw_timed :: "nat timed"
  sw_waits :: "wait_call list"
  sw_armed :: "int32 \<rightharpoonup> nat option"
  sw_registered :: nat

definition new_sock_world :: "nat \<Rightarrow> sock_world" where
  "new_sock_world n = \<lparr>sw_handlers = replicate n new_handler, sw_timed = timed_init n, sw_waits = [],
     sw_armed = Map.empty, sw_registered = 0\<rparr>"

definition socket_opened :: "socket \<Rightarrow> sock_fn handler list \<Rightarrow> sock_world \<Rightarrow> sock_world" where
  "socket_opened k hs s = s\<lparr>sw_handlers := hs, sw_armed := (sw_armed s)(fd_word k \<mapsto> None),
     sw_registered := Suc (sw_registered s)\<rparr>"

text \<open>\<open>Socket::create\<close> and a successful \<open>accept\<close>.\<close>

definition open_socket ::
    "(int \<Rightarrow> string) \<Rightarrow> int \<times> int \<Rightarrow> int option \<Rightarrow> (ctl \<Rightarrow> bool) \<Rightarrow> protocol \<Rightarrow> family \<Rightarrow> sock_world \<Rightarrow>
      sock_fault + socket \<times> sock_world" where
  "open_socket strerror answer fcntl ok p f s =
     (case sock_create strerror answer fcntl ok Ignored p f (sw_handlers s) of
        (Inl e, _) \<Rightarrow> Inl e
      | (Inr k, hs) \<Rightarrow> Inr (k, socket_opened k hs s))"

definition accept_socket ::
    "(int \<Rightarrow> string) \<Rightarrow> int option \<Rightarrow> (ctl \<Rightarrow> bool) \<Rightarrow> socket \<Rightarrow> (int \<times> int) list \<Rightarrow> sock_world \<Rightarrow>
      (socket \<times> sock_world) option" where
  "accept_socket strerror fcntl ok k rs s =
     (case sock_accept_into strerror fcntl ok Ignored k rs (sw_handlers s) of
        (Some (Inr (Inr c)), hs) \<Rightarrow> Some (c, socket_opened c hs s)
      | _ \<Rightarrow> None)"

text \<open>\<open>_wait_sock_event\<close> up to \<open>aquire\<close>, and from there on, which takes a permit.\<close>

definition begin_wait ::
    "(ctl \<Rightarrow> bool) \<Rightarrow> (nat \<Rightarrow> int) \<Rightarrow> socket \<Rightarrow> event \<Rightarrow> rat \<Rightarrow> sock_world \<Rightarrow> wait_fault + sock_world" where
  "begin_wait ok clock k on ms s =
     (let w = length (sw_waits s)
      in and_then (wait_sock_event ok clock k on (Wakes w) w ms (sw_handlers s, sw_timed s)) (\<lambda>(hs, t).
           Inr (s\<lparr>sw_handlers := hs, sw_timed := t,
             sw_waits := sw_waits s @ [\<lparr>wc_fd = fd_word k, wc_on = on, wc_timeout = ms, wc_signal = new_wait\<rparr>],
             sw_armed := (sw_armed s)(fd_word k \<mapsto> Some w), sw_registered := Suc (sw_registered s)\<rparr>)))"

definition set_signal :: "nat \<Rightarrow> (wait_signal \<Rightarrow> wait_signal) \<Rightarrow> sock_world \<Rightarrow> sock_world" where
  "set_signal w f s = s\<lparr>sw_waits := (sw_waits s)[w := (sw_waits s ! w)\<lparr>wc_signal := f (wc_signal (sw_waits s ! w))\<rparr>]\<rparr>"

definition finish_wait :: "nat \<Rightarrow> sock_world \<Rightarrow> (bool \<times> sock_world) option" where
  "finish_wait w s =
     (if w < length (sw_waits s)
      then map_option (\<lambda>r. (r, set_signal w (\<lambda>g. g\<lparr>permits := permits g - 1\<rparr>) s)) (wait_result (wc_signal (sw_waits s ! w)))
      else None)"

text \<open>
  One turn of \<open>handle\<close> in partition \<open>p\<close> for an event, with the call of the function; and one timer
  that is taken and called. \<open>spurious\<close> is whether the weak exchange fails.
\<close>

definition report_event :: "nat \<Rightarrow> size_t \<times> size_t \<Rightarrow> bool \<Rightarrow> sock_world \<Rightarrow> sock_world" where
  "report_event p e spurious s =
     (case dispatch e (sw_handlers s ! p) of
        Some (Wakes w, ev) \<Rightarrow> set_signal w (on_event spurious) s
      | _ \<Rightarrow> s)"

definition expire_wait :: "(nat \<Rightarrow> int) \<Rightarrow> nat \<Rightarrow> bool \<Rightarrow> sock_world \<Rightarrow> timed_fault + sock_world" where
  "expire_wait clock i spurious s =
     and_then (try_timer clock i (sw_timed s)) (\<lambda>(ok, t).
       let s1 = s\<lparr>sw_timed := t\<rparr>
       in Inr (if ok then set_signal (timer_fn (fst (last (fired t)))) (on_expiry spurious) s1 else s1))"

definition close_socket :: "socket \<Rightarrow> sock_world \<Rightarrow> event_fault + sock_world" where
  "close_socket k s =
     (case sock_close k (sw_handlers s) of
        (Inl e, _) \<Rightarrow> Inl e
      | (Inr _, hs) \<Rightarrow> Inr (s\<lparr>sw_handlers := hs, sw_armed := (sw_armed s)(fd_word k := None)\<rparr>))"

text \<open>
  The steps of a program on these sockets. The kernel does not give out a descriptor that is
  open; the program waits on open sockets and closes each once; the 32-bit ids have not wrapped. A call that
  throws has no step.
\<close>

inductive sock_step :: "(nat \<Rightarrow> int) \<Rightarrow> sock_world \<Rightarrow> sock_world \<Rightarrow> bool" for clock where
  step_open: "open_socket strerror answer fcntl ok p f s = Inr (k, t) \<Longrightarrow> sw_armed s (fd_word k) = None \<Longrightarrow>
     sw_registered s < 2 ^ 32 \<Longrightarrow> sock_step clock s t"
| step_accept: "accept_socket strerror fcntl ok l rs s = Some (k, t) \<Longrightarrow> sw_armed s (fd_word k) = None \<Longrightarrow>
     sw_registered s < 2 ^ 32 \<Longrightarrow> sock_step clock s t"
| step_wait: "begin_wait ok clock k on ms s = Inr t \<Longrightarrow> sw_armed s (fd_word k) \<noteq> None \<Longrightarrow>
     sw_registered s < 2 ^ 32 \<Longrightarrow> sock_step clock s t"
| step_finish: "finish_wait w s = Some (r, t) \<Longrightarrow> sock_step clock s t"
| step_event: "p < length (sw_handlers s) \<Longrightarrow> sock_step clock s (report_event p e spurious s)"
| step_expire: "expire_wait clock i spurious s = Inr t \<Longrightarrow> sock_step clock s t"
| step_close: "close_socket k s = Inr t \<Longrightarrow> sw_armed s (fd_word k) \<noteq> None \<Longrightarrow> sock_step clock s t"

definition sock_reach :: "(nat \<Rightarrow> int) \<Rightarrow> nat \<Rightarrow> sock_world \<Rightarrow> bool" where
  "sock_reach clock n s \<longleftrightarrow> (sock_step clock)\<^sup>*\<^sup>* (new_sock_world n) s"

section \<open>The registrations of the handlers\<close>

text \<open>
  The task of a descriptor, as the sockets and waits have it; and the registry that a handler
  implements, which holds these for the descriptors of its partition.
\<close>

definition part_of :: "nat \<Rightarrow> int32 \<Rightarrow> nat" where
  "part_of n fd = fd_index fd mod n"

definition task_for :: "wait_call list \<Rightarrow> int32 \<Rightarrow> nat option \<Rightarrow> sock_fn etask" where
  "task_for ws fd a =
     (case a of
        None \<Rightarrow> \<lparr>task_fd = fd, task_on = ev_err OR ev_oneshot, task_fn = Ignored\<rparr>
      | Some w \<Rightarrow> \<lparr>task_fd = fd, task_on = wc_on (ws ! w), task_fn = Wakes w\<rparr>)"

definition tasks_of :: "'f registry \<Rightarrow> int32 \<rightharpoonup> 'f etask" where
  "tasks_of r fd = map_option (\<lambda>k. given r ! k) (current r fd)"

definition holds_tasks :: "(int32 \<rightharpoonup> 'f etask) \<Rightarrow> nat \<Rightarrow> 'f handler \<Rightarrow> bool" where
  "holds_tasks m b h \<longleftrightarrow> (\<exists>r. handler_rel h r \<and> length (given r) \<le> b \<and> tasks_of r = m)"

lemma tasks_of_spec_op:
  assumes "handler_rel h r"
  shows "tasks_of (spec_op p r) = (case p of
     AddOp fd on f \<Rightarrow> (tasks_of r)(fd \<mapsto> \<lparr>task_fd = fd, task_on = on, task_fn = f\<rparr>)
   | ModOp fd on f \<Rightarrow> (tasks_of r)(fd \<mapsto> \<lparr>task_fd = fd, task_on = on, task_fn = f\<rparr>)
   | DelOp fd \<Rightarrow> (tasks_of r)(fd := None))"
proof -
  have "tasks_of (register e r) = (tasks_of r)(task_fd e \<mapsto> e)" for e
    using handler_rel_current [OF assms]
    by (auto simp: tasks_of_def register_def fun_eq_iff nth_append intro!: option.map_cong)
  moreover have "tasks_of (r\<lparr>current := (current r)(fd := None)\<rparr>) = (tasks_of r)(fd := None)" for fd
    by (auto simp: tasks_of_def)
  ultimately show ?thesis by (auto simp: spec_op_def split: handler_op.splits)
qed

lemma disciplined_tasks:
  "disciplined p r \<longleftrightarrow> (case p of AddOp fd _ _ \<Rightarrow> tasks_of r fd = None
     | ModOp fd _ _ \<Rightarrow> tasks_of r fd \<noteq> None | DelOp fd \<Rightarrow> tasks_of r fd \<noteq> None)"
  by (auto simp: disciplined_def tasks_of_def split: handler_op.splits)

lemma holds_tasks_op:
  assumes "holds_tasks m b h" "b < 2 ^ 32"
  shows "m fd = None \<Longrightarrow> holds_tasks (m(fd \<mapsto> \<lparr>task_fd = fd, task_on = on, task_fn = f\<rparr>)) (Suc b) (snd (handler_add ok fd on f h))"
    and "m fd \<noteq> None \<Longrightarrow> holds_tasks (m(fd \<mapsto> \<lparr>task_fd = fd, task_on = on, task_fn = f\<rparr>)) (Suc b) (snd (handler_mod ok fd on f h))"
proof -
  obtain r where r: "handler_rel h r" "length (given r) \<le> b" "tasks_of r = m"
    using assms(1) by (auto simp: holds_tasks_def)
  have op: "holds_tasks (tasks_of (spec_op p r)) (Suc b) (handler_op ok p h)" if "disciplined p r" for p
    using handler_op_rel [OF r(1) that] r(2) assms(2)
    by (auto simp: holds_tasks_def spec_op_def register_def split: handler_op.splits intro!: exI [of _ "spec_op p r"])
  show "holds_tasks (m(fd \<mapsto> \<lparr>task_fd = fd, task_on = on, task_fn = f\<rparr>)) (Suc b) (snd (handler_add ok fd on f h))" if "m fd = None"
    using op [of "AddOp fd on f"] that r(3) by (simp add: disciplined_tasks tasks_of_spec_op [OF r(1)] handler_op_def)
  show "holds_tasks (m(fd \<mapsto> \<lparr>task_fd = fd, task_on = on, task_fn = f\<rparr>)) (Suc b) (snd (handler_mod ok fd on f h))" if "m fd \<noteq> None"
    using op [of "ModOp fd on f"] that r(3) by (simp add: disciplined_tasks tasks_of_spec_op [OF r(1)] handler_op_def)
qed

lemma holds_tasks_del:
  assumes "holds_tasks m b h" "m fd \<noteq> None"
  shows "holds_tasks (m(fd := None)) b (handler_del fd h)"
proof -
  obtain r k where r: "handler_rel h r" "length (given r) \<le> b" "tasks_of r = m" "current r fd = Some k"
    using assms by (auto simp: holds_tasks_def tasks_of_def)
  then show ?thesis
    using handler_del_rel [OF r(1,4)] tasks_of_spec_op [OF r(1), of "DelOp fd"]
    by (auto simp: holds_tasks_def spec_op_def intro!: exI [of _ "r\<lparr>current := (current r)(fd := None)\<rparr>"])
qed

lemma holds_tasks_mono: "holds_tasks m b h \<Longrightarrow> holds_tasks m (Suc b) h"
  by (auto simp: holds_tasks_def)

lemma new_handler_holds: "holds_tasks Map.empty b new_handler"
  using handler_reach_rel [OF handler_start]
  by (auto simp: holds_tasks_def tasks_of_def intro!: exI [of _ "\<lparr>given = [], current = Map.empty\<rparr>"])

text \<open>Which event calls which function: the one whose data is the number of a current task.\<close>

lemma holds_tasks_dispatch:
  assumes "holds_tasks m b h"
  shows "dispatch e h = Some (f, ev) \<longleftrightarrow>
    (\<exists>fd on. m fd = Some \<lparr>task_fd = fd, task_on = on, task_fn = f\<rparr> \<and> fd_tids h fd = Some (data_tid (snd e)) \<and>
       ev = from_linux (fst e) \<and> on AND ev \<noteq> 0)"
proof -
  obtain r where r: "handler_rel h r" "tasks_of r = m" using assms by (auto simp: holds_tasks_def)
  define t where "t = data_tid (snd e)"
  have cur: "current r fd = Some k \<Longrightarrow> k < length (given r) \<and> task_fd (given r ! k) = fd \<and> length (given r) \<le> 2 ^ 32" for fd k
    using handler_rel_current [OF r(1)] .
  have tid: "fd_tids h fd = Some t \<longleftrightarrow> current r fd = Some (unat t)" for fd
  proof -
    have "of_nat k = t \<longleftrightarrow> k = unat t" if "current r fd = Some k" for k
      using cur [OF that] unat_tid [of k] by auto
    then show ?thesis using r(1) by (auto simp: handler_rel_def)
  qed
  have calls: "tid_calls h t = Some x \<longleftrightarrow> fd_tids h (task_fd x) = Some t \<and> m (task_fd x) = Some x" for x
  proof -
    have "tid_calls h t = Some x \<longleftrightarrow> current r (task_fd x) = Some (unat t) \<and> given r ! unat t = x"
      using r(1) cur [of "task_fd x" "unat t"] by (auto simp: handler_rel_def calls_of_def Let_def)
    then show ?thesis unfolding tid r(2) [symmetric] tasks_of_def by auto
  qed
  have "dispatch e h = Some (f, ev) \<longleftrightarrow>
      (\<exists>x. tid_calls h t = Some x \<and> task_fn x = f \<and> ev = from_linux (fst e) \<and> task_on x AND ev \<noteq> 0)"
    by (auto simp: dispatch_def t_def [symmetric] Let_def split: option.splits)
  also have "\<dots> \<longleftrightarrow> (\<exists>fd on. m fd = Some \<lparr>task_fd = fd, task_on = on, task_fn = f\<rparr> \<and> fd_tids h fd = Some t \<and>
       ev = from_linux (fst e) \<and> on AND ev \<noteq> 0)" (is "?l \<longleftrightarrow> ?r")
  proof
    assume ?l
    then obtain x where x: "tid_calls h t = Some x" "task_fn x = f" "ev = from_linux (fst e)" "task_on x AND ev \<noteq> 0" by blast
    moreover have "x = \<lparr>task_fd = task_fd x, task_on = task_on x, task_fn = f\<rparr>" using x(2) by simp
    ultimately show ?r using calls [of x] by metis
  next
    assume ?r
    then obtain fd on where "m fd = Some \<lparr>task_fd = fd, task_on = on, task_fn = f\<rparr>" "fd_tids h fd = Some t"
      "ev = from_linux (fst e)" "on AND ev \<noteq> 0" by blast
    then show ?l using calls [of "\<lparr>task_fd = fd, task_on = on, task_fn = f\<rparr>"]
      by (intro exI [of _ "\<lparr>task_fd = fd, task_on = on, task_fn = f\<rparr>"]) simp
  qed
  finally show ?thesis by (simp add: t_def)
qed

section \<open>The invariant\<close>

definition part_tasks :: "nat \<Rightarrow> wait_call list \<Rightarrow> (int32 \<rightharpoonup> nat option) \<Rightarrow> nat \<Rightarrow> int32 \<rightharpoonup> sock_fn etask" where
  "part_tasks n ws m i fd = (if part_of n fd = i then map_option (task_for ws fd) (m fd) else None)"

definition sock_inv :: "nat \<Rightarrow> sock_world \<Rightarrow> bool" where
  "sock_inv n s \<longleftrightarrow> length (sw_handlers s) = n \<and>
     (\<forall>i < n. holds_tasks (part_tasks n (sw_waits s) (sw_armed s) i) (sw_registered s) (sw_handlers s ! i)) \<and>
     (\<forall>fd w. sw_armed s fd = Some (Some w) \<longrightarrow> w < length (sw_waits s) \<and> wc_fd (sw_waits s ! w) = fd) \<and>
     (\<forall>u \<in># all_timers (sw_timed s). timer_fn u < length (sw_waits s) \<and> wc_timeout (sw_waits s ! timer_fn u) > 0)"

lemma set_signal_keeps:
  "length (sw_waits (set_signal v f s)) = length (sw_waits s)"
  "wc_fd (sw_waits (set_signal v f s) ! w) = wc_fd (sw_waits s ! w)"
  "wc_on (sw_waits (set_signal v f s) ! w) = wc_on (sw_waits s ! w)"
  "wc_timeout (sw_waits (set_signal v f s) ! w) = wc_timeout (sw_waits s ! w)"
  "sw_handlers (set_signal v f s) = sw_handlers s" "sw_armed (set_signal v f s) = sw_armed s"
  "sw_registered (set_signal v f s) = sw_registered s" "sw_timed (set_signal v f s) = sw_timed s"
proof -
  have "wc_fd (sw_waits (set_signal v f s) ! w) = wc_fd (sw_waits s ! w) \<and>
    wc_on (sw_waits (set_signal v f s) ! w) = wc_on (sw_waits s ! w) \<and>
    wc_timeout (sw_waits (set_signal v f s) ! w) = wc_timeout (sw_waits s ! w)"
    by (cases "v = w"; cases "v < length (sw_waits s)") (simp_all add: set_signal_def not_less list_update_beyond)
  then show "wc_fd (sw_waits (set_signal v f s) ! w) = wc_fd (sw_waits s ! w)"
    "wc_on (sw_waits (set_signal v f s) ! w) = wc_on (sw_waits s ! w)"
    "wc_timeout (sw_waits (set_signal v f s) ! w) = wc_timeout (sw_waits s ! w)" by simp_all
qed (simp_all add: set_signal_def)

lemma task_for_set_signal: "task_for (sw_waits (set_signal v f s)) fd a = task_for (sw_waits s) fd a"
  by (simp add: task_for_def set_signal_keeps split: option.split)

lemma part_tasks_set_signal: "part_tasks n (sw_waits (set_signal v f s)) m i = part_tasks n (sw_waits s) m i"
proof -
  have "task_for (sw_waits (set_signal v f s)) fd = task_for (sw_waits s) fd" for fd
    by (rule ext) (rule task_for_set_signal)
  then show ?thesis by (intro ext) (simp add: part_tasks_def)
qed

lemma sock_inv_set_signal: "sock_inv n s \<Longrightarrow> sock_inv n (set_signal v f s)"
  by (simp add: sock_inv_def set_signal_keeps part_tasks_set_signal)

text \<open>What the calls do to the handlers, when they return.\<close>

definition registered_in :: "(ctl \<Rightarrow> bool) \<Rightarrow> sock_fn \<Rightarrow> int32 \<Rightarrow> sock_fn handler list \<Rightarrow> sock_fn handler list" where
  "registered_in ok g fd hs =
     (let i = part_of (length hs) fd in hs[i := snd (handler_add ok fd (ev_err OR ev_oneshot) g (hs ! i))])"

lemma set_sock_opt_Inr:
  "set_sock_opt strerror fcntl ok g k hs = (Inr u, hs') \<Longrightarrow> hs \<noteq> [] \<and> hs' = registered_in ok g (fd_word k) hs"
  by (auto simp: set_sock_opt_def event_add_def at_handler_def registered_in_def part_of_def Let_def
      split: option.splits prod.splits if_splits)

lemma sock_create_Inr:
  "sock_create strerror answer fcntl ok g p f hs = (Inr k, hs') \<Longrightarrow> hs \<noteq> [] \<and> hs' = registered_in ok g (fd_word k) hs"
  by (auto simp: sock_create_def Let_def map_sum_eq_Inr split: if_splits prod.splits dest: set_sock_opt_Inr)

lemma sock_accept_Inr:
  "sock_accept_into strerror fcntl ok g l rs hs = (Some (Inr (Inr k)), hs') \<Longrightarrow>
     hs \<noteq> [] \<and> hs' = registered_in ok g (fd_word k) hs"
  by (auto simp: sock_accept_into_def map_sum_eq_Inr split: option.splits sum.splits prod.splits dest: set_sock_opt_Inr)

lemma sock_inv_opened:
  assumes "sock_inv n s" "sw_handlers s \<noteq> []" "sw_armed s (fd_word k) = None" "sw_registered s < 2 ^ 32"
    and "hs = registered_in ok Ignored (fd_word k) (sw_handlers s)"
  shows "sock_inv n (socket_opened k hs s)"
proof -
  let ?fd = "fd_word k" and ?t = "socket_opened k hs s"
  let ?p = "part_of n ?fd"
  have n: "length (sw_handlers s) = n" "?p < n" using assms(1,2) by (auto simp: sock_inv_def part_of_def)
  have H: "holds_tasks (part_tasks n (sw_waits s) (sw_armed s) i) (sw_registered s) (sw_handlers s ! i)" if "i < n" for i
    using assms(1) that by (simp add: sock_inv_def)
  have hs: "hs = (sw_handlers s)[?p := snd (handler_add ok ?fd (ev_err OR ev_oneshot) Ignored (sw_handlers s ! ?p))]"
    using assms(5) n by (simp add: registered_in_def Let_def)
  have "holds_tasks (part_tasks n (sw_waits ?t) (sw_armed ?t) i) (sw_registered ?t) (sw_handlers ?t ! i)" if i: "i < n" for i
  proof (cases "i = ?p")
    case True
    have "part_tasks n (sw_waits ?t) (sw_armed ?t) i =
        (part_tasks n (sw_waits s) (sw_armed s) i)(?fd \<mapsto> \<lparr>task_fd = ?fd, task_on = ev_err OR ev_oneshot, task_fn = Ignored\<rparr>)"
      using True by (auto simp: part_tasks_def socket_opened_def task_for_def fun_eq_iff)
    moreover have "part_tasks n (sw_waits s) (sw_armed s) i ?fd = None" using assms(3) by (simp add: part_tasks_def)
    ultimately show ?thesis
      using holds_tasks_op(1) [OF H [OF i] assms(4)] True n by (simp add: socket_opened_def hs)
  next
    case False
    then have "part_tasks n (sw_waits ?t) (sw_armed ?t) i = part_tasks n (sw_waits s) (sw_armed s) i"
      by (auto simp: part_tasks_def socket_opened_def fun_eq_iff)
    then show ?thesis using holds_tasks_mono [OF H [OF i]] False by (simp add: socket_opened_def hs)
  qed
  then show ?thesis using assms(1) n by (simp add: sock_inv_def) (simp add: socket_opened_def hs)
qed

lemma sock_inv_close:
  assumes "sock_inv n s" "close_socket k s = Inr t" "sw_armed s (fd_word k) \<noteq> None"
  shows "sock_inv n t"
proof -
  let ?fd = "fd_word k"
  let ?p = "part_of n ?fd"
  have n: "length (sw_handlers s) = n" "?p < n"
    and t: "t = s\<lparr>sw_handlers := (sw_handlers s)[?p := handler_del ?fd (sw_handlers s ! ?p)],
      sw_armed := (sw_armed s)(?fd := None)\<rparr>"
    using assms(1,2)
    by (auto simp: close_socket_def sock_close_def event_del_def at_handler_def part_of_def sock_inv_def
        split: if_splits prod.splits sum.splits)
  have H: "holds_tasks (part_tasks n (sw_waits s) (sw_armed s) i) (sw_registered s) (sw_handlers s ! i)" if "i < n" for i
    using assms(1) that by (simp add: sock_inv_def)
  have "holds_tasks (part_tasks n (sw_waits t) (sw_armed t) i) (sw_registered t) (sw_handlers t ! i)" if i: "i < n" for i
  proof (cases "i = ?p")
    case True
    have "part_tasks n (sw_waits t) (sw_armed t) i = (part_tasks n (sw_waits s) (sw_armed s) i)(?fd := None)"
      using True by (auto simp: part_tasks_def t fun_eq_iff)
    moreover have "part_tasks n (sw_waits s) (sw_armed s) i ?fd \<noteq> None" using assms(3) True by (auto simp: part_tasks_def)
    ultimately show ?thesis using holds_tasks_del [OF H [OF i]] True n by (simp add: t)
  next
    case False
    then have "part_tasks n (sw_waits t) (sw_armed t) i = part_tasks n (sw_waits s) (sw_armed s) i"
      by (auto simp: part_tasks_def t fun_eq_iff)
    then show ?thesis using H [OF i] False by (simp add: t)
  qed
  then show ?thesis using assms(1) n by (auto simp: sock_inv_def) (auto simp: t split: if_splits)
qed

lemma begin_wait_Inr:
  assumes "begin_wait ok clock k on ms s = Inr t"
  obtains tm where "sw_handlers s \<noteq> []"
    "t = s\<lparr>sw_handlers := (let i = part_of (length (sw_handlers s)) (fd_word k)
         in (sw_handlers s)[i := snd (handler_mod ok (fd_word k) on (Wakes (length (sw_waits s))) (sw_handlers s ! i))]),
       sw_timed := tm,
       sw_waits := sw_waits s @ [\<lparr>wc_fd = fd_word k, wc_on = on, wc_timeout = ms, wc_signal = new_wait\<rparr>],
       sw_armed := (sw_armed s)(fd_word k \<mapsto> Some (length (sw_waits s))), sw_registered := Suc (sw_registered s)\<rparr>"
    "if ms > 0 then create_timeout clock (length (sw_waits s)) ms (sw_timed s) = Inr tm else tm = sw_timed s"
proof -
  obtain hs tm where w: "wait_sock_event ok clock k on (Wakes (length (sw_waits s))) (length (sw_waits s)) ms
      (sw_handlers s, sw_timed s) = Inr (hs, tm)"
    and t: "t = s\<lparr>sw_handlers := hs, sw_timed := tm,
       sw_waits := sw_waits s @ [\<lparr>wc_fd = fd_word k, wc_on = on, wc_timeout = ms, wc_signal = new_wait\<rparr>],
       sw_armed := (sw_armed s)(fd_word k \<mapsto> Some (length (sw_waits s))), sw_registered := Suc (sw_registered s)\<rparr>"
    using assms by (auto simp: begin_wait_def Let_def and_then_Inr)
  have hs: "sw_handlers s \<noteq> []" "hs = (let i = part_of (length (sw_handlers s)) (fd_word k)
      in (sw_handlers s)[i := snd (handler_mod ok (fd_word k) on (Wakes (length (sw_waits s))) (sw_handlers s ! i))])"
    using w by (auto simp: wait_sock_event_def event_mod_def at_handler_def part_of_def Let_def map_sum_eq_Inr
        split: if_splits prod.splits sum.splits)
  have "if ms > 0 then create_timeout clock (length (sw_waits s)) ms (sw_timed s) = Inr tm else tm = sw_timed s"
    using w by (auto simp: wait_sock_event_def map_sum_eq_Inr split: if_splits prod.splits sum.splits)
  then show thesis using that hs t by metis
qed

lemma sock_inv_begin_wait:
  assumes "sock_inv n s" "begin_wait ok clock k on ms s = Inr t" "sw_armed s (fd_word k) \<noteq> None" "sw_registered s < 2 ^ 32"
  shows "sock_inv n t"
  using assms(2)
proof (rule begin_wait_Inr)
  fix tm
  let ?fd = "fd_word k" and ?w = "length (sw_waits s)"
  let ?p = "part_of n ?fd" and ?x = "\<lparr>wc_fd = fd_word k, wc_on = on, wc_timeout = ms, wc_signal = new_wait\<rparr>"
  assume ne: "sw_handlers s \<noteq> []"
    and "t = s\<lparr>sw_handlers := (let i = part_of (length (sw_handlers s)) (fd_word k)
         in (sw_handlers s)[i := snd (handler_mod ok (fd_word k) on (Wakes ?w) (sw_handlers s ! i))]),
       sw_timed := tm, sw_waits := sw_waits s @ [?x],
       sw_armed := (sw_armed s)(?fd \<mapsto> Some ?w), sw_registered := Suc (sw_registered s)\<rparr>"
    and tm: "if ms > 0 then create_timeout clock ?w ms (sw_timed s) = Inr tm else tm = sw_timed s"
  then have n: "length (sw_handlers s) = n" "?p < n"
    and t: "t = s\<lparr>sw_handlers := (sw_handlers s)[?p := snd (handler_mod ok ?fd on (Wakes ?w) (sw_handlers s ! ?p))],
       sw_timed := tm, sw_waits := sw_waits s @ [?x],
       sw_armed := (sw_armed s)(?fd \<mapsto> Some ?w), sw_registered := Suc (sw_registered s)\<rparr>"
    using assms(1) by (auto simp: sock_inv_def part_of_def Let_def)
  have H: "holds_tasks (part_tasks n (sw_waits s) (sw_armed s) i) (sw_registered s) (sw_handlers s ! i)" if "i < n" for i
    using assms(1) that by (simp add: sock_inv_def)
  have old: "map_option (task_for (sw_waits t) fd) (sw_armed s fd) = map_option (task_for (sw_waits s) fd) (sw_armed s fd)" for fd
    using assms(1) by (auto simp: sock_inv_def t task_for_def nth_append split: option.splits intro!: option.map_cong)
  have "holds_tasks (part_tasks n (sw_waits t) (sw_armed t) i) (sw_registered t) (sw_handlers t ! i)" if i: "i < n" for i
  proof (cases "i = ?p")
    case True
    have "part_tasks n (sw_waits t) (sw_armed t) i =
        (part_tasks n (sw_waits s) (sw_armed s) i)(?fd \<mapsto> \<lparr>task_fd = ?fd, task_on = on, task_fn = Wakes ?w\<rparr>)"
      using True old by (auto simp: part_tasks_def task_for_def fun_eq_iff) (simp_all add: t task_for_def)
    moreover have "part_tasks n (sw_waits s) (sw_armed s) i ?fd \<noteq> None" using assms(3) True by (auto simp: part_tasks_def)
    ultimately show ?thesis using holds_tasks_op(2) [OF H [OF i] assms(4)] True n by (simp add: t)
  next
    case False
    then have "part_tasks n (sw_waits t) (sw_armed t) i = part_tasks n (sw_waits s) (sw_armed s) i"
      using old by (auto simp: part_tasks_def fun_eq_iff t)
    then show ?thesis using holds_tasks_mono [OF H [OF i]] False by (simp add: t)
  qed
  moreover have "timer_fn u < length (sw_waits t) \<and> wc_timeout (sw_waits t ! timer_fn u) > 0"
    if "u \<in># all_timers (sw_timed t)" for u
  proof -
    have "u \<in># all_timers (sw_timed s) \<or> ms > 0 \<and> timer_fn u = ?w"
      using that tm create_timeout_all [of clock ?w ms "sw_timed s" tm] by (auto simp: t split: if_splits)
    then show ?thesis using assms(1) by (auto simp: sock_inv_def t nth_append)
  qed
  moreover have "w < length (sw_waits t) \<and> wc_fd (sw_waits t ! w) = fd" if "sw_armed t fd = Some (Some w)" for fd w
    using that assms(1) by (auto simp: sock_inv_def t nth_append split: if_splits)
  ultimately show ?thesis using n by (simp add: sock_inv_def) (simp add: t)
qed

lemma expire_wait_Inr:
  assumes "expire_wait clock i spurious s = Inr t"
  obtains tm where "all_timers tm = all_timers (sw_timed s)" "t = s\<lparr>sw_timed := tm\<rparr>"
  | tm u where "all_timers tm = all_timers (sw_timed s)" "u \<in># all_timers (sw_timed s)"
      "t = set_signal (timer_fn u) (on_expiry spurious) (s\<lparr>sw_timed := tm\<rparr>)"
proof -
  obtain ok tm where tm: "try_timer clock i (sw_timed s) = Inr (ok, tm)"
    "t = (if ok then set_signal (timer_fn (fst (last (fired tm)))) (on_expiry spurious) (s\<lparr>sw_timed := tm\<rparr>) else s\<lparr>sw_timed := tm\<rparr>)"
    using assms by (auto simp: expire_wait_def and_then_Inr Let_def)
  note all = try_timer_all [OF tm(1)]
  show thesis
  proof (cases ok)
    case True
    then obtain r where r: "fired tm = fired (sw_timed s) @ [r]" using all by auto
    then have "fst r \<in># all_timers tm" by (simp add: all_timers_def)
    then have "fst r \<in># all_timers (sw_timed s)" using all by simp
    with True tm(2) all r that(2) show thesis by simp
  next
    case False
    with tm(2) all that(1) [of tm] show thesis by simp
  qed
qed

lemma sock_inv_timed: "sock_inv n s \<Longrightarrow> all_timers tm = all_timers (sw_timed s) \<Longrightarrow> sock_inv n (s\<lparr>sw_timed := tm\<rparr>)"
  by (simp add: sock_inv_def)

lemma sock_step_inv: "sock_step clock s t \<Longrightarrow> sock_inv n s \<Longrightarrow> sock_inv n t"
proof (induction rule: sock_step.induct)
  case (step_open strerror answer fcntl ok p f s k t)
  then obtain hs where hs: "sock_create strerror answer fcntl ok Ignored p f (sw_handlers s) = (Inr k, hs)" "t = socket_opened k hs s"
    by (auto simp: open_socket_def split: prod.splits sum.splits)
  note Inr = sock_create_Inr [OF hs(1)]
  show ?case unfolding hs(2) by (rule sock_inv_opened) (use step_open Inr in auto)
next
  case (step_accept strerror fcntl ok l rs s k t)
  then obtain hs where hs: "sock_accept_into strerror fcntl ok Ignored l rs (sw_handlers s) = (Some (Inr (Inr k)), hs)"
    "t = socket_opened k hs s"
    by (auto simp: accept_socket_def split: prod.splits sum.splits option.splits)
  note Inr = sock_accept_Inr [OF hs(1)]
  show ?case unfolding hs(2) by (rule sock_inv_opened) (use step_accept Inr in auto)
next
  case (step_wait ok k on ms s t)
  show ?case by (rule sock_inv_begin_wait [OF step_wait.prems step_wait.hyps])
next
  case (step_finish w s r t)
  then show ?case by (auto simp: finish_wait_def intro: sock_inv_set_signal split: if_splits)
next
  case (step_event p s e spurious)
  then show ?case
    using sock_inv_set_signal by (simp add: report_event_def split: option.split sock_fn.split prod.split)
next
  case (step_expire i spurious s t)
  from step_expire(1) show ?case
    by (rule expire_wait_Inr) (use step_expire(2) in \<open>auto intro: sock_inv_set_signal sock_inv_timed\<close>)
next
  case (step_close k s t)
  show ?case by (rule sock_inv_close [OF step_close.prems step_close.hyps])
qed

lemma new_sock_world_inv: "sock_inv n (new_sock_world n)"
proof -
  have "part_tasks n [] Map.empty i = Map.empty" for i by (simp add: part_tasks_def fun_eq_iff)
  then show ?thesis
    by (simp add: sock_inv_def new_sock_world_def new_handler_holds all_timers_def pending_def timed_init_def)
qed

lemma sock_reach_inv: "sock_reach clock n s \<Longrightarrow> sock_inv n s"
  unfolding sock_reach_def
  by (induction rule: rtranclp_induct) (auto intro: new_sock_world_inv sock_step_inv)

section \<open>Which wait an event wakes\<close>

lemma event_wakes_current:
  assumes "sock_inv n s" "p < n"
  shows "dispatch e (sw_handlers s ! p) = Some (Wakes w, ev) \<longleftrightarrow>
    (\<exists>fd. sw_armed s fd = Some (Some w) \<and> wc_fd (sw_waits s ! w) = fd \<and> p = part_of n fd \<and>
       fd_tids (sw_handlers s ! p) fd = Some (data_tid (snd e)) \<and>
       ev = from_linux (fst e) \<and> wc_on (sw_waits s ! w) AND ev \<noteq> 0)"
proof -
  have H: "holds_tasks (part_tasks n (sw_waits s) (sw_armed s) p) (sw_registered s) (sw_handlers s ! p)"
    using assms by (simp add: sock_inv_def)
  have "part_tasks n (sw_waits s) (sw_armed s) p fd = Some \<lparr>task_fd = fd, task_on = on, task_fn = Wakes w\<rparr> \<longleftrightarrow>
      p = part_of n fd \<and> sw_armed s fd = Some (Some w) \<and> wc_fd (sw_waits s ! w) = fd \<and> on = wc_on (sw_waits s ! w)" for fd on
    using assms(1) by (auto simp: part_tasks_def task_for_def sock_inv_def split: option.splits)
  then show ?thesis unfolding holds_tasks_dispatch [OF H] by auto
qed

lemma armed_has_tid:
  assumes "sock_inv n s" "sw_armed s fd = Some a" "0 < n"
  shows "\<exists>t. fd_tids (sw_handlers s ! part_of n fd) fd = Some t"
proof -
  have "part_of n fd < n" using assms(3) by (simp add: part_of_def)
  then obtain r where r: "handler_rel (sw_handlers s ! part_of n fd) r"
    "tasks_of r = part_tasks n (sw_waits s) (sw_armed s) (part_of n fd)"
    using assms(1) by (auto simp: sock_inv_def holds_tasks_def)
  have "tasks_of r fd \<noteq> None" using assms(2) r(2) by (simp add: part_tasks_def)
  with r(1) show ?thesis by (auto simp: handler_rel_def tasks_of_def)
qed

text \<open>
  A program with one partition: the socket of descriptor 5, on which one coroutine waits to
  receive and then another to send, both without timeout.
\<close>

definition sock5 :: socket where
  "sock5 = \<lparr>sock_fd = 5, sock_protocol = TCP, sock_family = IPv4\<rparr>"

definition demo_task :: "nat \<Rightarrow> sock_fn etask" where
  "demo_task w = (case w of 0 \<Rightarrow> \<lparr>task_fd = 5, task_on = ev_err OR ev_oneshot, task_fn = Ignored\<rparr>
     | Suc w \<Rightarrow> \<lparr>task_fd = 5, task_on = (if w = 0 then ev_in else ev_out), task_fn = Wakes w\<rparr>)"

text \<open>After so many registrations: the last of them is the one of descriptor 5.\<close>

definition sock_demo :: "nat \<Rightarrow> sock_world" where
  "sock_demo k = \<lparr>sw_handlers = [\<lparr>tid_calls = [of_nat k \<mapsto> demo_task k], fd_tids = [5 \<mapsto> of_nat k], gid = of_nat (Suc k)\<rparr>],
     sw_timed = timed_init 1,
     sw_waits = map (\<lambda>w. \<lparr>wc_fd = 5, wc_on = (if w = 0 then ev_in else ev_out), wc_timeout = 0, wc_signal = new_wait\<rparr>) [0..<k],
     sw_armed = [5 \<mapsto> (if k = 0 then None else Some (k - 1))], sw_registered = Suc k\<rparr>"

lemma sock_demo_open:
  "open_socket (\<lambda>_. []) (5, 0) None (\<lambda>_. True) TCP IPv4 (new_sock_world 1) = Inr (sock5, sock_demo 0)"
  by (simp add: open_socket_def sock_create_def set_sock_opt_def event_add_def at_handler_def handler_add_def
      new_sock_world_def new_handler_def socket_opened_def sock_demo_def demo_task_def sock5_def fd_word_def Let_def)

lemma sock_demo_wait:
  "begin_wait (\<lambda>_. True) int sock5 ev_in 0 (sock_demo 0) = Inr (sock_demo 1)"
  "begin_wait (\<lambda>_. True) int sock5 ev_out 0 (sock_demo 1) = Inr (sock_demo 2)"
  by (simp_all add: begin_wait_def wait_sock_event_def event_mod_def at_handler_def handler_mod_def read_default_def
      sock_demo_def demo_task_def sock5_def fd_word_def Let_def fun_eq_iff numeral_2_eq_2)

lemma sock_demo_reach: "sock_reach int 1 (sock_demo 1)"
proof -
  have "sock_step int (new_sock_world 1) (sock_demo 0)"
    by (rule step_open [OF sock_demo_open]) (simp_all add: new_sock_world_def)
  moreover have "sock_step int (sock_demo 0) (sock_demo 1)"
    by (rule step_wait [OF sock_demo_wait(1)]) (simp_all add: sock_demo_def sock5_def fd_word_def)
  ultimately show ?thesis unfolding sock_reach_def by (meson rtranclp.simps)
qed

text \<open>
  C18: An event wakes the last wait on its socket and no other: in every reachable state a report of the kernel,
  whatever it is, calls a wait's function exactly if the wait is the last one begun on its
  socket since that was opened, the socket is still open, the report comes in the partition of
  the socket and carries the number of its current registration, and is for an event the wait
  asked for; and such a number there is.
\<close>

theorem event_wakes_last_wait:
  assumes "sock_reach clock n s" "p < n"
  shows "(dispatch e (sw_handlers s ! p) = Some (Wakes w, ev) \<longleftrightarrow>
    (\<exists>fd. sw_armed s fd = Some (Some w) \<and> wc_fd (sw_waits s ! w) = fd \<and> p = part_of n fd \<and>
       fd_tids (sw_handlers s ! p) fd = Some (data_tid (snd e)) \<and>
       ev = from_linux (fst e) \<and> wc_on (sw_waits s ! w) AND ev \<noteq> 0)) \<and>
    (sw_armed s fd \<noteq> None \<and> p = part_of n fd \<longrightarrow> fd_tids (sw_handlers s ! p) fd \<noteq> None)"
  using event_wakes_current [OF sock_reach_inv [OF assms(1)] assms(2)]
    armed_has_tid [OF sock_reach_inv [OF assms(1)]] assms(2) by auto

theorem event_wakes_last_wait_witness:
  "dispatch (EPOLLIN, tid_data 1) (sw_handlers (sock_demo 1) ! 0) = Some (Wakes 0, from_linux EPOLLIN)"
proof -
  have "ev_in AND from_linux EPOLLIN \<noteq> 0" by (simp add: from_linux_def add_flag_def event_consts)
  then show ?thesis
    using event_wakes_last_wait [OF sock_demo_reach, of 0 "(EPOLLIN, tid_data 1)" 0 "from_linux EPOLLIN" 5]
    by (simp add: sock_demo_def part_of_def)
qed

text \<open>
  C19: An event that was asked for ends the wait: the last wait on an open socket returns that there was
  an event as soon as the kernel reports one under the number it was registered with, if the
  exchange does not fail spuriously.
\<close>

theorem event_ends_wait:
  assumes "sock_reach clock n s" "0 < n" "sw_armed s fd = Some (Some w)" "wc_signal (sw_waits s ! w) = new_wait"
    and "wc_on (sw_waits s ! w) AND from_linux evs \<noteq> 0"
  shows "\<exists>d t. fd_tids (sw_handlers s ! part_of n fd) fd = Some d \<and>
    finish_wait w (report_event (part_of n fd) (evs, tid_data d) False s) = Some (True, t)"
proof -
  have inv: "sock_inv n s" by (rule sock_reach_inv [OF assms(1)])
  obtain d where d: "fd_tids (sw_handlers s ! part_of n fd) fd = Some d" using armed_has_tid [OF inv assms(3,2)] by blast
  have w: "w < length (sw_waits s)" "wc_fd (sw_waits s ! w) = fd" using inv assms(3) by (auto simp: sock_inv_def)
  have "part_of n fd < n" using assms(2) by (simp add: part_of_def)
  then have "dispatch (evs, tid_data d) (sw_handlers s ! part_of n fd) = Some (Wakes w, from_linux evs)"
    using event_wakes_current [OF inv, of "part_of n fd" "(evs, tid_data d)" w "from_linux evs"] assms(3,5) w d by simp
  with w assms(4) show ?thesis
    by (simp add: d report_event_def finish_wait_def set_signal_def on_event_def try_set_def new_wait_def wait_result_def)
qed

theorem event_ends_wait_witness:
  "\<exists>t. finish_wait 0 (report_event 0 (EPOLLIN, tid_data 1) False (sock_demo 1)) = Some (True, t)"
proof -
  have "ev_in AND from_linux EPOLLIN \<noteq> 0" by (simp add: from_linux_def add_flag_def event_consts)
  then show ?thesis
    using event_ends_wait [OF sock_demo_reach, of 5 0 EPOLLIN] by (auto simp: sock_demo_def part_of_def)
qed

section \<open>Waits that no event reaches\<close>

definition stranded_wait :: "nat \<Rightarrow> sock_world \<Rightarrow> bool" where
  "stranded_wait w s \<longleftrightarrow> w < length (sw_waits s) \<and> sw_armed s (wc_fd (sw_waits s ! w)) \<noteq> Some (Some w) \<and>
     \<not> wc_timeout (sw_waits s ! w) > 0 \<and> wc_signal (sw_waits s ! w) = new_wait"

lemma stranded_set_signal:
  "stranded_wait w s \<Longrightarrow> v \<noteq> w \<Longrightarrow> stranded_wait w (set_signal v f s)"
  by (simp add: stranded_wait_def set_signal_keeps) (simp add: set_signal_def)

lemma stranded_wait_step:
  "sock_step clock s t \<Longrightarrow> sock_inv n s \<Longrightarrow> stranded_wait w s \<Longrightarrow> stranded_wait w t"
proof (induction rule: sock_step.induct)
  case (step_open strerror answer fcntl ok p f s k t)
  then show ?case
    by (auto simp: open_socket_def socket_opened_def stranded_wait_def split: prod.splits sum.splits if_splits)
next
  case (step_accept strerror fcntl ok l rs s k t)
  then show ?case
    by (auto simp: accept_socket_def socket_opened_def stranded_wait_def split: prod.splits sum.splits option.splits if_splits)
next
  case (step_wait ok k on ms s t)
  from step_wait(1) show ?case
    by (rule begin_wait_Inr) (use step_wait in \<open>auto simp: stranded_wait_def nth_append\<close>)
next
  case (step_finish v s r t)
  then have "v \<noteq> w" by (auto simp: finish_wait_def stranded_wait_def wait_result_def new_wait_def split: if_splits)
  with step_finish show ?case by (auto simp: finish_wait_def intro: stranded_set_signal split: if_splits)
next
  case (step_event p s e spurious)
  show ?case
  proof (cases "dispatch e (sw_handlers s ! p)")
    case (Some c)
    obtain g ev where c: "c = (g, ev)" by fastforce
    show ?thesis
    proof (cases g)
      case (Wakes v)
      have "p < n" using step_event by (simp add: sock_inv_def)
      with event_wakes_current [OF step_event(2) this, of e v ev] Some c Wakes step_event(3)
      have "v \<noteq> w" by (auto simp: stranded_wait_def)
      with Some c Wakes step_event(3) show ?thesis by (simp add: report_event_def stranded_set_signal)
    qed (use Some c step_event(3) in \<open>simp add: report_event_def\<close>)
  qed (use step_event(3) in \<open>simp add: report_event_def\<close>)
next
  case (step_expire i spurious s t)
  from step_expire(1) show ?case
  proof (rule expire_wait_Inr)
    fix tm assume "t = s\<lparr>sw_timed := tm\<rparr>"
    with step_expire(3) show ?thesis by (simp add: stranded_wait_def)
  next
    fix tm u assume u: "u \<in># all_timers (sw_timed s)"
      and t: "t = set_signal (timer_fn u) (on_expiry spurious) (s\<lparr>sw_timed := tm\<rparr>)"
    have "timer_fn u \<noteq> w" using step_expire(2,3) u by (auto simp: sock_inv_def stranded_wait_def)
    moreover have "stranded_wait w (s\<lparr>sw_timed := tm\<rparr>)" using step_expire(3) by (simp add: stranded_wait_def)
    ultimately show ?thesis unfolding t by (simp add: stranded_set_signal)
  qed
next
  case (step_close k s t)
  then show ?case
    by (auto simp: close_socket_def stranded_wait_def split: prod.splits sum.splits if_splits)
qed

lemma stranded_wait_steps:
  assumes "(sock_step clock)\<^sup>*\<^sup>* s t" "sock_inv n s" "stranded_wait w s"
  shows "sock_inv n t \<and> stranded_wait w t"
  using assms by (induction rule: rtranclp_induct) (auto intro: sock_step_inv stranded_wait_step)

text \<open>
  C20: A second wait on a socket strands the first, and so does closing the socket: a wait without timeout
  that is undecided when another begins on its socket (to send while the first is to receive, say), or when its socket is
  closed, never returns, whatever the kernel reports and the program does from then on.
\<close>

theorem second_wait_strands_first:
  assumes "sock_reach clock n s" "w < length (sw_waits s)" "wc_fd (sw_waits s ! w) = fd_word k"
    and "wc_signal (sw_waits s ! w) = new_wait" "\<not> wc_timeout (sw_waits s ! w) > 0"
    and "begin_wait ok clock k on ms s = Inr s' \<or> close_socket k s = Inr s'"
    and "sw_armed s (fd_word k) \<noteq> None" "sw_registered s < 2 ^ 32"
    and "(sock_step clock)\<^sup>*\<^sup>* s' t"
  shows "finish_wait w t = None"
proof -
  have s': "sock_step clock s s'" using assms(6-8) step_wait step_close by blast
  have "stranded_wait w s'"
    using assms(6)
  proof
    assume "begin_wait ok clock k on ms s = Inr s'"
    then show ?thesis
      by (rule begin_wait_Inr) (use assms(2-5) in \<open>auto simp: stranded_wait_def nth_append\<close>)
  next
    assume "close_socket k s = Inr s'"
    then show ?thesis using assms(2-5) by (auto simp: close_socket_def stranded_wait_def split: prod.splits sum.splits)
  qed
  with stranded_wait_steps [OF assms(9) sock_step_inv [OF s' sock_reach_inv [OF assms(1)]]] have "stranded_wait w t" by blast
  then show ?thesis by (simp add: finish_wait_def stranded_wait_def wait_result_def new_wait_def)
qed

theorem second_wait_strands_first_witness:
  "begin_wait (\<lambda>_. True) int sock5 ev_out 0 (sock_demo 1) = Inr (sock_demo 2) \<and>
   finish_wait 0 (report_event 0 (EPOLLIN, tid_data 1) False (sock_demo 2)) = None"
proof -
  have "finish_wait 0 (report_event 0 (EPOLLIN, tid_data 1) False (sock_demo 2)) = None"
  proof (rule second_wait_strands_first [OF sock_demo_reach, of 0 sock5 _ ev_out 0 "sock_demo 2"])
    show "(sock_step int)\<^sup>*\<^sup>* (sock_demo 2) (report_event 0 (EPOLLIN, tid_data 1) False (sock_demo 2))"
      by (rule r_into_rtranclp) (rule step_event, simp add: sock_demo_def)
  qed (use sock_demo_wait(2) in \<open>auto simp: sock_demo_def sock5_def fd_word_def\<close>)
  with sock_demo_wait(2) show ?thesis by simp
qed

end
