(* ===== verification/Blocking.thy ===== *)
theory Blocking
  imports Semaphores Scheduling
begin

text \<open>
  A semaphore in a running context: the interleaved operations of \<open>Semaphores\<close> are made by tasks that
  the workers of \<open>Scheduling\<close> run, suspend and resume. It shows that the two models keep one and the same
  blocked queue, and that a free permit is never left while tasks wait and the context is idle.
\<close>

section \<open>Tasks that use a semaphore\<close>

text \<open>
  What happens next: a coroutine is spawned; worker \<open>w\<close> takes a task; the task on worker \<open>w\<close> makes
  an access of the semaphore; its slice ends; the executor of \<open>i\<close> gives up a lock after the
  suspension; another condition is notified.
\<close>

datatype ('e, 'v) joint_action =
    Spawn "(request, 'e, 'v) body"
  | TakeTask nat nat
  | OnSem nat action
  | EndSlice nat
  | GiveUpLock nat
  | NotifyOther nat

text \<open>Both parts of a step must be possible.\<close>

definition both :: "'x + 's \<Rightarrow> 'm option \<Rightarrow> ('s \<times> 'm) option" where
  "both r m = (case (r, m) of (Inr s, Some m') \<Rightarrow> Some (s, m') | _ \<Rightarrow> None)"

text \<open>
  \<open>c\<close> is the condition of the semaphore, \<open>Semaphore::_cond\<close>. A task taken from a run queue that was
  woken from it goes on in \<open>Condition::wait\<close>; \<open>release\<close> calls \<open>notify\<close> at its place; a slice that ends
  waiting on \<open>c\<close> is one in \<open>aquire\<close> that suspends, and one that ends otherwise is outside the operations.
\<close>

definition take_step ::
    "(nat \<Rightarrow> nat) \<Rightarrow> nat \<Rightarrow> nat \<Rightarrow> ('e, 'v) sched \<Rightarrow> sem \<Rightarrow> (('e, 'v) sched \<times> sem) option" where
  "take_step ctx_of w i s m =
     (if running s w \<noteq> None then None
      else case take_task w i s of
          Inr (True, t) \<Rightarrow>
            (case running t w of
               Some j \<Rightarrow> if pcs m j = Runnable then map_option (Pair t) (move ctx_of j Go m) else Some (t, m)
             | None \<Rightarrow> None)
        | _ \<Rightarrow> None)"

definition sem_step ::
    "(nat \<Rightarrow> nat) \<Rightarrow> nat \<Rightarrow> nat \<Rightarrow> action \<Rightarrow> ('e, 'v) sched \<Rightarrow> sem \<Rightarrow> (('e, 'v) sched \<times> sem) option" where
  "sem_step ctx_of c w a s m =
     (case running s w of
        None \<Rightarrow> None
      | Some i \<Rightarrow>
          if pcs m i = Suspending then None
          else if pcs m i = RelNotify then both (notify c s) (move ctx_of i a m)
          else map_option (Pair s) (move ctx_of i a m))"

definition end_step ::
    "(nat \<Rightarrow> nat) \<Rightarrow> nat \<Rightarrow> nat \<Rightarrow> ('e, 'v) sched \<Rightarrow> sem \<Rightarrow> (('e, 'v) sched \<times> sem) option" where
  "end_step ctx_of c w s m =
     (case running s w of
        None \<Rightarrow> None
      | Some i \<Rightarrow>
          (case pool s i of
             None \<Rightarrow> None
           | Some t \<Rightarrow>
               if (case slice (fn t) of Waits c' _ \<Rightarrow> c' = c | _ \<Rightarrow> False)
               then if pcs m i = Suspending then both (end_task w s) (move ctx_of i Go m) else None
               else if pcs m i = Outside then both (end_task w s) (Some m) else None))"

definition unlock_step :: "(nat \<Rightarrow> nat) \<Rightarrow> nat \<Rightarrow> sem \<Rightarrow> sem option" where
  "unlock_step ctx_of i m = (if pcs m i \<in> {SuspUnlockCond, SuspUnlockSem} then move ctx_of i Go m else None)"

definition joint_step ::
    "(nat \<Rightarrow> nat) \<Rightarrow> nat \<Rightarrow> ('e, 'v) joint_action \<Rightarrow> ('e, 'v) sched \<times> sem \<Rightarrow> (('e, 'v) sched \<times> sem) option" where
  "joint_step ctx_of c x sm =
     (let s = fst sm; m = snd sm
      in case x of
           Spawn b \<Rightarrow> both (create_scheduled b s) (Some m)
         | TakeTask w i \<Rightarrow> take_step ctx_of w i s m
         | OnSem w a \<Rightarrow> sem_step ctx_of c w a s m
         | EndSlice w \<Rightarrow> end_step ctx_of c w s m
         | GiveUpLock i \<Rightarrow> map_option (Pair s) (unlock_step ctx_of i m)
         | NotifyOther c' \<Rightarrow> if c' = c then None else both (notify c' s) (Some m))"

fun joint_run ::
    "(nat \<Rightarrow> nat) \<Rightarrow> nat \<Rightarrow> ('e, 'v) joint_action list \<Rightarrow> ('e, 'v) sched \<times> sem \<Rightarrow> (('e, 'v) sched \<times> sem) option" where
  "joint_run ctx_of c [] sm = Some sm"
| "joint_run ctx_of c (x # xs) sm =
     (case joint_step ctx_of c x sm of None \<Rightarrow> None | Some sm' \<Rightarrow> joint_run ctx_of c xs sm')"

section \<open>The two queues are one\<close>

definition active :: "pc \<Rightarrow> bool" where
  "active p \<longleftrightarrow> p \<noteq> Outside \<and> p \<noteq> Runnable \<and> \<not> in_queue p"

definition agree :: "nat \<Rightarrow> ('e, 'v) sched \<Rightarrow> sem \<Rightarrow> bool" where
  "agree c s m \<longleftrightarrow> blocked m = waitq s c \<and>
     (\<forall>i. pcs m i = Runnable \<longrightarrow> (\<exists>p. i \<in> set (runq s p))) \<and>
     (\<forall>i. active (pcs m i) \<longrightarrow> (\<exists>w. running s w = Some i))"

definition joint_ok :: "(nat \<Rightarrow> nat) \<Rightarrow> nat \<Rightarrow> nat \<Rightarrow> ('e, 'v) sched \<Rightarrow> sem \<Rightarrow> bool" where
  "joint_ok ctx_of k c s m \<longleftrightarrow> placed s \<and> sem_reach ctx_of k m \<and> agree c s m"

lemma both_Some: "both r x = Some (t, m') \<longleftrightarrow> r = Inr t \<and> x = Some m'"
  by (auto simp: both_def split: sum.splits option.splits)

text \<open>Where the point of a task puts it.\<close>

lemma point_place:
  assumes "joint_ok ctx_of k c s m"
  shows "pcs m i = Outside \<or> (pcs m i = Runnable \<and> (\<exists>p. at_place s (InRunq p) i)) \<or>
    (in_queue (pcs m i) \<and> at_place s (InWaitq c) i) \<or> (active (pcs m i) \<and> (\<exists>w. at_place s (OnWorker w) i))"
  using assms sem_reach_inv [of ctx_of k m]
  by (auto simp: joint_ok_def agree_def active_def queue_inv_def)

text \<open>A move that is not a notification changes the point of its own task only.\<close>

lemma move_alone:
  assumes "move ctx_of i a m = Some m'" "pcs m i \<noteq> RelNotify"
  shows "pcs m' = (pcs m)(i := pcs m' i)"
    and "blocked m' = (if pcs m i = Suspending then blocked m @ [i] else blocked m)"
    and "pcs m' i \<noteq> Runnable"
  using assms by (cases a; cases "pcs m i"; auto simp: step_defs effect_simps split: if_splits)+

lemma move_points:
  assumes "move ctx_of i a m = Some m'"
  shows "active (pcs m i) \<or> pcs m i = Outside \<Longrightarrow> pcs m i \<noteq> Suspending \<Longrightarrow> active (pcs m' i) \<or> pcs m' i = Outside"
    and "pcs m i = Suspending \<or> in_queue (pcs m i) \<Longrightarrow> in_queue (pcs m' i)"
    and "pcs m i = Runnable \<Longrightarrow> active (pcs m' i)"
  using assms by (cases a; cases "pcs m i"; auto simp: step_defs effect_simps active_def in_queue_def
      schedule_from_this_def split: if_splits list.splits)+

lemma agree_spawn:
  assumes "joint_ok ctx_of k c s m" "create_scheduled b s = Inr t"
  shows "agree c t m"
  using assms
  by (auto simp: joint_ok_def agree_def create_scheduled_unfold and_then_Inr push_task_Inr allocator_create_def)
    metis+

lemma agree_take:
  assumes "joint_ok ctx_of k c s m" "take_step ctx_of w i s m = Some (t, m')"
  shows "agree c t m' \<and> placed t \<and> sem_reach ctx_of k m'"
proof -
  obtain j where idle: "running s w = None" and tk: "take_task w i s = Inr (True, t)" and j: "running t w = Some j"
    and m': "if pcs m j = Runnable then move ctx_of j Go m = Some m' else m' = m"
    using assms(2) by (auto simp: take_step_def split: if_splits sum.splits prod.splits bool.splits option.splits)
  from tk show ?thesis
  proof (cases rule: take_task_Inr)
    case (hit j' q)
    then have j': "j' = j" using j by simp
    have at: "at_place s (InRunq (i mod n_partition s)) j" using hit j' by simp
    have pl: "placed s" using assms(1) by (simp add: joint_ok_def)
    have pj: "pcs m j = Outside \<or> pcs m j = Runnable"
      using point_place [OF assms(1), of j] placed_unique [OF pl at] by blast
    have pt: "placed t" by (rule placed_take [OF pl idle tk])
    have reach: "sem_reach ctx_of k m'"
      using assms(1) m' by (auto simp: joint_ok_def intro: sem_move split: if_splits)
    have m'j: "pcs m' j \<noteq> Runnable" "blocked m' = blocked m" "\<And>h. h \<noteq> j \<Longrightarrow> pcs m' h = pcs m h"
      using m' move_alone [of ctx_of j Go m m'] by (auto split: if_splits) (metis fun_upd_apply)
    have "blocked m' = waitq t c" using assms(1) m'j(2) by (simp add: joint_ok_def agree_def hit(4))
    moreover have "\<exists>p. h \<in> set (runq t p)" if r: "pcs m' h = Runnable" for h
    proof -
      have h: "h \<noteq> j" using r m'j(1) by auto
      then obtain p where "h \<in> set (runq s p)" using assms(1) r m'j(3) [of h] by (auto simp: joint_ok_def agree_def)
      then have "h \<in> set (runq t p)" using h hit j' by auto
      then show ?thesis ..
    qed
    moreover have "\<exists>w. running t w = Some h" if r: "active (pcs m' h)" for h
    proof (cases "h = j")
      case False
      then obtain w' where "running s w' = Some h" using assms(1) r m'j(3) [of h] by (auto simp: joint_ok_def agree_def)
      then have "running t w' = Some h" using idle hit(4) by auto
      then show ?thesis ..
    qed (use j in auto)
    ultimately show ?thesis using pt reach by (simp add: agree_def)
  qed simp
qed

lemma agree_notify:
  assumes "joint_ok ctx_of k c s m" "running s w = Some i" "pcs m i = RelNotify"
    and "notify c s = Inr t" "move ctx_of i a m = Some m'"
  shows "agree c t m'"
proof -
  have a: "a = Go" "m' = goto i RelUnlockCond (schedule_from_this ctx_of m)"
    using assms(3,5) by (auto simp: step_defs split: action.splits if_splits)
  have ok: "blocked m = waitq s c" "\<And>h. pcs m h = Runnable \<Longrightarrow> \<exists>p. h \<in> set (runq s p)"
    "\<And>h. active (pcs m h) \<Longrightarrow> \<exists>w. running s w = Some h"
    using assms(1) by (auto simp: joint_ok_def agree_def)
  show ?thesis
  proof (cases "waitq s c")
    case Nil
    then have "t = s" "pcs m' = (pcs m)(i := RelUnlockCond)" "blocked m' = []"
      using assms(4) a(2) ok(1) by (auto simp: notify_def schedule_from_this_def effect_simps)
    with ok assms(2) Nil show ?thesis by (auto simp: agree_def)
  next
    case (Cons j q)
    have t: "runq t = (runq s)(j mod n_partition s := runq s (j mod n_partition s) @ [j])" "running t = running s"
      "waitq t c = q"
      using assms(4) Cons by (auto simp: notify_def push_task_Inr)
    have m': "pcs m' = (pcs m)(j := Runnable, i := RelUnlockCond)" "blocked m' = q"
      using a(2) ok(1) Cons by (auto simp: schedule_from_this_def effect_simps)
    have "\<exists>p. h \<in> set (runq t p)" if r: "pcs m' h = Runnable" for h
    proof (cases "h = j")
      case True
      then have "h \<in> set (runq t (j mod n_partition s))" by (simp add: t)
      then show ?thesis ..
    next
      case False
      with r m'(1) ok(2) [of h] obtain p where "h \<in> set (runq s p)" by (auto split: if_splits)
      then have "h \<in> set (runq t p)" by (auto simp: t)
      then show ?thesis ..
    qed
    moreover have "\<exists>w. running t w = Some h" if r: "active (pcs m' h)" for h
      using r m'(1) ok(3) [of h] assms(2) t(2) by (cases "h = i") (auto simp: active_def split: if_splits)
    ultimately show ?thesis using m'(2) t(3) by (simp add: agree_def)
  qed
qed

lemma agree_move:
  assumes "joint_ok ctx_of k c s m" "pcs m i \<noteq> RelNotify" "pcs m i \<noteq> Suspending" "move ctx_of i a m = Some m'"
    and "running s w = Some i \<or> in_queue (pcs m i)"
  shows "agree c s m'"
proof -
  note alone = move_alone [OF assms(4,2)]
  have "active (pcs m' i) \<Longrightarrow> \<exists>w. running s w = Some i"
    using assms(5) move_points(2) [OF assms(4)] by (auto simp: active_def)
  moreover have "pcs m' h = pcs m h" if "h \<noteq> i" for h using alone(1) that by (metis fun_upd_apply)
  ultimately show ?thesis using assms(1,3) alone(2,3) unfolding joint_ok_def agree_def by metis
qed

lemma agree_end:
  assumes "joint_ok ctx_of k c s m" "end_step ctx_of c w s m = Some (t, m')"
  shows "agree c t m' \<and> placed t \<and> sem_reach ctx_of k m'"
proof -
  have ok: "blocked m = waitq s c" "\<And>h. pcs m h = Runnable \<Longrightarrow> \<exists>p. h \<in> set (runq s p)"
    "\<And>h. active (pcs m h) \<Longrightarrow> \<exists>w. running s w = Some h" "placed s" "sem_reach ctx_of k m"
    using assms(1) by (auto simp: joint_ok_def agree_def)
  obtain i u where i: "running s w = Some i" "pool s i = Some u" "end_task w s = Inr t"
    and c: "(case slice (fn u) of Waits c' _ \<Rightarrow> c' = c | _ \<Rightarrow> False) \<and> pcs m i = Suspending \<and> move ctx_of i Go m = Some m' \<or>
      \<not> (case slice (fn u) of Waits c' _ \<Rightarrow> c' = c | _ \<Rightarrow> False) \<and> pcs m i = Outside \<and> m' = m"
    using assms(2) by (auto simp: end_step_def both_Some split: option.splits if_splits)
  have pt: "placed t" by (rule placed_end [OF ok(4) i(3)])
  have keep: "h \<in> set (runq s p) \<Longrightarrow> h \<in> set (runq t p)" "running t = (running s)(w := None)" for h p
    using i(3) by (cases rule: end_task_Inr; auto)+
  have run: "\<exists>w. running t w = Some h" if r: "active (pcs m h)" "h \<noteq> i" for h
  proof -
    obtain w' where "running s w' = Some h" using ok(3) r by blast
    with i(1) r(2) keep(2) have "running t w' = Some h" by auto
    then show ?thesis ..
  qed
  show ?thesis
  proof (cases "pcs m i = Suspending")
    case True
    then obtain b where b: "slice (fn u) = Waits c b" and mv: "move ctx_of i Go m = Some m'"
      using c by (auto split: slice_end.splits)
    have t: "waitq t c = waitq s c @ [i]"
      using i(3) by (cases rule: end_task_Inr) (use i(1,2) b in auto)
    note alone = move_alone [OF mv, unfolded True, simplified]
    have h: "pcs m' h = pcs m h" if "h \<noteq> i" for h using alone(1) that by (metis fun_upd_apply)
    have "in_queue (pcs m' i)" using move_points(2) [OF mv] True by blast
    then have "agree c t m'"
      using alone(2,3) h run ok(1,2) keep(1) t unfolding agree_def active_def by metis
    moreover have "sem_reach ctx_of k m'" by (rule sem_move [OF ok(5) mv])
    ultimately show ?thesis using pt by blast
  next
    case False
    then have m: "m' = m" "pcs m i = Outside" and sl: "\<And>b. slice (fn u) \<noteq> Waits c b" using c by auto
    have "waitq t c = waitq s c"
      using i(3) by (cases rule: end_task_Inr) (use i(1,2) sl in auto)
    then have "agree c t m'" using m run ok(1,2) keep(1) unfolding agree_def active_def by metis
    with pt ok(5) m(1) show ?thesis by simp
  qed
qed

lemma agree_other:
  assumes "joint_ok ctx_of k c s m" "notify c' s = Inr t" "c' \<noteq> c"
  shows "agree c t m"
proof -
  have "waitq t c = waitq s c" "running t = running s" "\<And>h p. h \<in> set (runq s p) \<Longrightarrow> h \<in> set (runq t p)"
    using assms(2,3) by (auto simp: notify_def push_task_Inr split: list.splits)
  with assms(1) show ?thesis unfolding joint_ok_def agree_def by metis
qed

lemma joint_step_ok:
  assumes "joint_step ctx_of c x (s, m) = Some (t, m')" "joint_ok ctx_of k c s m"
  shows "joint_ok ctx_of k c t m'"
proof -
  have pl: "placed s" and re: "sem_reach ctx_of k m" using assms(2) by (auto simp: joint_ok_def)
  show ?thesis
  proof (cases x)
    case (Spawn b)
    then have "create_scheduled b s = Inr t" "m' = m" using assms(1) by (auto simp: joint_step_def both_Some)
    with agree_spawn [OF assms(2)] placed_create [OF pl] re show ?thesis by (simp add: joint_ok_def)
  next
    case (TakeTask w i)
    then have "take_step ctx_of w i s m = Some (t, m')" using assms(1) by (simp add: joint_step_def)
    from agree_take [OF assms(2) this] show ?thesis by (simp add: joint_ok_def)
  next
    case (OnSem w a)
    then obtain i where i: "running s w = Some i" "pcs m i \<noteq> Suspending" "move ctx_of i a m = Some m'"
      "if pcs m i = RelNotify then notify c s = Inr t else t = s"
      using assms(1) by (auto simp: joint_step_def sem_step_def both_Some split: option.splits if_splits)
    have "agree c t m' \<and> placed t"
    proof (cases "pcs m i = RelNotify")
      case True
      with agree_notify [OF assms(2) i(1) True _ i(3)] placed_notify [OF pl] i(4) show ?thesis by simp
    next
      case False
      with agree_move [OF assms(2) False i(2,3)] i(1,4) pl show ?thesis by auto
    qed
    with sem_move [OF re i(3)] show ?thesis by (simp add: joint_ok_def)
  next
    case (EndSlice w)
    then have "end_step ctx_of c w s m = Some (t, m')" using assms(1) by (simp add: joint_step_def)
    from agree_end [OF assms(2) this] show ?thesis by (simp add: joint_ok_def)
  next
    case (GiveUpLock i)
    then have i: "pcs m i \<in> {SuspUnlockCond, SuspUnlockSem}" "move ctx_of i Go m = Some m'" "t = s"
      using assms(1) by (auto simp: joint_step_def unlock_step_def split: if_splits)
    have "agree c s m'"
      by (rule agree_move [OF assms(2) _ _ i(2)]) (use i(1) in \<open>auto simp: in_queue_def\<close>)
    with pl sem_move [OF re i(2)] i(3) show ?thesis by (simp add: joint_ok_def)
  next
    case (NotifyOther c')
    then have "notify c' s = Inr t" "c' \<noteq> c" "m' = m"
      using assms(1) by (auto simp: joint_step_def both_Some split: if_splits)
    with agree_other [OF assms(2)] placed_notify [OF pl] re show ?thesis by (simp add: joint_ok_def)
  qed
qed

lemma joint_run_ok: "joint_run ctx_of c xs (s, m) = Some (t, m') \<Longrightarrow> joint_ok ctx_of k c s m \<Longrightarrow> joint_ok ctx_of k c t m'"
proof (induction xs arbitrary: s m)
  case (Cons x xs)
  then obtain s1 m1 where s1: "joint_step ctx_of c x (s, m) = Some (s1, m1)" "joint_run ctx_of c xs (s1, m1) = Some (t, m')"
    by (auto split: option.splits)
  show ?case by (rule Cons.IH [OF s1(2) joint_step_ok [OF s1(1) Cons.prems(2)]])
qed simp

lemma joint_start: "joint_ok ctx_of k c (sched_init n :: ('e, 'v) sched) (new_sem k)"
  by (simp add: joint_ok_def placed_init sem_start) (simp add: agree_def new_sem_def active_def sched_init_def)

text \<open>A free permit and a waiter: some task will retry, and the scheduler has it.\<close>

lemma retry_is_scheduled:
  assumes "joint_ok ctx_of k c s m" "waitq s c \<noteq> []" "vacant m > 0"
  shows "\<exists>i. will_retry (pcs m i) \<and> (i \<in> set (runq s (i mod n_partition s)) \<or> (\<exists>w. running s w = Some i))"
proof -
  have q: "blocked m = waitq s c" using assms(1) by (simp add: joint_ok_def agree_def)
  have "permits_inv k m" using assms(1) sem_reach_inv [of ctx_of k m] by (simp add: joint_ok_def)
  then have "number will_retry (pcs m) \<noteq> 0" using assms(2,3) q by (simp add: permits_inv_def)
  then have "{i. will_retry (pcs m i)} \<noteq> {}" by (metis card.empty number_def)
  then obtain i where i: "will_retry (pcs m i)" by blast
  have "(\<exists>p. at_place s (InRunq p) i) \<or> (\<exists>w. at_place s (OnWorker w) i)"
    using point_place [OF assms(1), of i] i by (auto simp: will_retry_def in_queue_def)
  moreover have "at_place s (InRunq p) i \<Longrightarrow> p = i mod n_partition s" for p
    using assms(1) by (auto simp: joint_ok_def placed_def)
  ultimately show ?thesis using i by auto
qed

text \<open>
  C6: Waiting on a semaphore is never in vain, across the semaphore and the scheduler: however spawned
  tasks, workers, accesses and notifications interleave, the tasks blocked on the semaphore are
  exactly those in the scheduler's queue of its condition; and if a permit is free while some are,
  then a task that will test \<open>_vacant\<close> again, or will yet notify, is in the run queue of its
  partition, from which a worker takes it, or runs on a worker.
\<close>

theorem permit_never_idle:
  fixes s :: "('e, 'v) sched"
  assumes "joint_run ctx_of c xs (sched_init n, new_sem k) = Some (s, m)"
  shows "blocked m = waitq s c \<and>
    (waitq s c \<noteq> [] \<and> vacant m > 0 \<longrightarrow>
      (\<exists>i. will_retry (pcs m i) \<and> (i \<in> set (runq s (i mod n_partition s)) \<or> (\<exists>w. running s w = Some i))))"
  using joint_run_ok [OF assms joint_start] retry_is_scheduled [OF joint_run_ok [OF assms joint_start]]
  by (auto simp: joint_ok_def agree_def)

text \<open>
  Task 0 blocks on a semaphore without permits, task 1 has incremented \<open>_vacant\<close> and is about to
  notify.
\<close>

definition blocking_demo :: "(nat, int) joint_action list" where
  "blocking_demo = [Spawn (Leaf (Wait 5) (Return 3)), Spawn (Return 4), TakeTask 0 0, OnSem 0 Aquire] @
     replicate 3 (OnSem 0 Go) @ [EndSlice 0, GiveUpLock 0, GiveUpLock 0, TakeTask 1 1, OnSem 1 Release, OnSem 1 Go, OnSem 1 Go]"

theorem permit_never_idle_witness:
  "\<exists>s m. joint_run (\<lambda>_. 0) 5 blocking_demo (sched_init 2, new_sem 0) = Some (s, m) \<and> waitq s 5 = [0] \<and> vacant m = 1 \<and>
     (\<exists>i. will_retry (pcs m i) \<and> (i \<in> set (runq s (i mod n_partition s)) \<or> (\<exists>w. running s w = Some i)))"
proof -
  have "\<exists>s m. joint_run (\<lambda>_. 0) 5 blocking_demo (sched_init 2, new_sem 0) = Some (s, m) \<and> waitq s 5 = [0] \<and> vacant m = 1"
    by (simp add: blocking_demo_def numeral_eq_Suc joint_step_def both_def create_scheduled_unfold and_then_def slot_def sched_init_def
        push_task_def allocator_create_def take_step_def take_task_def pop_task_def sem_step_def end_step_def end_task_def
        unlock_step_def slice.simps run_defs Let_def)
  then obtain s m where s: "joint_run (\<lambda>_. 0) 5 blocking_demo (sched_init 2, new_sem 0) = Some (s, m)"
    "waitq s 5 = [0]" "vacant m = 1" by blast
  with permit_never_idle [OF s(1)] show ?thesis by auto
qed

text \<open>An idle context, with no task queued or on a worker, has no waiter while a permit is free.\<close>

corollary idle_context_has_no_waiter:
  fixes s :: "('e, 'v) sched"
  assumes "joint_run ctx_of c xs (sched_init n, new_sem k) = Some (s, m)"
    and "\<And>p. runq s p = []" "\<And>w. running s w = None"
  shows "waitq s c = [] \<or> vacant m = 0"
  using retry_is_scheduled [OF joint_run_ok [OF assms(1) joint_start]] assms(2,3) by fastforce

end
