(* ===== verification/ChannelLinks.thy ===== *)
theory ChannelLinks
  imports ChannelFrames LinkedFamilies
begin

text \<open>
  The channel operations on the pointers of \<open>BaseLinked\<close>: the loops of \<open>BaseChannel\<close> test
  \<open>head.back() != &tail\<close> and unlink behind the head, messages are linked in front of the tail, and
  \<open>drop\<close> unlinks a message wherever it is. They do what the list operations of \<open>Channels\<close> do.
\<close>

section \<open>The operations on pointers\<close>

text \<open>The two sides of a channel, and its four sentinels and the messages as nodes.\<close>

datatype side = Senders nat | Recvers nat

datatype chan_node = SideHead side | SideTail side | MsgNode nat

interpretation chan_queues: queue_family SideHead SideTail MsgNode
  by unfold_locales auto

text \<open>
  The world holds the queues as lists too; the pointer operations write them along, as a record of
  what they did, and never read them.
\<close>

definition queue_of :: "'d world \<Rightarrow> side \<Rightarrow> nat list" where
  "queue_of w p = (case p of Senders c \<Rightarrow> senders (chans w c) | Recvers c \<Rightarrow> recvers (chans w c))"

definition set_queue :: "side \<Rightarrow> nat list \<Rightarrow> 'd world \<Rightarrow> 'd world" where
  "set_queue p q w = (case p of Senders c \<Rightarrow> set_senders c q w | Recvers c \<Rightarrow> set_recvers c q w)"

definition base_channel :: "nat \<Rightarrow> chan_node links \<Rightarrow> chan_node links" where
  "base_channel c h =
     link_back (SideHead (Recvers c)) (SideTail (Recvers c)) (link_back (SideHead (Senders c)) (SideTail (Senders c)) h)"

definition link_msg :: "side \<Rightarrow> nat \<Rightarrow> 'd world \<times> chan_node links \<Rightarrow> 'd world \<times> chan_node links" where
  "link_msg p m st = (set_queue p (queue_of (fst st) p @ [m]) (fst st), link_front (SideTail p) (MsgNode m) (snd st))"

text \<open>\<open>None\<close> where the code would use a null pointer or a sentinel as a message.\<close>

definition first_msg :: "side \<Rightarrow> chan_node links \<Rightarrow> nat option" where
  "first_msg p h = (case back_of (SideHead p) h of Some (MsgNode m) \<Rightarrow> Some m | _ \<Rightarrow> None)"

definition unlink_first :: "side \<Rightarrow> 'd world \<times> chan_node links \<Rightarrow> (nat \<times> 'd world \<times> chan_node links) option" where
  "unlink_first p st =
     (case unlink_back (SideHead p) (snd st) of
        (Some (MsgNode m), h) \<Rightarrow> Some (m, set_queue p (remove1 m (queue_of (fst st) p)) (fst st), h)
      | _ \<Rightarrow> None)"

definition no_more :: "side \<Rightarrow> chan_node links \<Rightarrow> bool" where
  "no_more p h \<longleftrightarrow> back_of (SideHead p) h = Some (SideTail p)"

text \<open>The loop after a transfer with the buffer, for both directions.\<close>

partial_function (option) buffer_loop ::
    "(nat \<Rightarrow> 'd world \<Rightarrow> bool \<times> 'd world) \<Rightarrow> side \<Rightarrow> 'd world \<times> chan_node links \<Rightarrow> ('d world \<times> chan_node links) option" where
  "buffer_loop f p st =
     (if no_more p (snd st) then Some st
      else case unlink_first p st of
          None \<Rightarrow> None
        | Some (m, w, h) \<Rightarrow> (case f m w of (ok, w') \<Rightarrow> if ok then Some (w', h) else buffer_loop f p (w', h)))"

text \<open>
  The loop over the waiting messages: \<open>f\<close> tries to transfer with the first one, \<open>dead\<close> is the status of a
  message that is not wanted any more, and \<open>refused\<close> the one the operation ends with otherwise.
\<close>

partial_function (option) waiting_loop ::
    "(nat \<Rightarrow> 'd world \<Rightarrow> (string + transfer) \<times> 'd world) \<Rightarrow> transfer \<Rightarrow> chan_status \<Rightarrow> side \<Rightarrow>
      'd world \<times> chan_node links \<Rightarrow> ((string + chan_status option) \<times> 'd world \<times> chan_node links) option" where
  "waiting_loop f dead refused p st =
     (if no_more p (snd st) then Some (Inr None, st)
      else case first_msg p (snd st) of
          None \<Rightarrow> None
        | Some m \<Rightarrow>
            (case f m (fst st) of
               (Inl e, w) \<Rightarrow> Some (Inl e, w, snd st)
             | (Inr r, w) \<Rightarrow>
                 if r = Ok then map_option (\<lambda>(_, st'). (Inr (Some CReady), st')) (unlink_first p (w, snd st))
                 else if r = dead then
                   (case unlink_first p (w, snd st) of None \<Rightarrow> None | Some (_, st') \<Rightarrow> waiting_loop f dead refused p st')
                 else Some (Inr (Some refused), w, snd st)))"

definition send_to_links ::
    "nat \<Rightarrow> nat \<Rightarrow> bool \<Rightarrow> ('d :: zero) world \<times> chan_node links \<Rightarrow> ((string + chan_status) \<times> 'd world \<times> chan_node links) option" where
  "send_to_links c dst oneshot st =
     (let w = (fst st)\<lparr>msg_chan := (msg_chan (fst st))(dst := Some c)\<rparr>
      in case buffer_send_to c dst w of
           (True, w1) \<Rightarrow> map_option (Pair (Inr CReady)) (buffer_loop (buffer_recv_from c) (Senders c) (w1, snd st))
         | (False, w1) \<Rightarrow>
             map_option (\<lambda>(r, st'). case r of
                 Inl e \<Rightarrow> (Inl e, st')
               | Inr (Some x) \<Rightarrow> (Inr x, st')
               | Inr None \<Rightarrow> if oneshot then (Inr CInvalidOneshot, st') else (Inr CInprocess, link_msg (Recvers c) dst st'))
               (waiting_loop (\<lambda>m. send_to_msg m dst) InvalidSrc CInvalidDst (Senders c) (w1, snd st)))"

definition recv_from_links ::
    "nat \<Rightarrow> nat \<Rightarrow> bool \<Rightarrow> ('d :: zero) world \<times> chan_node links \<Rightarrow> ((string + chan_status) \<times> 'd world \<times> chan_node links) option" where
  "recv_from_links c src oneshot st =
     (let w = (fst st)\<lparr>msg_chan := (msg_chan (fst st))(src := Some c)\<rparr>
      in case buffer_recv_from c src w of
           (True, w1) \<Rightarrow> map_option (Pair (Inr CReady)) (buffer_loop (buffer_send_to c) (Recvers c) (w1, snd st))
         | (False, w1) \<Rightarrow>
             map_option (\<lambda>(r, st'). case r of
                 Inl e \<Rightarrow> (Inl e, st')
               | Inr (Some x) \<Rightarrow> (Inr x, st')
               | Inr None \<Rightarrow> if oneshot then (Inr CInvalidOneshot, st') else (Inr CInprocess, link_msg (Senders c) src st'))
               (waiting_loop (\<lambda>m. send_to_msg src m) InvalidDst CInvalidSrc (Recvers c) (w1, snd st)))"

definition drop_links :: "nat \<Rightarrow> 'd world \<times> chan_node links \<Rightarrow> ('d world \<times> chan_node links) option" where
  "drop_links m st = map_option (\<lambda>w. (w, snd (unlink_this (MsgNode m) (snd st)))) (drop_msg m (fst st))"

section \<open>Lists and pointers\<close>

definition chan_rep :: "side set \<Rightarrow> 'd world \<Rightarrow> chan_node links \<Rightarrow> bool" where
  "chan_rep I w h \<longleftrightarrow> family_rep SideHead SideTail MsgNode I h (queue_of w) \<and> family_closed MsgNode I h (queue_of w)"

text \<open>The list loops of \<open>Channels\<close> in the same common form.\<close>

fun buffer_list :: "(nat \<Rightarrow> 'd world \<Rightarrow> bool \<times> 'd world) \<Rightarrow> side \<Rightarrow> nat list \<Rightarrow> 'd world \<Rightarrow> 'd world" where
  "buffer_list f p [] w = w"
| "buffer_list f p (m # q) w = (case f m (set_queue p q w) of (ok, w') \<Rightarrow> if ok then w' else buffer_list f p q w')"

fun waiting_list ::
    "(nat \<Rightarrow> 'd world \<Rightarrow> (string + transfer) \<times> 'd world) \<Rightarrow> transfer \<Rightarrow> chan_status \<Rightarrow> side \<Rightarrow> nat list \<Rightarrow> 'd world \<Rightarrow>
      (string + chan_status option) \<times> 'd world" where
  "waiting_list f dead refused p [] w = (Inr None, w)"
| "waiting_list f dead refused p (m # q) w =
     (case f m w of
        (Inl e, w1) \<Rightarrow> (Inl e, w1)
      | (Inr r, w1) \<Rightarrow>
          if r = Ok then (Inr (Some CReady), set_queue p q w1)
          else if r = dead then waiting_list f dead refused p q (set_queue p q w1)
          else (Inr (Some refused), w1))"

lemma refill_is_buffer_list: "refill_buffer c q w = buffer_list (buffer_recv_from c) (Senders c) q w"
  by (induction q arbitrary: w) (simp_all add: set_queue_def Let_def split: prod.split)

lemma drain_is_buffer_list: "drain_buffer c q w = buffer_list (buffer_send_to c) (Recvers c) q w"
  by (induction q arbitrary: w) (simp_all add: set_queue_def Let_def split: prod.split)

lemma take_is_waiting_list:
  "take_from_senders c dst q w = waiting_list (\<lambda>m. send_to_msg m dst) InvalidSrc CInvalidDst (Senders c) q w"
  by (induction q arbitrary: w) (simp_all add: set_queue_def split: prod.split sum.split transfer.split)

lemma give_is_waiting_list:
  "give_to_recvers c src q w = waiting_list (\<lambda>m. send_to_msg src m) InvalidDst CInvalidSrc (Recvers c) q w"
  by (induction q arbitrary: w) (simp_all add: set_queue_def split: prod.split sum.split transfer.split)

lemma queue_of_set_queue: "queue_of (set_queue p q w) = (queue_of w)(p := q)"
  by (auto simp: queue_of_def set_queue_def set_senders_def set_recvers_def fun_eq_iff split: side.split)

definition keeps_queues :: "('d world \<Rightarrow> 'r \<times> 'd world) \<Rightarrow> bool" where
  "keeps_queues f \<longleftrightarrow> (\<forall>w. queue_of (snd (f w)) = queue_of w)"

lemma transfers_keep_queues:
  "keeps_queues (buffer_recv_from c m)" "keeps_queues (buffer_send_to c m)" "keeps_queues (send_to_msg a b)"
  by (auto simp: keeps_queues_def queue_of_def fun_eq_iff split: side.split)

lemma keeps_queuesD: "keeps_queues f \<Longrightarrow> f w = (r, w') \<Longrightarrow> queue_of w' = queue_of w"
  unfolding keeps_queues_def by (metis snd_conv)

lemma chan_rep_cong: "queue_of w' = queue_of w \<Longrightarrow> chan_rep I w' h = chan_rep I w h"
  by (simp add: chan_rep_def)

lemma no_more_iff: "chan_rep I w h \<Longrightarrow> p \<in> I \<Longrightarrow> no_more p h \<longleftrightarrow> queue_of w p = []"
  using chan_queues.family_first(1) [of I h "queue_of w" p] by (auto simp: no_more_def chan_rep_def split: list.split)

lemma first_msg_hd: "chan_rep I w h \<Longrightarrow> p \<in> I \<Longrightarrow> queue_of w p = m # q \<Longrightarrow> first_msg p h = Some m"
  using chan_queues.family_first(1) [of I h "queue_of w" p] by (auto simp: first_msg_def chan_rep_def)

lemma unlink_first_hd:
  assumes "chan_rep I w h" "p \<in> I" "queue_of w p = m # q"
  shows "\<exists>h'. unlink_first p (w, h) = Some (m, set_queue p q w, h') \<and> chan_rep I (set_queue p q w) h'"
proof -
  let ?h = "snd (unlink_this (MsgNode m) h)"
  have rep: "family_rep SideHead SideTail MsgNode I h (queue_of w)" "family_closed MsgNode I h (queue_of w)"
    using assms(1) by (simp_all add: chan_rep_def)
  have "unlink_back (SideHead p) h = (Some (MsgNode m), ?h)"
    by (rule chan_queues.family_first(2) [OF rep(1) assms(2,3)])
  moreover have "chan_rep I (set_queue p q w) ?h"
    using chan_queues.family_drop [OF rep(1) assms(2), of m] rep(2) assms(3)
    by (simp add: chan_rep_def queue_of_set_queue)
  ultimately show ?thesis using assms(3) by (simp add: unlink_first_def)
qed

lemma buffer_loop_list:
  assumes "chan_rep I w h" "p \<in> I" "\<And>m. keeps_queues (f m)" "queue_of w p = q"
  shows "\<exists>h'. buffer_loop f p (w, h) = Some (buffer_list f p q w, h') \<and> chan_rep I (buffer_list f p q w) h'"
  using assms
proof (induction q arbitrary: w h)
  case Nil
  then show ?case using no_more_iff [OF Nil.prems(1,2)] by (subst buffer_loop.simps) simp
next
  case (Cons m q)
  obtain h1 where h1: "unlink_first p (w, h) = Some (m, set_queue p q w, h1)" "chan_rep I (set_queue p q w) h1"
    using unlink_first_hd [OF Cons.prems(1,2,4)] by blast
  obtain ok w1 where f: "f m (set_queue p q w) = (ok, w1)" by fastforce
  have q1: "queue_of w1 = (queue_of w)(p := q)"
    using keeps_queuesD [OF Cons.prems(3) f] by (simp add: queue_of_set_queue)
  have rep1: "chan_rep I w1 h1" using h1(2) chan_rep_cong [of w1 "set_queue p q w"] q1 by (simp add: queue_of_set_queue)
  have start: "buffer_loop f p (w, h) = (if ok then Some (w1, h1) else buffer_loop f p (w1, h1))"
    using no_more_iff [OF Cons.prems(1,2)] Cons.prems(4) by (subst buffer_loop.simps) (simp add: h1(1) f)
  show ?case
  proof (cases ok)
    case False
    have "queue_of w1 p = q" using q1 by simp
    from Cons.IH [OF rep1 Cons.prems(2,3) this] False show ?thesis by (simp add: start f)
  qed (use rep1 in \<open>simp add: start f\<close>)
qed

lemma waiting_loop_list:
  assumes "chan_rep I w h" "p \<in> I" "\<And>m. keeps_queues (f m)" "queue_of w p = q"
  shows "\<exists>h'. waiting_loop f dead refused p (w, h) =
      Some (fst (waiting_list f dead refused p q w), snd (waiting_list f dead refused p q w), h') \<and>
    chan_rep I (snd (waiting_list f dead refused p q w)) h' \<and>
    (\<forall>r. set (queue_of (snd (waiting_list f dead refused p q w)) r) \<subseteq> set (queue_of w r))"
  using assms
proof (induction q arbitrary: w h)
  case Nil
  then show ?case using no_more_iff [OF Nil.prems(1,2)] by (subst waiting_loop.simps) simp
next
  case (Cons m q)
  obtain r w1 where f: "f m w = (r, w1)" by fastforce
  have q1: "queue_of w1 = queue_of w" by (rule keeps_queuesD [OF Cons.prems(3) f])
  have rep1: "chan_rep I w1 h" using Cons.prems(1) chan_rep_cong [OF q1] by simp
  have "queue_of w1 p = m # q" using q1 Cons.prems(4) by simp
  then obtain h1 where h1: "unlink_first p (w1, h) = Some (m, set_queue p q w1, h1)" "chan_rep I (set_queue p q w1) h1"
    using unlink_first_hd [OF rep1 Cons.prems(2)] by blast
  have sub: "set (queue_of (set_queue p q w1) s) \<subseteq> set (queue_of w s)" for s
    using Cons.prems(4) by (auto simp: queue_of_set_queue q1)
  have "\<not> no_more p h" "first_msg p h = Some m"
    using no_more_iff [OF Cons.prems(1,2)] first_msg_hd [OF Cons.prems(1,2,4)] Cons.prems(4) by simp_all
  then have start: "waiting_loop f dead refused p (w, h) =
      (case r of
         Inl e \<Rightarrow> Some (Inl e, w1, h)
       | Inr x \<Rightarrow> if x = Ok then Some (Inr (Some CReady), set_queue p q w1, h1)
           else if x = dead then waiting_loop f dead refused p (set_queue p q w1, h1)
           else Some (Inr (Some refused), w1, h))"
    by (subst waiting_loop.simps) (simp add: f h1(1) split: sum.split)
  show ?case
  proof (cases r)
    case (Inl e)
    with rep1 q1 show ?thesis by (simp add: start f)
  next
    case (Inr x)
    consider "x = Ok" | "x \<noteq> Ok" "x = dead" | "x \<noteq> Ok" "x \<noteq> dead" by blast
    then show ?thesis
    proof cases
      case 1
      with Inr h1 sub show ?thesis by (simp add: start f)
    next
      case 2
      have "queue_of (set_queue p q w1) p = q" by (simp add: queue_of_set_queue)
      from Cons.IH [OF h1(2) Cons.prems(2,3) this] 2 Inr h1(1) sub show ?thesis by (simp add: start f) blast
    next
      case 3
      with Inr rep1 q1 show ?thesis by (simp add: start f)
    qed
  qed
qed

lemma link_msg_rep:
  assumes "chan_rep I w h" "p \<in> I" "\<And>r. r \<in> I \<Longrightarrow> m \<notin> set (queue_of w r)"
  shows "\<exists>h'. link_msg p m (w, h) = (set_queue p (queue_of w p @ [m]) w, h') \<and>
    chan_rep I (set_queue p (queue_of w p @ [m]) w) h'"
  using chan_queues.family_push [of I h "queue_of w" p m] assms
  by (simp add: link_msg_def chan_rep_def queue_of_set_queue enqueue_def)

lemma set_msg_chan_queues [simp]: "queue_of (w\<lparr>msg_chan := f\<rparr>) = queue_of w"
  by (auto simp: queue_of_def fun_eq_iff split: side.split)

lemma send_links_rep:
  assumes "chan_rep I w h" "Senders c \<in> I" "Recvers c \<in> I" "\<And>r. r \<in> I \<Longrightarrow> m \<notin> set (queue_of w r)"
  shows "\<exists>h'. send_to_links c m oneshot (w, h) =
      Some (fst (chan_send_to c m oneshot w), snd (chan_send_to c m oneshot w), h') \<and>
    chan_rep I (snd (chan_send_to c m oneshot w)) h'"
proof -
  let ?w = "w\<lparr>msg_chan := (msg_chan w)(m := Some c)\<rparr>"
  obtain ok w1 where b: "buffer_send_to c m ?w = (ok, w1)" by fastforce
  have q1: "queue_of w1 = queue_of w" using keeps_queuesD [OF transfers_keep_queues(2) b] by simp
  have rep1: "chan_rep I w1 h" using assms(1) chan_rep_cong [OF q1] by simp
  show ?thesis
  proof (cases ok)
    case True
    have "senders (chans w1 c) = queue_of w1 (Senders c)" by (simp add: queue_of_def)
    with buffer_loop_list [where f = "buffer_recv_from c", OF rep1 assms(2) transfers_keep_queues(1) refl] True b show ?thesis
      by (auto simp: send_to_links_def chan_send_to_def Let_def refill_is_buffer_list)
  next
    case False
    define l where "l = waiting_list (\<lambda>a. send_to_msg a m) InvalidSrc CInvalidDst (Senders c) (queue_of w1 (Senders c)) w1"
    obtain r w2 where r: "l = (r, w2)" by fastforce
    obtain h2 where h2: "waiting_loop (\<lambda>a. send_to_msg a m) InvalidSrc CInvalidDst (Senders c) (w1, h) = Some (r, w2, h2)"
      "chan_rep I w2 h2" "\<And>s. set (queue_of w2 s) \<subseteq> set (queue_of w s)"
      using waiting_loop_list [where f = "\<lambda>a. send_to_msg a m" and dead = InvalidSrc and refused = CInvalidDst,
          OF rep1 assms(2) transfers_keep_queues(3) refl] r q1
      by (auto simp: l_def)
    have t: "take_from_senders c m (senders (chans w1 c)) w1 = (r, w2)"
      using r by (simp add: l_def take_is_waiting_list queue_of_def)
    obtain h3 where "link_msg (Recvers c) m (w2, h2) = (set_recvers c (recvers (chans w2 c) @ [m]) w2, h3)"
      "chan_rep I (set_recvers c (recvers (chans w2 c) @ [m]) w2) h3"
      using link_msg_rep [OF h2(2) assms(3), of m] h2(3) assms(4) by (auto simp: queue_of_def set_queue_def)
    with False b h2(1,2) t show ?thesis
      by (auto simp: send_to_links_def chan_send_to_def Let_def split: sum.split option.split)
  qed
qed

lemma recv_links_rep:
  assumes "chan_rep I w h" "Senders c \<in> I" "Recvers c \<in> I" "\<And>r. r \<in> I \<Longrightarrow> m \<notin> set (queue_of w r)"
  shows "\<exists>h'. recv_from_links c m oneshot (w, h) =
      Some (fst (chan_recv_from c m oneshot w), snd (chan_recv_from c m oneshot w), h') \<and>
    chan_rep I (snd (chan_recv_from c m oneshot w)) h'"
proof -
  let ?w = "w\<lparr>msg_chan := (msg_chan w)(m := Some c)\<rparr>"
  obtain ok w1 where b: "buffer_recv_from c m ?w = (ok, w1)" by fastforce
  have q1: "queue_of w1 = queue_of w" using keeps_queuesD [OF transfers_keep_queues(1) b] by simp
  have rep1: "chan_rep I w1 h" using assms(1) chan_rep_cong [OF q1] by simp
  show ?thesis
  proof (cases ok)
    case True
    have "recvers (chans w1 c) = queue_of w1 (Recvers c)" by (simp add: queue_of_def)
    with buffer_loop_list [where f = "buffer_send_to c", OF rep1 assms(3) transfers_keep_queues(2) refl] True b show ?thesis
      by (auto simp: recv_from_links_def chan_recv_from_def Let_def drain_is_buffer_list)
  next
    case False
    define l where "l = waiting_list (\<lambda>a. send_to_msg m a) InvalidDst CInvalidSrc (Recvers c) (queue_of w1 (Recvers c)) w1"
    obtain r w2 where r: "l = (r, w2)" by fastforce
    obtain h2 where h2: "waiting_loop (\<lambda>a. send_to_msg m a) InvalidDst CInvalidSrc (Recvers c) (w1, h) = Some (r, w2, h2)"
      "chan_rep I w2 h2" "\<And>s. set (queue_of w2 s) \<subseteq> set (queue_of w s)"
      using waiting_loop_list [where f = "\<lambda>a. send_to_msg m a" and dead = InvalidDst and refused = CInvalidSrc,
          OF rep1 assms(3) transfers_keep_queues(3) refl] r q1
      by (auto simp: l_def)
    have t: "give_to_recvers c m (recvers (chans w1 c)) w1 = (r, w2)"
      using r by (simp add: l_def give_is_waiting_list queue_of_def)
    obtain h3 where "link_msg (Senders c) m (w2, h2) = (set_senders c (senders (chans w2 c) @ [m]) w2, h3)"
      "chan_rep I (set_senders c (senders (chans w2 c) @ [m]) w2) h3"
      using link_msg_rep [OF h2(2) assms(2), of m] h2(3) assms(4) by (auto simp: queue_of_def set_queue_def)
    with False b h2(1,2) t show ?thesis
      by (auto simp: recv_from_links_def chan_recv_from_def Let_def split: sum.split option.split)
  qed
qed

text \<open>\<open>drop\<close> takes a message out of the middle of its queue, and does nothing to one that is in none.\<close>

lemma drop_links_rep:
  assumes "chan_rep I w h" "msg_chan w m = Some c"
    and "\<And>r. r \<in> I \<Longrightarrow> m \<in> set (queue_of w r) \<Longrightarrow> r = Senders c \<or> r = Recvers c"
    and "Senders c \<in> I" "Recvers c \<in> I"
  shows "\<exists>w' h'. drop_msg m w = Some w' \<and> drop_links m (w, h) = Some (w', h') \<and> chan_rep I w' h'"
proof -
  let ?S = "Senders c" and ?R = "Recvers c" and ?h = "snd (unlink_this (MsgNode m) h)"
  have rep: "family_rep SideHead SideTail MsgNode I h (queue_of w)" "family_closed MsgNode I h (queue_of w)"
    using assms(1) by (simp_all add: chan_rep_def)
  let ?w = "upd_chan c (\<lambda>ch. ch\<lparr>senders := remove1 m (senders ch), recvers := remove1 m (recvers ch)\<rparr>) w"
  have q: "queue_of ?w = (queue_of w)(?S := remove1 m (queue_of w ?S), ?R := remove1 m (queue_of w ?R))"
    by (auto simp: queue_of_def fun_eq_iff split: side.split)
  have disj: "m \<in> set (queue_of w ?S) \<Longrightarrow> m \<notin> set (queue_of w ?R)"
    using rep(1) assms(4,5) unfolding family_rep_def by blast
  have "chan_rep I ?w ?h"
  proof (cases "m \<in> set (queue_of w ?S)")
    case True
    then have "queue_of ?w = (queue_of w)(?S := remove1 m (queue_of w ?S))"
      using disj q by (simp add: remove1_idem fun_upd_twist)
    with chan_queues.family_drop [OF rep(1) assms(4) True] rep(2) show ?thesis by (simp add: chan_rep_def)
  next
    case nS: False
    show ?thesis
    proof (cases "m \<in> set (queue_of w ?R)")
      case True
      then have "queue_of ?w = (queue_of w)(?R := remove1 m (queue_of w ?R))" using nS q by (simp add: remove1_idem)
      with chan_queues.family_drop [OF rep(1) assms(5) True] rep(2) show ?thesis by (simp add: chan_rep_def)
    next
      case False
      with nS assms(3) have "\<forall>r \<in> I. m \<notin> set (queue_of w r)" by blast
      then have "unlinked h (MsgNode m)" using rep(2) by (simp add: family_closed_def)
      then have "?h = h" by (simp add: unlink_this_unlinked)
      moreover have "queue_of ?w = queue_of w" using nS False q by (simp add: remove1_idem)
      ultimately show ?thesis using assms(1) chan_rep_cong [of ?w w I h] by simp
    qed
  qed
  then show ?thesis using assms(2) by (simp add: drop_links_def drop_msg_def)
qed

text \<open>The constructor makes two empty queues.\<close>

lemma base_channel_rep:
  assumes "chan_rep I w h" "Senders c \<notin> I" "Recvers c \<notin> I" "queue_of w (Senders c) = []" "queue_of w (Recvers c) = []"
    and "\<And>p. p \<in> {Senders c, Recvers c} \<Longrightarrow> unlinked h (SideHead p) \<and> unlinked h (SideTail p)"
  shows "chan_rep (insert (Recvers c) (insert (Senders c) I)) w (base_channel c h)"
proof -
  let ?S = "Senders c" and ?R = "Recvers c"
  let ?h1 = "link_back (SideHead ?S) (SideTail ?S) h"
  have same: "(queue_of w)(p := []) = queue_of w" if "queue_of w p = []" for p using that by auto
  have "family_rep SideHead SideTail MsgNode (insert ?S I) ?h1 (queue_of w)"
    "family_closed MsgNode (insert ?S I) ?h1 (queue_of w)"
    using chan_queues.family_new [of I h "queue_of w" ?S] assms same [of ?S] by (simp_all add: chan_rep_def)
  moreover have "unlinked ?h1 (SideHead ?R)" "unlinked ?h1 (SideTail ?R)"
    using assms(6) by (simp_all add: unlinked_def link_back_def)
  ultimately show ?thesis
    using chan_queues.family_new [of "insert ?S I" ?h1 "queue_of w" ?R] assms(3) same [of ?R, OF assms(5)]
    by (simp add: chan_rep_def base_channel_def)
qed

text \<open>
  C15: The channel operations on pointers do what they do on lists: if the pointers represent the queues of
  the constructed channels, then \<open>BaseChannel::send_to\<close> and \<open>BaseChannel::recv_from\<close> of a message that is
  in no queue never follow a null pointer or take a sentinel for a message, their loops end, they
  return the same status and leave the same world as the list operations, and the pointers
  represent its queues.
\<close>

theorem channel_queues_are_linked_lists:
  assumes "chan_rep I w h" "Senders c \<in> I" "Recvers c \<in> I" "\<And>r. r \<in> I \<Longrightarrow> m \<notin> set (queue_of w r)"
  shows "(\<exists>h'. send_to_links c m oneshot (w, h) =
        Some (fst (chan_send_to c m oneshot w), snd (chan_send_to c m oneshot w), h') \<and>
      chan_rep I (snd (chan_send_to c m oneshot w)) h') \<and>
    (\<exists>h'. recv_from_links c m oneshot (w, h) =
        Some (fst (chan_recv_from c m oneshot w), snd (chan_recv_from c m oneshot w), h') \<and>
      chan_rep I (snd (chan_recv_from c m oneshot w)) h')"
  using send_links_rep [OF assms] recv_links_rep [OF assms] by blast

text \<open>A new channel 7 with a buffer for one value, to which a receiver is linked.\<close>

definition links_demo :: "nat world" where
  "links_demo = \<lparr>mem = (\<lambda>_. 5), msg = (\<lambda>m. Simplex (Some 4) (Some 20)), msg_chan = (\<lambda>_. None), sems = (\<lambda>_. 0),
     keys = (\<lambda>_. 3), signals = (\<lambda>_. 1), chans = (\<lambda>_. new_chan 1), moved_from = id\<rparr>"

lemma links_demo_rep: "chan_rep {Recvers 7, Senders 7} links_demo (base_channel 7 no_links)"
proof (rule base_channel_rep)
  have "queue_of links_demo p = []" for p by (cases p) (simp_all add: queue_of_def links_demo_def new_chan_def)
  then show "queue_of links_demo (Senders 7) = []" "queue_of links_demo (Recvers 7) = []" by blast+
qed (simp_all add: chan_rep_def family_rep_def family_closed_def unlinked_def)

theorem channel_queues_are_linked_lists_witness:
  "\<exists>h. send_to_links 7 1 False (links_demo, base_channel 7 no_links) =
      Some (Inr CInprocess, snd (chan_send_to 7 1 False links_demo), h) \<and>
    chan_rep {Recvers 7, Senders 7} (snd (chan_send_to 7 1 False links_demo)) h"
proof -
  have "fst (chan_send_to 7 1 False links_demo) = Inr CInprocess"
    by (simp add: chan_send_to_def buffer_send_to_def links_demo_def new_chan_def)
  moreover have "1 \<notin> set (queue_of links_demo r)" for r
    by (cases r) (simp_all add: queue_of_def links_demo_def new_chan_def)
  ultimately show ?thesis
    using channel_queues_are_linked_lists [OF links_demo_rep, of 7 1 False] by simp
qed

end
